(* ===== verification/Prelude.thy ===== *)
theory Prelude
  imports Main "HOL-Library.Word" "HOL-Library.AList"
begin

text \<open>
  Shared vocabulary of the development: machine integers, Rust strings as their UTF-8
  bytes, big-endian encodings, the bounded tokio channel, and hash maps as association
  lists with distinct keys (the order of the list stands for the unspecified iteration
  order of a \<^verbatim>\<open>HashMap\<close>; every theorem is about an arbitrary list, hence about every order).
\<close>

named_theorems inv_intro \<open>operations keep their component's invariant\<close>
named_theorems chan_simps \<open>equations of the bounded channel\<close>

type_synonym u8 = "8 word"
type_synonym u16 = "16 word"
type_synonym u32 = "32 word"
type_synonym u64 = "64 word"
type_synonym bytes = "u8 list"

section \<open>Big-endian byte strings\<close>

primrec to_be :: "nat \<Rightarrow> nat \<Rightarrow> bytes" where
  "to_be 0 x = []"
| "to_be (Suc n) x = to_be n (x div 256) @ [word_of_nat (x mod 256)]"

definition from_be :: "bytes \<Rightarrow> nat" where
  "from_be bs = foldl (\<lambda>a b. a * 256 + unat b) 0 bs"

lemma length_to_be [simp]: "length (to_be n x) = n"
  by (induction n arbitrary: x) simp_all

lemma from_be_snoc [simp]: "from_be (bs @ [b]) = from_be bs * 256 + unat b"
  by (simp add: from_be_def)

lemma from_be_Nil [simp]: "from_be [] = 0"
  by (simp add: from_be_def)

lemma unat_byte_of_nat [simp]: "unat (word_of_nat (x mod 256) :: u8) = x mod 256"
  by (simp add: unat_of_nat)

lemma from_be_to_be: "from_be (to_be n x) = x mod 256 ^ n"
proof (induction n arbitrary: x)
  case (Suc n)
  have "x mod (256 * 256 ^ n) = 256 * (x div 256 mod 256 ^ n) + x mod 256"
    by (rule mod_mult2_eq)
  then show ?case using Suc by simp
qed simp

lemma unat_byte_less [simp]: "unat (b :: u8) < 256"
  using unsigned_less [where ?'a = nat, of b] by simp

lemma from_be_less: "from_be bs < 256 ^ length bs"
proof (induction bs rule: rev_induct)
  case (snoc b bs)
  have "unat b < 256" by simp
  then have "from_be bs * 256 + unat b < (from_be bs + 1) * 256" by simp
  also have "\<dots> \<le> 256 ^ length bs * 256" using snoc by (intro mult_right_mono) auto
  finally show ?case by simp
qed simp

lemma to_be_from_be: "to_be (length bs) (from_be bs) = bs"
proof (induction bs rule: rev_induct)
  case (snoc b bs)
  have b: "unat b < 256" by simp
  then have "(from_be bs * 256 + unat b) div 256 = from_be bs"
    and "(from_be bs * 256 + unat b) mod 256 = unat b"
    by simp_all
  then show ?case using snoc by simp
qed simp

definition u16_to_be :: "u16 \<Rightarrow> bytes" where "u16_to_be w = to_be 2 (unat w)"
definition u32_to_be :: "u32 \<Rightarrow> bytes" where "u32_to_be w = to_be 4 (unat w)"
definition u64_to_be :: "u64 \<Rightarrow> bytes" where "u64_to_be w = to_be 8 (unat w)"
definition u16_from_be :: "bytes \<Rightarrow> u16" where "u16_from_be bs = word_of_nat (from_be bs)"
definition u32_from_be :: "bytes \<Rightarrow> u32" where "u32_from_be bs = word_of_nat (from_be bs)"
definition u64_from_be :: "bytes \<Rightarrow> u64" where "u64_from_be bs = word_of_nat (from_be bs)"

lemma be_lengths [simp]:
  "length (u16_to_be a) = 2" "length (u32_to_be b) = 4" "length (u64_to_be c) = 8"
  by (simp_all add: u16_to_be_def u32_to_be_def u64_to_be_def)

lemma be_round_trip [simp]:
  "u16_from_be (u16_to_be a) = a" "u32_from_be (u32_to_be b) = b" "u64_from_be (u64_to_be c) = c"
  using unsigned_less [where ?'a = nat, of a] unsigned_less [where ?'a = nat, of b]
    unsigned_less [where ?'a = nat, of c]
  by (simp_all add: u16_to_be_def u32_to_be_def u64_to_be_def u16_from_be_def u32_from_be_def
      u64_from_be_def from_be_to_be)

lemma be_round_trip_back:
  "length bs = 2 \<Longrightarrow> u16_to_be (u16_from_be bs) = bs"
  "length bs = 4 \<Longrightarrow> u32_to_be (u32_from_be bs) = bs"
  "length bs = 8 \<Longrightarrow> u64_to_be (u64_from_be bs) = bs"
  using from_be_less [of bs] to_be_from_be [of bs]
  by (simp_all add: u16_to_be_def u32_to_be_def u64_to_be_def u16_from_be_def u32_from_be_def
      u64_from_be_def unat_of_nat)

section \<open>Strings\<close>

text \<open>
  A Rust \<^verbatim>\<open>String\<close> is its UTF-8 byte sequence; a \<^typ>\<open>char\<close> of HOL is one byte, so
  \<open>length\<close> is \<^verbatim>\<open>str::len\<close>. \<open>utf8_valid\<close> is the well-formedness check of
  \<^verbatim>\<open>String::from_utf8\<close> (table 3-7 of the Unicode standard).
\<close>

definition as_bytes :: "string \<Rightarrow> bytes" where
  "as_bytes s = map (\<lambda>c. word_of_nat (of_char c)) s"

definition chars_of :: "bytes \<Rightarrow> string" where
  "chars_of bs = map (\<lambda>b. char_of (unat b)) bs"

definition is_cont :: "u8 \<Rightarrow> bool" where
  "is_cont b \<longleftrightarrow> 0x80 \<le> b \<and> b \<le> 0xBF"

fun utf8_valid :: "bytes \<Rightarrow> bool" where
  "utf8_valid [] = True"
| "utf8_valid (a # bs) =
     (if a \<le> 0x7F then utf8_valid bs
      else if 0xC2 \<le> a \<and> a \<le> 0xDF then
        (case bs of b # cs \<Rightarrow> is_cont b \<and> utf8_valid cs | _ \<Rightarrow> False)
      else if 0xE0 \<le> a \<and> a \<le> 0xEF then
        (case bs of b # c # ds \<Rightarrow>
           is_cont b \<and> (a = 0xE0 \<longrightarrow> 0xA0 \<le> b) \<and> (a = 0xED \<longrightarrow> b \<le> 0x9F) \<and> is_cont c \<and> utf8_valid ds
         | _ \<Rightarrow> False)
      else if 0xF0 \<le> a \<and> a \<le> 0xF4 then
        (case bs of b # c # d # es \<Rightarrow>
           is_cont b \<and> (a = 0xF0 \<longrightarrow> 0x90 \<le> b) \<and> (a = 0xF4 \<longrightarrow> b \<le> 0x8F) \<and>
           is_cont c \<and> is_cont d \<and> utf8_valid es
         | _ \<Rightarrow> False)
      else False)"

definition from_utf8 :: "bytes \<Rightarrow> string option" where
  "from_utf8 bs = (if utf8_valid bs then Some (chars_of bs) else None)"

definition rust_string :: "string \<Rightarrow> bool" where
  "rust_string s \<longleftrightarrow> utf8_valid (as_bytes s)"

lemma length_as_bytes [simp]: "length (as_bytes s) = length s"
  by (simp add: as_bytes_def)

lemma length_chars_of [simp]: "length (chars_of bs) = length bs"
  by (simp add: chars_of_def)

lemma byte_char_byte [simp]: "(word_of_nat (of_char (char_of (unat b))) :: u8) = b"
proof -
  have "unat b mod 256 = unat b" by simp
  then show ?thesis by simp
qed

lemma char_byte_char [simp]: "char_of (unat (word_of_nat (of_char c) :: u8)) = c"
proof -
  have "of_char c < (256::nat)"
    by (rule nat_of_char_less_256)
  then show ?thesis by (simp add: unat_of_nat)
qed

lemma as_bytes_chars_of [simp]: "as_bytes (chars_of bs) = bs"
  by (simp add: as_bytes_def chars_of_def comp_def mod_less map_idI)

lemma chars_of_as_bytes [simp]: "chars_of (as_bytes s) = s"
  by (simp add: as_bytes_def chars_of_def comp_def)

lemma from_utf8_as_bytes [simp]: "rust_string s \<Longrightarrow> from_utf8 (as_bytes s) = Some s"
  by (simp add: from_utf8_def rust_string_def)

lemma from_utf8_SomeD:
  "from_utf8 bs = Some s \<Longrightarrow> as_bytes s = bs \<and> rust_string s \<and> length s = length bs"
  by (auto simp: from_utf8_def rust_string_def split: if_splits)

text \<open>\<^verbatim>\<open>u8::to_ascii_lowercase\<close> and \<^verbatim>\<open>str::eq_ignore_ascii_case\<close>.\<close>

definition ascii_lower :: "char \<Rightarrow> char" where
  "ascii_lower c = (let n = of_char c :: nat in if 65 \<le> n \<and> n \<le> 90 then char_of (n + 32) else c)"

definition eq_ignore_ascii_case :: "string \<Rightarrow> string \<Rightarrow> bool" where
  "eq_ignore_ascii_case s t \<longleftrightarrow> map ascii_lower s = map ascii_lower t"

section \<open>Bounded channels\<close>

text \<open>
  \<^verbatim>\<open>tokio::sync::mpsc\<close> with a capacity: the queue, and whether the receiver is alive.
  \<open>chan_try_send\<close> is \<^verbatim>\<open>try_send\<close>. The asynchronous \<^verbatim>\<open>send\<close> differs only in what the caller
  does on \<open>SendFull\<close>: it parks and retries.
\<close>

record 'a chan =
  chan_cap :: nat
  chan_queue :: "'a list"
  chan_rx_open :: bool

datatype send_result = SendOk | SendFull | SendClosed

definition chan_new :: "nat \<Rightarrow> 'a chan" where
  "chan_new n = \<lparr>chan_cap = n, chan_queue = [], chan_rx_open = True\<rparr>"

definition chan_try_send :: "'a \<Rightarrow> 'a chan \<Rightarrow> 'a chan \<times> send_result" where
  "chan_try_send x c =
     (if \<not> chan_rx_open c then (c, SendClosed)
      else if chan_cap c \<le> length (chan_queue c) then (c, SendFull)
      else (c\<lparr>chan_queue := chan_queue c @ [x]\<rparr>, SendOk))"

definition chan_recv :: "'a chan \<Rightarrow> ('a \<times> 'a chan) option" where
  "chan_recv c = (case chan_queue c of [] \<Rightarrow> None | x # xs \<Rightarrow> Some (x, c\<lparr>chan_queue := xs\<rparr>))"

definition chan_ok :: "'a chan \<Rightarrow> bool" where
  "chan_ok c \<longleftrightarrow> length (chan_queue c) \<le> chan_cap c"

lemma chan_new_simps [simp, chan_simps]:
  "chan_cap (chan_new n) = n" "chan_queue (chan_new n) = []" "chan_rx_open (chan_new n)"
  by (simp_all add: chan_new_def)

lemma chan_ok_new [inv_intro]: "chan_ok (chan_new n)"
  by (simp add: chan_ok_def)

lemma chan_try_send_cases [case_names Ok Full Closed]:
  obtains "chan_rx_open c" "length (chan_queue c) < chan_cap c"
      "chan_try_send x c = (c\<lparr>chan_queue := chan_queue c @ [x]\<rparr>, SendOk)"
  | "chan_rx_open c" "chan_cap c \<le> length (chan_queue c)" "chan_try_send x c = (c, SendFull)"
  | "\<not> chan_rx_open c" "chan_try_send x c = (c, SendClosed)"
  by (cases "chan_rx_open c"; cases "chan_cap c \<le> length (chan_queue c)")
    (auto simp: chan_try_send_def)

lemma chan_ok_try_send [inv_intro]: "chan_ok c \<Longrightarrow> chan_ok (fst (chan_try_send x c))"
  by (cases rule: chan_try_send_cases [of c x]) (auto simp: chan_ok_def)

lemma chan_ok_recv [inv_intro]: "chan_ok c \<Longrightarrow> chan_recv c = Some (x, c') \<Longrightarrow> chan_ok c'"
  by (auto simp: chan_ok_def chan_recv_def split: list.splits)

section \<open>Hash maps\<close>

text \<open>
  \<^verbatim>\<open>HashMap\<close>: an association list with distinct keys. Lookup is \<open>map_of\<close>, \<^verbatim>\<open>insert\<close> is
  \<open>AList.update\<close> and \<^verbatim>\<open>remove\<close> is \<open>AList.delete\<close>.
\<close>

abbreviation keys_distinct :: "('k \<times> 'v) list \<Rightarrow> bool" where
  "keys_distinct m \<equiv> distinct (map fst m)"

lemma map_of_update [simp]:
  "map_of (AList.update k v m) = (map_of m)(k \<mapsto> v)"
  by (rule update_conv')

lemma map_of_delete [simp]:
  "map_of (AList.delete k m) = (map_of m)(k := None)"
  by (rule delete_conv')

lemma keys_distinct_update [simp]: "keys_distinct m \<Longrightarrow> keys_distinct (AList.update k v m)"
  by (rule distinct_update)

lemma keys_distinct_delete [simp]: "keys_distinct m \<Longrightarrow> keys_distinct (AList.delete k m)"
  by (rule distinct_delete)

lemma keys_distinct_filter [simp]: "keys_distinct m \<Longrightarrow> keys_distinct (filter P m)"
  by (rule distinct_map_filter)

lemma sum_list_update:
  fixes f :: "'v \<Rightarrow> nat"
  assumes "keys_distinct m"
  shows "sum_list (map (f \<circ> snd) (AList.update k v m)) + (case map_of m k of None \<Rightarrow> 0 | Some w \<Rightarrow> f w)
       = sum_list (map (f \<circ> snd) m) + f v"
  using assms
proof (induction m)
  case (Cons p m)
  obtain a b where p: "p = (a, b)" by (cases p)
  show ?case
  proof (cases "a = k")
    case True
    then show ?thesis by (simp add: p)
  next
    case False
    then show ?thesis using Cons by (simp add: p)
  qed
qed simp

lemma sum_list_filter_le:
  fixes f :: "'v \<Rightarrow> nat"
  shows "sum_list (map f (filter P xs)) \<le> sum_list (map f xs)"
  by (induction xs) auto

lemma sum_list_filter_zero:
  fixes f :: "'v \<Rightarrow> nat"
  assumes "\<And>x. x \<in> set xs \<Longrightarrow> \<not> P x \<Longrightarrow> f x = 0"
  shows "sum_list (map f (filter P xs)) = sum_list (map f xs)"
  using assms by (induction xs) auto

end
