(* ===== verification/Frame.thy ===== *)
theory Frame
  imports Prelude
begin

text \<open>
  The relay mux frame layer, \<^verbatim>\<open>src/infra/relay_mux/frame.rs\<close> and \<^verbatim>\<open>src/infra/relay_mux/mod.rs\<close>:
  the frame and error types, the 10-byte header codec, reading a frame from a byte stream
  and writing one. A message text of the source is a constructor carrying the values the text
  interpolates.
\<close>

section \<open>Constants and stream-id parity\<close>

definition DEFAULT_STREAM_WINDOW :: u64 where "DEFAULT_STREAM_WINDOW = 256 * 1024"
definition WINDOW_GRANT_THRESHOLD :: u64 where "WINDOW_GRANT_THRESHOLD = DEFAULT_STREAM_WINDOW div 2"
definition MAX_FRAME_PAYLOAD :: u32 where "MAX_FRAME_PAYLOAD = 16 * 1024"
definition OUTBOUND_QUEUE :: nat where "OUTBOUND_QUEUE = 1024"
definition INBOUND_CHUNK_QUEUE :: nat where "INBOUND_CHUNK_QUEUE = 64"
definition ACCEPT_QUEUE :: nat where "ACCEPT_QUEUE = 64"
definition HEADER_LEN :: nat where "HEADER_LEN = 10"
definition MAX_NODE_ID_LEN :: u32 where "MAX_NODE_ID_LEN = 256"

datatype mux_role = Client | Server

definition owns_stream_id :: "mux_role \<Rightarrow> u32 \<Rightarrow> bool" where
  "owns_stream_id role stream_id = ((role = Client) = (stream_id mod 2 = 1))"

fun first_stream_id :: "mux_role \<Rightarrow> u32" where
  "first_stream_id Client = 1"
| "first_stream_id Server = 2"

section \<open>Frames\<close>

datatype frame_type =
    TOpen | TClose | TData | TWindow | TRegister | TUnregister | THeartbeat | TOpenStream
  | TError | TCloseStream | TEnroll | TEnrollResponse | TPresence | TWatch
  | TAdminRequest | TAdminResponse

datatype frame =
    Open u32
  | Close u32
  | Data u32 bytes
  | Window u32 u64
  | Register string
  | Unregister
  | Heartbeat
  | OpenStream u32 string
  | Error u32 u16 string
  | CloseStream u32
  | Enroll string
  | EnrollResponse string
  | Presence string bool
  | Watch string
  | AdminRequest u64 string
  | AdminResponse u64 string

text \<open>
  \<^verbatim>\<open>std::io::ErrorKind\<close> as far as the code distinguishes it; an I/O error is its kind and its
  text.
\<close>

datatype io_kind = UnexpectedEof | ConnectionReset | BrokenPipe | InvalidData | OtherKind

datatype violation =
    IdStillLive u32
  | TargetIdTooLong nat
  | ControlIdTooLong nat
  | NotAControlFrame frame

datatype mux_error =
    Io io_kind string
  | InvalidFrameType u8
  | InvalidFlags u8
  | PayloadTooLong u32
  | InvalidPayload frame_type u32
  | InvalidStreamId frame_type u32
  | TruncatedFrame
  | UnknownStream u32
  | StreamClosed u32
  | ProtocolViolation violation
  | ConnectionClosed close_reason
  | NotRelayLink
and close_reason =
    GenericClosed
  | OutboundFull
  | ReadFailed mux_error
  | WriteFailed mux_error
  | StillLive u32
  | OpenOnRelayLink
  | LocalParity u32
  | OddOpenStream u32
  | ErrorWithoutControl
  | ErrorReceiverDropped
  | PresenceWithoutControl
  | PresenceReceiverDropped
  | AdminWithoutControl
  | AdminReceiverDropped
  | DataOnClosed u32
  | DroppedByReader u32
  | ClosedTwice u32
  | CreditOverflow u32
  | NodeOnlyFrame
  | ControlOnNodeLink
  | UnknownStreamReason u32
  | Reopened u32
  | HandleDropped

text \<open>\<^verbatim>\<open>impl From<MuxError> for io::Error\<close>: the kind of the resulting error.\<close>

fun mux_error_kind :: "mux_error \<Rightarrow> io_kind" where
  "mux_error_kind (Io k _) = k"
| "mux_error_kind TruncatedFrame = UnexpectedEof"
| "mux_error_kind (StreamClosed _) = BrokenPipe"
| "mux_error_kind (ConnectionClosed _) = ConnectionReset"
| "mux_error_kind _ = InvalidData"

fun wire_value :: "frame_type \<Rightarrow> u8" where
  "wire_value TOpen = 0x01"
| "wire_value TClose = 0x02"
| "wire_value TData = 0x03"
| "wire_value TWindow = 0x04"
| "wire_value TRegister = 0x05"
| "wire_value TUnregister = 0x06"
| "wire_value THeartbeat = 0x07"
| "wire_value TOpenStream = 0x08"
| "wire_value TError = 0x09"
| "wire_value TCloseStream = 0x0A"
| "wire_value TEnroll = 0x0B"
| "wire_value TEnrollResponse = 0x0C"
| "wire_value TPresence = 0x0D"
| "wire_value TWatch = 0x0E"
| "wire_value TAdminRequest = 0x0F"
| "wire_value TAdminResponse = 0x10"

definition from_wire :: "u8 \<Rightarrow> mux_error + frame_type" where
  "from_wire v =
     (if v = 0x01 then Inr TOpen else if v = 0x02 then Inr TClose
      else if v = 0x03 then Inr TData else if v = 0x04 then Inr TWindow
      else if v = 0x05 then Inr TRegister else if v = 0x06 then Inr TUnregister
      else if v = 0x07 then Inr THeartbeat else if v = 0x08 then Inr TOpenStream
      else if v = 0x09 then Inr TError else if v = 0x0A then Inr TCloseStream
      else if v = 0x0B then Inr TEnroll else if v = 0x0C then Inr TEnrollResponse
      else if v = 0x0D then Inr TPresence else if v = 0x0E then Inr TWatch
      else if v = 0x0F then Inr TAdminRequest else if v = 0x10 then Inr TAdminResponse
      else Inl (InvalidFrameType v))"

fun frame_stream_id :: "frame \<Rightarrow> u32" where
  "frame_stream_id (Open sid) = sid"
| "frame_stream_id (Close sid) = sid"
| "frame_stream_id (Data sid _) = sid"
| "frame_stream_id (Window sid _) = sid"
| "frame_stream_id (OpenStream sid _) = sid"
| "frame_stream_id (Error sid _ _) = sid"
| "frame_stream_id (CloseStream sid) = sid"
| "frame_stream_id _ = 0"

fun type_of_frame :: "frame \<Rightarrow> frame_type" where
  "type_of_frame (Open _) = TOpen"
| "type_of_frame (Close _) = TClose"
| "type_of_frame (Data _ _) = TData"
| "type_of_frame (Window _ _) = TWindow"
| "type_of_frame (Register _) = TRegister"
| "type_of_frame Unregister = TUnregister"
| "type_of_frame Heartbeat = THeartbeat"
| "type_of_frame (OpenStream _ _) = TOpenStream"
| "type_of_frame (Error _ _ _) = TError"
| "type_of_frame (CloseStream _) = TCloseStream"
| "type_of_frame (Enroll _) = TEnroll"
| "type_of_frame (EnrollResponse _) = TEnrollResponse"
| "type_of_frame (Presence _ _) = TPresence"
| "type_of_frame (Watch _) = TWatch"
| "type_of_frame (AdminRequest _ _) = TAdminRequest"
| "type_of_frame (AdminResponse _ _) = TAdminResponse"

fun is_bulk_ordered :: "frame \<Rightarrow> bool" where
  "is_bulk_ordered (Data _ _) = True"
| "is_bulk_ordered (Window _ _) = True"
| "is_bulk_ordered (Close _) = True"
| "is_bulk_ordered _ = False"

fun payload_len :: "frame \<Rightarrow> nat" where
  "payload_len (Open _) = 0"
| "payload_len (Close _) = 0"
| "payload_len (Data _ payload) = length payload"
| "payload_len (Window _ _) = 8"
| "payload_len (Register node_id) = length node_id"
| "payload_len (OpenStream _ node_id) = length node_id"
| "payload_len (Error _ _ message) = 2 + length message"
| "payload_len Unregister = 0"
| "payload_len Heartbeat = 0"
| "payload_len (CloseStream _) = 0"
| "payload_len (Enroll token) = length token"
| "payload_len (EnrollResponse fingerprint) = length fingerprint"
| "payload_len (Presence node_id _) = length node_id + 1"
| "payload_len (Watch node_id) = length node_id"
| "payload_len (AdminRequest _ command) = 8 + length command"
| "payload_len (AdminResponse _ body) = 8 + length body"

fun encode_payload :: "frame \<Rightarrow> bytes" where
  "encode_payload (Data _ payload) = payload"
| "encode_payload (Window _ credit) = u64_to_be credit"
| "encode_payload (Register node_id) = as_bytes node_id"
| "encode_payload (OpenStream _ node_id) = as_bytes node_id"
| "encode_payload (Error _ code message) = u16_to_be code @ as_bytes message"
| "encode_payload (Enroll token) = as_bytes token"
| "encode_payload (EnrollResponse fingerprint) = as_bytes fingerprint"
| "encode_payload (Presence node_id online) = as_bytes node_id @ [if online then 1 else 0]"
| "encode_payload (Watch node_id) = as_bytes node_id"
| "encode_payload (AdminRequest seq command) = u64_to_be seq @ as_bytes command"
| "encode_payload (AdminResponse seq body) = u64_to_be seq @ as_bytes body"
| "encode_payload _ = []"

definition encode_header :: "frame \<Rightarrow> bytes" where
  "encode_header f =
     [wire_value (type_of_frame f), 0] @ u32_to_be (frame_stream_id f)
       @ u32_to_be (word_of_nat (payload_len f))"

definition encode :: "frame \<Rightarrow> bytes" where
  "encode f = encode_header f @ encode_payload f"

definition decode_admin_payload :: "bytes \<Rightarrow> frame_type \<Rightarrow> mux_error + (u64 \<times> string)" where
  "decode_admin_payload payload ty =
     (if length payload < 8 then Inl (InvalidPayload ty (word_of_nat (length payload)))
      else case from_utf8 (drop 8 payload) of
          None \<Rightarrow> Inl (InvalidPayload ty (word_of_nat (length payload)))
        | Some text \<Rightarrow> Inr (u64_from_be (take 8 payload), text))"

definition decode_text :: "frame_type \<Rightarrow> u32 \<Rightarrow> bytes \<Rightarrow> (string \<Rightarrow> frame) \<Rightarrow> mux_error + frame" where
  "decode_text ty len bs build =
     (case from_utf8 bs of None \<Rightarrow> Inl (InvalidPayload ty len) | Some s \<Rightarrow> Inr (build s))"

definition decode_node_id :: "frame_type \<Rightarrow> u32 \<Rightarrow> bytes \<Rightarrow> (string \<Rightarrow> frame) \<Rightarrow> mux_error + frame" where
  "decode_node_id ty len bs build =
     (if MAX_NODE_ID_LEN < len then Inl (InvalidPayload ty len) else decode_text ty len bs build)"

text \<open>
  The \<^verbatim>\<open>match frame_type\<close> of \<^verbatim>\<open>Frame::decode\<close>, on the stream id, the declared length and the
  payload. \<open>decode_text\<close> and \<open>decode_node_id\<close> are the \<^verbatim>\<open>String::from_utf8\<close> step its arms share.
\<close>

fun decode_body :: "frame_type \<Rightarrow> u32 \<Rightarrow> u32 \<Rightarrow> bytes \<Rightarrow> mux_error + frame" where
  "decode_body TOpen sid len payload =
     (if payload = [] then Inr (Open sid) else Inl (InvalidPayload TOpen len))"
| "decode_body TClose sid len payload =
     (if payload = [] then Inr (Close sid) else Inl (InvalidPayload TClose len))"
| "decode_body TData sid len payload = Inr (Data sid payload)"
| "decode_body TWindow sid len payload =
     (if length payload = 8 then Inr (Window sid (u64_from_be payload))
      else Inl (InvalidPayload TWindow len))"
| "decode_body TRegister sid len payload =
     (if sid \<noteq> 0 then Inl (InvalidStreamId TRegister sid)
      else decode_node_id TRegister len payload Register)"
| "decode_body TUnregister sid len payload =
     (if payload = [] \<and> sid = 0 then Inr Unregister else Inl (InvalidStreamId TUnregister sid))"
| "decode_body THeartbeat sid len payload =
     (if payload = [] \<and> sid = 0 then Inr Heartbeat else Inl (InvalidStreamId THeartbeat sid))"
| "decode_body TOpenStream sid len payload = decode_node_id TOpenStream len payload (OpenStream sid)"
| "decode_body TError sid len payload =
     (if length (take (min (length payload) 2) payload) \<noteq> 2 then Inl (InvalidPayload TError len)
      else decode_text TError len (drop (min 2 (length payload)) payload)
             (Error sid (u16_from_be (take (min (length payload) 2) payload))))"
| "decode_body TCloseStream sid len payload =
     (if payload = [] then Inr (CloseStream sid) else Inl (InvalidPayload TCloseStream len))"
| "decode_body TEnroll sid len payload =
     (if sid \<noteq> 0 then Inl (InvalidStreamId TEnroll sid) else decode_text TEnroll len payload Enroll)"
| "decode_body TEnrollResponse sid len payload =
     (if sid \<noteq> 0 then Inl (InvalidStreamId TEnrollResponse sid)
      else decode_text TEnrollResponse len payload EnrollResponse)"
| "decode_body TPresence sid len payload =
     (if sid \<noteq> 0 then Inl (InvalidStreamId TPresence sid)
      else if payload = [] then Inl (InvalidPayload TPresence len)
      else if MAX_NODE_ID_LEN < word_of_nat (length (butlast payload))
        then Inl (InvalidPayload TPresence len)
      else decode_text TPresence len (butlast payload) (\<lambda>s. Presence s (last payload \<noteq> 0)))"
| "decode_body TWatch sid len payload =
     (if sid \<noteq> 0 then Inl (InvalidStreamId TWatch sid)
      else decode_node_id TWatch len payload Watch)"
| "decode_body TAdminRequest sid len payload =
     (if sid \<noteq> 0 then Inl (InvalidStreamId TAdminRequest sid)
      else map_sum id (\<lambda>(seq, text). AdminRequest seq text) (decode_admin_payload payload TAdminRequest))"
| "decode_body TAdminResponse sid len payload =
     (if sid \<noteq> 0 then Inl (InvalidStreamId TAdminResponse sid)
      else map_sum id (\<lambda>(seq, text). AdminResponse seq text) (decode_admin_payload payload TAdminResponse))"

text \<open>
  \<^verbatim>\<open>Frame::decode\<close>. The header is a \<^verbatim>\<open>[u8; 10]\<close>: callers pass a list of length
  \<open>HEADER_LEN\<close>.
\<close>

definition decode :: "bytes \<Rightarrow> bytes \<Rightarrow> mux_error + frame" where
  "decode header payload =
     (case from_wire (header ! 0) of
        Inl e \<Rightarrow> Inl e
      | Inr ty \<Rightarrow>
          if header ! 1 \<noteq> 0 then Inl (InvalidFlags (header ! 1))
          else
            let sid = u32_from_be [header ! 2, header ! 3, header ! 4, header ! 5];
                len = u32_from_be [header ! 6, header ! 7, header ! 8, header ! 9]
            in if unat len \<noteq> length payload then Inl TruncatedFrame
               else decode_body ty sid len payload)"

text \<open>
  The reader: the bytes that still arrive, and how the input ends afterwards (end of input, or
  an I/O error). \<open>read_exact\<close> is \<^verbatim>\<open>AsyncReadExt::read_exact\<close>.
\<close>

datatype input_end = Eof | Fails io_kind string

type_synonym reader = "bytes \<times> input_end"

definition read_exact :: "nat \<Rightarrow> reader \<Rightarrow> (io_kind \<times> string) + (bytes \<times> reader)" where
  "read_exact n r =
     (if n \<le> length (fst r) then Inr (take n (fst r), (drop n (fst r), snd r))
      else Inl (case snd r of Eof \<Rightarrow> (UnexpectedEof, ''early eof'') | Fails k text \<Rightarrow> (k, text)))"

definition read_error :: "io_kind \<times> string \<Rightarrow> mux_error" where
  "read_error e = (if fst e = UnexpectedEof then TruncatedFrame else Io (fst e) (snd e))"

definition read_frame :: "reader \<Rightarrow> mux_error + (frame \<times> reader)" where
  "read_frame r =
     (case read_exact HEADER_LEN r of
        Inl e \<Rightarrow> Inl (read_error e)
      | Inr (header, r1) \<Rightarrow>
          let len = u32_from_be [header ! 6, header ! 7, header ! 8, header ! 9] in
          if MAX_FRAME_PAYLOAD < len then Inl (PayloadTooLong len)
          else
            case read_exact (unat len) r1 of
              Inl e \<Rightarrow> Inl (read_error e)
            | Inr (payload, r2) \<Rightarrow> map_sum id (\<lambda>f. (f, r2)) (decode header payload))"

text \<open>
  \<^verbatim>\<open>write_frame\<close>: what reaches the peer, given how the writer behaves (\<open>None\<close>: the write and
  the flush succeed).
\<close>

definition write_frame :: "(io_kind \<times> string) option \<Rightarrow> bytes \<Rightarrow> frame \<Rightarrow> mux_error + bytes" where
  "write_frame fault wire f =
     (case fault of None \<Rightarrow> Inr (wire @ encode f) | Some (k, text) \<Rightarrow> Inl (Io k text))"

section \<open>Well-formed frames\<close>

text \<open>
  What the types and the senders of a frame guarantee: its strings are valid UTF-8, its node
  ids are within the limit, and its length fits the header field.
\<close>

fun frame_strings :: "frame \<Rightarrow> string list" where
  "frame_strings (Register s) = [s]"
| "frame_strings (OpenStream _ s) = [s]"
| "frame_strings (Error _ _ s) = [s]"
| "frame_strings (Enroll s) = [s]"
| "frame_strings (EnrollResponse s) = [s]"
| "frame_strings (Presence s _) = [s]"
| "frame_strings (Watch s) = [s]"
| "frame_strings (AdminRequest _ s) = [s]"
| "frame_strings (AdminResponse _ s) = [s]"
| "frame_strings _ = []"

fun frame_node_id :: "frame \<Rightarrow> string" where
  "frame_node_id (Register s) = s"
| "frame_node_id (OpenStream _ s) = s"
| "frame_node_id (Presence s _) = s"
| "frame_node_id (Watch s) = s"
| "frame_node_id _ = []"

definition wf_frame :: "frame \<Rightarrow> bool" where
  "wf_frame f \<longleftrightarrow>
     list_all rust_string (frame_strings f) \<and>
     length (frame_node_id f) \<le> unat MAX_NODE_ID_LEN \<and>
     payload_len f < 2 ^ 32"

section \<open>Codec lemmas\<close>

lemma length_encode_payload [simp]: "length (encode_payload f) = payload_len f"
  by (cases f) simp_all

lemma length_encode_header [simp]: "length (encode_header f) = HEADER_LEN"
  by (simp add: encode_header_def HEADER_LEN_def)

lemma length_encode [simp]: "length (encode f) = HEADER_LEN + payload_len f"
  by (simp add: encode_def)

lemma from_wire_wire_value [simp]: "from_wire (wire_value t) = Inr t"
  by (cases t) (simp_all add: from_wire_def)

lemma from_wire_InrD: "from_wire v = Inr t \<Longrightarrow> wire_value t = v"
  by (auto simp: from_wire_def split: if_splits)

lemma list4_nth: "length xs = 4 \<Longrightarrow> [xs ! 0, xs ! 1, xs ! 2, xs ! 3] = xs"
  by (rule nth_equalityI) (auto simp: nth_Cons' less_Suc_eq numeral_eq_Suc)

lemma header_fields:
  "encode_header f ! 0 = wire_value (type_of_frame f)"
  "encode_header f ! 1 = 0" "encode_header f ! Suc 0 = 0"
  "[encode_header f ! 2, encode_header f ! 3, encode_header f ! 4, encode_header f ! 5]
     = u32_to_be (frame_stream_id f)"
  "[encode_header f ! 6, encode_header f ! 7, encode_header f ! 8, encode_header f ! 9]
     = u32_to_be (word_of_nat (payload_len f))"
  using list4_nth [of "u32_to_be (frame_stream_id f)"]
    list4_nth [of "u32_to_be (word_of_nat (payload_len f))"]
  by (simp_all add: encode_header_def nth_append)

lemma decode_encode_body:
  assumes "wf_frame f"
  shows "decode_body (type_of_frame f) (frame_stream_id f) (word_of_nat (payload_len f))
           (encode_payload f) = Inr f"
proof (cases f)
  case (Presence s b)
  then show ?thesis using assms
    by (simp add: wf_frame_def decode_text_def word_less_nat_alt unat_of_nat MAX_NODE_ID_LEN_def)
qed (use assms in \<open>simp_all add: wf_frame_def decode_text_def decode_node_id_def
      decode_admin_payload_def word_less_nat_alt unat_of_nat MAX_NODE_ID_LEN_def min_def\<close>)

lemma decode_encode:
  assumes "wf_frame f"
  shows "decode (encode_header f) (encode_payload f) = Inr f"
proof -
  have "unat (word_of_nat (payload_len f) :: u32) = payload_len f"
    using assms by (simp add: wf_frame_def unat_of_nat)
  then show ?thesis
    by (simp add: decode_def Let_def header_fields decode_encode_body [OF assms])
qed

lemma read_exact_append [simp]:
  "length bs = n \<Longrightarrow> read_exact n (bs @ cs, e) = Inr (bs, (cs, e))"
  by (auto simp: read_exact_def)

lemma read_exact_short [simp]:
  "length bs < n \<Longrightarrow> read_exact n (bs, Eof) = Inl (UnexpectedEof, ''early eof'')"
  by (simp add: read_exact_def)

definition wire_frame :: "frame \<Rightarrow> bool" where
  "wire_frame f \<longleftrightarrow> wf_frame f \<and> payload_len f \<le> unat MAX_FRAME_PAYLOAD"

lemma wire_frame_len:
  "wire_frame f \<Longrightarrow> \<not> MAX_FRAME_PAYLOAD < (word_of_nat (payload_len f) :: u32)"
  "wire_frame f \<Longrightarrow> unat (word_of_nat (payload_len f) :: u32) = payload_len f"
  by (simp_all add: wire_frame_def wf_frame_def word_less_nat_alt unat_of_nat)

lemma read_frame_encode:
  assumes "wire_frame f"
  shows "read_frame (encode f @ rest, e) = Inr (f, (rest, e))"
proof -
  have "wf_frame f" using assms by (simp add: wire_frame_def)
  then show ?thesis
    using wire_frame_len [OF assms]
    by (simp add: read_frame_def encode_def Let_def header_fields decode_encode)
qed

text \<open>Reading \<open>n\<close> frames one after another, as the reader loops do.\<close>

fun read_frames :: "nat \<Rightarrow> reader \<Rightarrow> mux_error + (frame list \<times> reader)" where
  "read_frames 0 r = Inr ([], r)"
| "read_frames (Suc n) r =
     (case read_frame r of
        Inl e \<Rightarrow> Inl e
      | Inr (f, r1) \<Rightarrow> map_sum id (\<lambda>(fs, r2). (f # fs, r2)) (read_frames n r1))"

lemma decode_text_InrD:
  "decode_text ty len bs build = Inr f \<Longrightarrow> \<exists>s. from_utf8 bs = Some s \<and> f = build s"
  by (auto simp: decode_text_def split: option.splits)

lemma decode_node_id_InrD:
  "decode_node_id ty len bs build = Inr f \<Longrightarrow>
     len \<le> MAX_NODE_ID_LEN \<and> (\<exists>s. from_utf8 bs = Some s \<and> f = build s)"
  by (auto simp: decode_node_id_def dest: decode_text_InrD split: if_splits)

lemma decode_admin_InrD:
  assumes "decode_admin_payload bs ty = Inr (seq, body)"
  shows "u64_to_be seq @ as_bytes body = bs \<and> rust_string body \<and> length bs = 8 + length body"
  using assms be_round_trip_back(3) [of "take 8 bs"]
  by (auto simp: decode_admin_payload_def dest!: from_utf8_SomeD split: if_splits option.splits)

text \<open>
  A decoded body re-encodes to the bytes it came from; the only exception is the online byte of
  \<open>Presence\<close>, which accepts any non-zero value and re-encodes as 1.
\<close>

definition canonical_payload :: "frame \<Rightarrow> bytes \<Rightarrow> bytes" where
  "canonical_payload f bs =
     (case f of Presence _ online \<Rightarrow> butlast bs @ [if online then 1 else 0] | _ \<Rightarrow> bs)"

lemma decode_text_canonical:
  assumes "decode_text ty len bs build = Inr f"
  obtains s where "f = build s" "as_bytes s = bs" "length s = length bs"
  using decode_text_InrD [OF assms] from_utf8_SomeD by blast

lemma decode_node_id_canonical:
  assumes "decode_node_id ty len bs build = Inr f"
  obtains s where "f = build s" "as_bytes s = bs" "length s = length bs"
  using decode_node_id_InrD [OF assms] from_utf8_SomeD by blast

lemma decode_body_canonical_text:
  assumes "decode_body ty sid len bs = Inr f"
    and "ty \<in> {TRegister, TWatch, TEnroll, TEnrollResponse, TOpenStream, TPresence}"
  shows "type_of_frame f = ty \<and> frame_stream_id f = sid \<and> payload_len f = length bs \<and>
         encode_payload f = canonical_payload f bs"
proof (cases ty)
  case TRegister
  with assms(1) have "sid = 0" "decode_node_id TRegister len bs Register = Inr f"
    by (simp_all split: if_splits)
  then show ?thesis using TRegister
    by (elim decode_node_id_canonical) (simp add: canonical_payload_def)
next
  case TWatch
  with assms(1) have "sid = 0" "decode_node_id TWatch len bs Watch = Inr f"
    by (simp_all split: if_splits)
  then show ?thesis using TWatch
    by (elim decode_node_id_canonical) (simp add: canonical_payload_def)
next
  case TEnroll
  with assms(1) have "sid = 0" "decode_text TEnroll len bs Enroll = Inr f"
    by (simp_all split: if_splits)
  then show ?thesis using TEnroll
    by (elim decode_text_canonical) (simp add: canonical_payload_def)
next
  case TEnrollResponse
  with assms(1) have "sid = 0" "decode_text TEnrollResponse len bs EnrollResponse = Inr f"
    by (simp_all split: if_splits)
  then show ?thesis using TEnrollResponse
    by (elim decode_text_canonical) (simp add: canonical_payload_def)
next
  case TOpenStream
  with assms(1) have "decode_node_id TOpenStream len bs (OpenStream sid) = Inr f"
    by simp
  then show ?thesis using TOpenStream
    by (elim decode_node_id_canonical) (simp add: canonical_payload_def)
next
  case TPresence
  with assms(1) have "sid = 0" "bs \<noteq> []"
    "decode_text TPresence len (butlast bs) (\<lambda>s. Presence s (last bs \<noteq> 0)) = Inr f"
    by (simp_all split: if_splits)
  then show ?thesis using TPresence
    by (elim decode_text_canonical) (simp add: canonical_payload_def)
qed (use assms(2) in simp_all)

lemma decode_body_canonical:
  assumes "decode_body ty sid len bs = Inr f" and "unat len = length bs"
  shows "type_of_frame f = ty \<and> frame_stream_id f = sid \<and> payload_len f = length bs \<and>
         encode_payload f = canonical_payload f bs"
proof (cases ty)
  case TWindow
  then show ?thesis using assms be_round_trip_back(3) [of bs]
    by (auto simp: canonical_payload_def split: if_splits)
next
  case TError
  then have two: "2 \<le> length bs" using assms(1) by (auto split: if_splits)
  then have b: "u16_to_be (u16_from_be (take 2 bs)) = take 2 bs"
    by (simp add: be_round_trip_back)
  from TError two assms(1) have "decode_text TError len (drop 2 bs)
      (Error sid (u16_from_be (take 2 bs))) = Inr f"
    by (simp add: min_absorb1 min_absorb2 split: if_splits)
  then show ?thesis using TError two b
    by (elim decode_text_canonical) (simp add: canonical_payload_def append_take_drop_id)
next
  case TAdminRequest
  with assms(1) obtain seq body where "decode_admin_payload bs TAdminRequest = Inr (seq, body)"
    and "sid = 0" "f = AdminRequest seq body"
    by (cases "decode_admin_payload bs TAdminRequest") (auto split: if_splits)
  then show ?thesis using TAdminRequest decode_admin_InrD [of bs TAdminRequest seq body]
    by (simp add: canonical_payload_def)
next
  case TAdminResponse
  with assms(1) obtain seq body where "decode_admin_payload bs TAdminResponse = Inr (seq, body)"
    and "sid = 0" "f = AdminResponse seq body"
    by (cases "decode_admin_payload bs TAdminResponse") (auto split: if_splits)
  then show ?thesis using TAdminResponse decode_admin_InrD [of bs TAdminResponse seq body]
    by (simp add: canonical_payload_def)
qed (use assms decode_body_canonical_text [OF assms(1)] in
      \<open>simp_all add: canonical_payload_def split: if_splits, auto\<close>)

lemma header_split:
  assumes "length h = 10"
  shows "h = [h ! 0, h ! 1] @ [h ! 2, h ! 3, h ! 4, h ! 5] @ [h ! 6, h ! 7, h ! 8, h ! 9]"
  using assms by (auto simp: numeral_eq_Suc length_Suc_conv)

lemma read_frames_append:
  "list_all wire_frame fs \<Longrightarrow>
     read_frames (length fs) (concat (map encode fs) @ rest, e) = Inr (fs, (rest, e))"
  by (induction fs) (simp_all add: read_frame_encode)

section \<open>Properties\<close>

text \<open>
  C1: any sequence of well-formed frames of at most \<open>MAX_FRAME_PAYLOAD\<close> bytes, written back to
  back onto a connection, is read back frame by frame, unchanged and in order, and the reader
  stops exactly at the byte after the last frame.
\<close>

theorem frame_stream_round_trip:
  assumes "list_all wire_frame fs"
  shows "read_frames (length fs) (concat (map encode fs) @ rest, e) = Inr (fs, (rest, e))"
  using assms by (rule read_frames_append)

theorem frame_stream_round_trip_witness:
  "list_all wire_frame [Data 3 [7, 8], Presence ''ab'' True] \<and>
   read_frames (length [Data 3 [7, 8], Presence ''ab'' True])
       (concat (map encode [Data 3 [7, 8], Presence ''ab'' True]) @ [9], Eof)
     = Inr ([Data 3 [7, 8], Presence ''ab'' True], ([9], Eof))"
proof -
  have h: "list_all wire_frame [Data 3 [7, 8], Presence ''ab'' True]"
    by (simp add: wire_frame_def wf_frame_def rust_string_def as_bytes_def MAX_NODE_ID_LEN_def
        MAX_FRAME_PAYLOAD_def)
  show ?thesis using h frame_stream_round_trip [OF h, of "[9]" Eof] by blast
qed

lemma canonical_payload_exact:
  assumes "decode_body ty sid len bs = Inr f" and "unat len = length bs"
  shows "canonical_payload f bs = bs \<or>
    (\<exists>node_id b. f = Presence node_id True \<and> bs = as_bytes node_id @ [b] \<and> b \<noteq> 0 \<and> b \<noteq> 1 \<and> canonical_payload f bs = as_bytes node_id @ [1])"
proof (cases f)
  case (Presence node_id online)
  have "ty = TPresence" using decode_body_canonical [OF assms] Presence by simp
  with assms(1) have ne: "bs \<noteq> []" and d: "decode_text TPresence len (butlast bs) (\<lambda>s. Presence s (last bs \<noteq> 0)) = Inr f"
    by (simp_all split: if_splits)
  from d obtain s where "f = Presence s (last bs \<noteq> 0)" "as_bytes s = butlast bs" by (rule decode_text_canonical)
  then have f: "online = (last bs \<noteq> 0)" "as_bytes node_id = butlast bs" using Presence by simp_all
  have bs: "bs = as_bytes node_id @ [last bs]" using ne by (simp add: f(2))
  have c: "canonical_payload f bs = as_bytes node_id @ [if last bs \<noteq> 0 then 1 else 0]"
    by (simp add: canonical_payload_def Presence f)
  show ?thesis
  proof (cases "last bs = 0 \<or> last bs = 1")
    case True
    then show ?thesis using c bs by auto
  next
    case False
    then show ?thesis using c bs Presence f(1) by auto
  qed
qed (simp_all add: canonical_payload_def)

text \<open>
  C2: decoding is strict. If \<^verbatim>\<open>Frame::decode\<close> accepts a header and a payload, then encoding the
  decoded frame gives back exactly those bytes, with a single exception: a \<open>Presence\<close> payload whose online
  byte is neither 0 nor 1 is accepted as online, and 1 is written in its place.
\<close>

theorem frame_decode_canonical:
  assumes "length header = HEADER_LEN" and "decode header payload = Inr f"
  shows "encode f = header @ payload \<or>
    (\<exists>node_id b. f = Presence node_id True \<and> payload = as_bytes node_id @ [b] \<and> b \<noteq> 0 \<and> b \<noteq> 1 \<and>
       encode f = header @ as_bytes node_id @ [1])"
proof -
  define sid where "sid = u32_from_be [header ! 2, header ! 3, header ! 4, header ! 5]"
  define len where "len = u32_from_be [header ! 6, header ! 7, header ! 8, header ! 9]"
  obtain ty where ty: "from_wire (header ! 0) = Inr ty"
    using assms(2) by (auto simp: decode_def split: sum.splits)
  with assms(2) have flags: "header ! 1 = 0" and len: "unat len = length payload"
    and body: "decode_body ty sid len payload = Inr f"
    by (auto simp: decode_def Let_def sid_def len_def split: if_splits)
  have f: "type_of_frame f = ty" "frame_stream_id f = sid" "payload_len f = length payload"
    "encode_payload f = canonical_payload f payload"
    using decode_body_canonical [OF body len] by auto
  have "encode_header f = header"
    using header_split [of header] assms(1) flags from_wire_InrD [OF ty] len
    by (simp add: encode_header_def f HEADER_LEN_def sid_def len_def be_round_trip_back flip: len)
  then have "encode f = header @ canonical_payload f payload" by (simp add: encode_def f)
  then show ?thesis using canonical_payload_exact [OF body len] by auto
qed

text \<open>A payload that comes back unchanged, and the exception.\<close>

theorem frame_decode_canonical_witness:
  "decode [13, 0, 0, 0, 0, 0, 0, 0, 0, 2] [97, 1] = Inr (Presence ''a'' True) \<and>
   encode (Presence ''a'' True) = [13, 0, 0, 0, 0, 0, 0, 0, 0, 2, 97, 1] \<and>
   decode [13, 0, 0, 0, 0, 0, 0, 0, 0, 2] [97, 5] = Inr (Presence ''a'' True)"
proof -
  have d: "decode [13, 0, 0, 0, 0, 0, 0, 0, 0, 2] [97, 1] = Inr (Presence ''a'' True)"
    "decode [13, 0, 0, 0, 0, 0, 0, 0, 0, 2] [97, 5] = Inr (Presence ''a'' True)"
    by code_simp+
  show ?thesis
    using d frame_decode_canonical [OF _ d(1)] by (auto simp: HEADER_LEN_def)
qed

text \<open>
  C3: a connection that ends inside a frame is always noticed. Every strict prefix of an encoded
  frame, followed by end of input, reads as \<open>TruncatedFrame\<close>.
\<close>

theorem frame_prefix_truncated:
  assumes "wire_frame f" and "k < length (encode f)"
  shows "read_frame (take k (encode f), Eof) = Inl TruncatedFrame"
proof (cases "k < HEADER_LEN")
  case True
  then show ?thesis by (simp add: read_frame_def read_error_def)
next
  case False
  then have "take k (encode f) = encode_header f @ take (k - HEADER_LEN) (encode_payload f)"
    by (simp add: encode_def)
  moreover have "length (take (k - HEADER_LEN) (encode_payload f)) < payload_len f"
    using assms(2) False by simp
  ultimately show ?thesis
    using wire_frame_len [OF assms(1)]
    by (simp add: read_frame_def Let_def header_fields read_error_def)
qed

theorem frame_prefix_truncated_witness:
  "read_frame (take 13 (encode (Data 3 [7, 8, 9, 10])), Eof) = Inl TruncatedFrame"
  using frame_prefix_truncated [of "Data 3 [7, 8, 9, 10]" 13]
  by (simp add: wire_frame_def wf_frame_def MAX_NODE_ID_LEN_def MAX_FRAME_PAYLOAD_def HEADER_LEN_def)

text \<open>
  C4: \<^verbatim>\<open>encode\<close> does not enforce the limit that \<^verbatim>\<open>read_frame\<close> does. An \<open>AdminResponse\<close> whose body
  is longer than \<open>MAX_FRAME_PAYLOAD\<close> minus the 8 bytes of its sequence number is encoded and sent,
  and every reader refuses it with \<open>PayloadTooLong\<close>, which ends the link.
\<close>

theorem admin_response_too_long:
  assumes "unat MAX_FRAME_PAYLOAD < 8 + length body" and "8 + length body < 2 ^ 32"
  shows "read_frame (encode (AdminResponse seq body) @ rest, e)
           = Inl (PayloadTooLong (word_of_nat (8 + length body)))"
  using assms header_fields(5) [of "AdminResponse seq body"]
  by (simp add: read_frame_def encode_def Let_def word_less_nat_alt unat_of_nat del: of_nat_add)

theorem admin_response_too_long_witness:
  "\<exists>body. length body = 16377 \<and>
     read_frame (encode (AdminResponse 0 body) @ [], Eof) = Inl (PayloadTooLong 16385)"
proof -
  obtain body :: string where len: "length body = 16377"
    by (rule that [OF length_replicate])
  then have "read_frame (encode (AdminResponse 0 body) @ [], Eof)
      = Inl (PayloadTooLong (word_of_nat (8 + length body)))"
    by (intro admin_response_too_long) (simp_all add: MAX_FRAME_PAYLOAD_def)
  then show ?thesis using len by auto
qed

end
