(* ===== verification/Mux_Stream.thy ===== *)
theory Mux_Stream
  imports Frame
begin

text \<open>
  One multiplexed stream, \<^verbatim>\<open>src/infra/relay_mux/stream.rs\<close>, and the connection-wide state it shares
  with the reader and writer loops (\<^verbatim>\<open>ConnectionShared\<close> of \<^verbatim>\<open>connection.rs\<close>). A stream is one \<open>cell\<close>:
  the state behind the \<^verbatim>\<open>Arc\<close>s that the \<^verbatim>\<open>MuxStream\<close> handle and its \<^verbatim>\<open>StreamEntry\<close> share, together with
  the handle's read buffer. Each operation is the body of one \<^verbatim>\<open>poll_\<close> function; a task that parks
  is the result \<open>Pending\<close>. Mutex poisoning (a panic while holding a lock) is not modelled.
\<close>

section \<open>State\<close>

datatype mux_mode = NodeToNode | RelayLink

record stream_state =
  peer_credit :: u64
  fin_sent :: bool
  consumed_accum :: u64
  write_waker :: "nat option"

record reset_error =
  reset_code :: u16
  reset_message :: string

record cell =
  ms_id :: u32
  ms_state :: stream_state
  ms_inbound :: "bytes chan"
  ms_tx_live :: bool
  ms_peer_fin :: bool
  ms_reset :: bool
  ms_reset_detail :: "reset_error option"
  ms_read_leftover :: bytes
  ms_read_offset :: nat

record shared =
  sh_outbound :: "frame chan"
  sh_outbound_waker :: "nat option"
  sh_dead :: bool
  sh_close_reason :: "close_reason option"
  sh_shutdown :: bool
  sh_role :: mux_role
  sh_mode :: mux_mode
  sh_next_local_id :: u32

datatype 'a poll = Ready 'a | Pending

text \<open>
  The I/O errors a stream returns: a reset by the relay (with the payload of the relay's error
  frame, if there was one) or a \<^verbatim>\<open>MuxError\<close> converted by \<open>mux_error_kind\<close>.
\<close>

datatype io_error =
    ResetByPeer io_kind u32 "reset_error option"
  | FromMux mux_error

fun io_error_kind :: "io_error \<Rightarrow> io_kind" where
  "io_error_kind (ResetByPeer k _ _) = k"
| "io_error_kind (FromMux e) = mux_error_kind e"

definition reset_by_peer_error :: "u32 \<Rightarrow> reset_error option \<Rightarrow> io_error" where
  "reset_by_peer_error sid detail = ResetByPeer ConnectionReset sid detail"

definition reset_by_peer_write_error :: "u32 \<Rightarrow> reset_error option \<Rightarrow> io_error" where
  "reset_by_peer_write_error sid detail = ResetByPeer BrokenPipe sid detail"

section \<open>Operations\<close>

definition stream_new :: "u32 \<Rightarrow> cell" where
  "stream_new sid =
     \<lparr>ms_id = sid,
      ms_state = \<lparr>peer_credit = DEFAULT_STREAM_WINDOW, fin_sent = False, consumed_accum = 0,
                  write_waker = None\<rparr>,
      ms_inbound = chan_new INBOUND_CHUNK_QUEUE,
      ms_tx_live = True, ms_peer_fin = False, ms_reset = False, ms_reset_detail = None,
      ms_read_leftover = [], ms_read_offset = 0\<rparr>"

definition shared_new :: "mux_role \<Rightarrow> mux_mode \<Rightarrow> shared" where
  "shared_new role mode =
     \<lparr>sh_outbound = chan_new OUTBOUND_QUEUE, sh_outbound_waker = None, sh_dead = False,
      sh_close_reason = None, sh_shutdown = False, sh_role = role, sh_mode = mode,
      sh_next_local_id = first_stream_id role\<rparr>"

definition dead_reason :: "shared \<Rightarrow> close_reason" where
  "dead_reason sh = (case sh_close_reason sh of Some r \<Rightarrow> r | None \<Rightarrow> GenericClosed)"

definition connection_dead_error :: "shared \<Rightarrow> io_error" where
  "connection_dead_error sh = FromMux (ConnectionClosed (dead_reason sh))"

definition set_consumed :: "u64 \<Rightarrow> cell \<Rightarrow> cell" where
  "set_consumed n s = s\<lparr>ms_state := (ms_state s)\<lparr>consumed_accum := n\<rparr>\<rparr>"

definition account_consumed :: "u64 \<Rightarrow> cell \<Rightarrow> shared \<Rightarrow> cell \<times> shared" where
  "account_consumed consumed s sh =
     (let acc = consumed_accum (ms_state s) + consumed in
      if acc < WINDOW_GRANT_THRESHOLD then (set_consumed acc s, sh)
      else
        case chan_try_send (Window (ms_id s) acc) (sh_outbound sh) of
          (out, SendOk) \<Rightarrow> (set_consumed 0 s, sh\<lparr>sh_outbound := out\<rparr>)
        | (_, SendFull) \<Rightarrow> (set_consumed (0 + acc) s, sh)
        | (_, SendClosed) \<Rightarrow> (set_consumed 0 s, sh))"

definition park_outbound :: "nat \<Rightarrow> shared \<Rightarrow> shared" where
  "park_outbound waker sh = sh\<lparr>sh_outbound_waker := Some waker\<rparr>"

text \<open>
  \<^verbatim>\<open>poll_read\<close> with \<open>remaining\<close> bytes of room in the caller's buffer; the result is what is put
  there. The receiver side of the inbound channel yields a chunk, nothing yet, or the end once the
  sender half is dropped.
\<close>

definition poll_read :: "nat \<Rightarrow> cell \<Rightarrow> shared \<Rightarrow> (io_error + bytes) poll \<times> cell \<times> shared" where
  "poll_read remaining s sh =
     (if remaining = 0 then (Ready (Inr []), s, sh)
      else if ms_read_offset s < length (ms_read_leftover s) then
        let end' = min (ms_read_offset s + remaining) (length (ms_read_leftover s)) in
        (Ready (Inr (take (end' - ms_read_offset s) (drop (ms_read_offset s) (ms_read_leftover s)))),
         s\<lparr>ms_read_offset := end'\<rparr>, sh)
      else
        case chan_recv (ms_inbound s) of
          Some (chunk, inbound) \<Rightarrow>
            let n = min remaining (length chunk);
                s1 = s\<lparr>ms_inbound := inbound\<rparr>;
                s2 = (if n < length chunk
                      then s1\<lparr>ms_read_leftover := chunk, ms_read_offset := n\<rparr> else s1);
                (s3, sh') = account_consumed (word_of_nat n) s2 sh
            in (Ready (Inr (take n chunk)), s3, sh')
        | None \<Rightarrow>
            if ms_tx_live s then
              (if ms_peer_fin s then Ready (Inr []) else Pending, s, sh)
            else if ms_reset s then
              (Ready (Inl (reset_by_peer_error (ms_id s) (ms_reset_detail s))), s, sh)
            else if sh_dead sh then (Ready (Inl (connection_dead_error sh)), s, sh)
            else (Ready (Inr []), s, sh))"

definition set_credit :: "u64 \<Rightarrow> cell \<Rightarrow> cell" where
  "set_credit n s = s\<lparr>ms_state := (ms_state s)\<lparr>peer_credit := n\<rparr>\<rparr>"

definition set_write_waker :: "nat option \<Rightarrow> cell \<Rightarrow> cell" where
  "set_write_waker w s = s\<lparr>ms_state := (ms_state s)\<lparr>write_waker := w\<rparr>\<rparr>"

definition set_fin_sent :: "cell \<Rightarrow> cell" where
  "set_fin_sent s = s\<lparr>ms_state := (ms_state s)\<lparr>fin_sent := True\<rparr>\<rparr>"

definition poll_write ::
  "nat \<Rightarrow> bytes \<Rightarrow> cell \<Rightarrow> shared \<Rightarrow> (io_error + nat) poll \<times> cell \<times> shared" where
  "poll_write waker buf s sh =
     (if buf = [] then (Ready (Inr 0), s, sh)
      else if ms_reset s then
        (Ready (Inl (reset_by_peer_write_error (ms_id s) (ms_reset_detail s))), s, sh)
      else if sh_dead sh then (Ready (Inl (connection_dead_error sh)), s, sh)
      else if fin_sent (ms_state s) then (Ready (Inl (FromMux (StreamClosed (ms_id s)))), s, sh)
      else if peer_credit (ms_state s) = 0 then (Pending, set_write_waker (Some waker) s, sh)
      else
        let n = min (min (length buf) (unat MAX_FRAME_PAYLOAD)) (unat (peer_credit (ms_state s))) in
        case chan_try_send (Data (ms_id s) (take n buf)) (sh_outbound sh) of
          (out, SendOk) \<Rightarrow>
            (Ready (Inr n), set_credit (peer_credit (ms_state s) - word_of_nat n) s,
             sh\<lparr>sh_outbound := out\<rparr>)
        | (_, SendFull) \<Rightarrow> (Pending, s, park_outbound waker sh)
        | (_, SendClosed) \<Rightarrow> (Ready (Inl (connection_dead_error sh)), s, sh))"

definition poll_shutdown :: "nat \<Rightarrow> cell \<Rightarrow> shared \<Rightarrow> (io_error + unit) poll \<times> cell \<times> shared" where
  "poll_shutdown waker s sh =
     (if fin_sent (ms_state s) then (Ready (Inr ()), s, sh)
      else if sh_dead sh then (Ready (Inl (connection_dead_error sh)), s, sh)
      else
        case chan_try_send (Close (ms_id s)) (sh_outbound sh) of
          (out, SendOk) \<Rightarrow> (Ready (Inr ()), set_fin_sent s, sh\<lparr>sh_outbound := out\<rparr>)
        | (_, SendFull) \<Rightarrow> (Pending, s, park_outbound waker sh)
        | (_, SendClosed) \<Rightarrow> (Ready (Inl (connection_dead_error sh)), set_fin_sent s, sh))"

definition poll_flush :: "cell \<Rightarrow> shared \<Rightarrow> (io_error + unit) poll \<times> cell \<times> shared" where
  "poll_flush s sh = (Ready (Inr ()), s, sh)"

text \<open>
  What the reader loop does to a stream: queue a data chunk (the sending half of the inbound
  channel), and add a window grant with \<^verbatim>\<open>checked_add\<close> (\<open>None\<close> on overflow), taking the waker of a
  parked writer.
\<close>

definition deliver :: "bytes \<Rightarrow> cell \<Rightarrow> cell \<times> send_result" where
  "deliver payload s =
     (case chan_try_send payload (ms_inbound s) of (ib, r) \<Rightarrow> (s\<lparr>ms_inbound := ib\<rparr>, r))"

definition checked_add_u64 :: "u64 \<Rightarrow> u64 \<Rightarrow> u64 option" where
  "checked_add_u64 a b = (if unat a + unat b < 2 ^ 64 then Some (a + b) else None)"

definition grant_credit :: "u64 \<Rightarrow> cell \<Rightarrow> (cell \<times> nat option) option" where
  "grant_credit credit s =
     (case checked_add_u64 (peer_credit (ms_state s)) credit of
        None \<Rightarrow> None
      | Some credit' \<Rightarrow> Some (set_write_waker None (set_credit credit' s), write_waker (ms_state s)))"

section \<open>Lemmas\<close>

lemmas cell_setters = set_consumed_def set_credit_def set_write_waker_def set_fin_sent_def

lemma set_consumed_simps [simp]:
  "ms_inbound (set_consumed n s) = ms_inbound s" "ms_read_leftover (set_consumed n s) = ms_read_leftover s"
  "ms_read_offset (set_consumed n s) = ms_read_offset s" "ms_id (set_consumed n s) = ms_id s"
  "consumed_accum (ms_state (set_consumed n s)) = n"
  "peer_credit (ms_state (set_consumed n s)) = peer_credit (ms_state s)"
  "fin_sent (ms_state (set_consumed n s)) = fin_sent (ms_state s)"
  "ms_reset (set_consumed n s) = ms_reset s" "ms_tx_live (set_consumed n s) = ms_tx_live s"
  "ms_peer_fin (set_consumed n s) = ms_peer_fin s"
  by (simp_all add: set_consumed_def)

lemma account_consumed_cases [case_names Below Granted Deferred Dead]:
  obtains
    "consumed_accum (ms_state s) + k < WINDOW_GRANT_THRESHOLD"
    "account_consumed k s sh = (set_consumed (consumed_accum (ms_state s) + k) s, sh)"
  | "WINDOW_GRANT_THRESHOLD \<le> consumed_accum (ms_state s) + k" "chan_rx_open (sh_outbound sh)"
    "account_consumed k s sh =
       (set_consumed 0 s,
        sh\<lparr>sh_outbound := (sh_outbound sh)\<lparr>chan_queue := chan_queue (sh_outbound sh)
             @ [Window (ms_id s) (consumed_accum (ms_state s) + k)]\<rparr>\<rparr>)"
  | "WINDOW_GRANT_THRESHOLD \<le> consumed_accum (ms_state s) + k" "chan_rx_open (sh_outbound sh)"
    "account_consumed k s sh = (set_consumed (consumed_accum (ms_state s) + k) s, sh)"
  | "WINDOW_GRANT_THRESHOLD \<le> consumed_accum (ms_state s) + k" "\<not> chan_rx_open (sh_outbound sh)"
    "account_consumed k s sh = (set_consumed 0 s, sh)"
proof (cases "consumed_accum (ms_state s) + k < WINDOW_GRANT_THRESHOLD")
  case True
  then show ?thesis using that(1) by (simp add: account_consumed_def)
next
  case False
  then show ?thesis
    using that(2-4)
    by (cases rule: chan_try_send_cases [of "sh_outbound sh"
          "Window (ms_id s) (consumed_accum (ms_state s) + k)"])
      (simp_all add: account_consumed_def Let_def)
qed

definition unread :: "cell \<Rightarrow> bytes" where
  "unread s = drop (ms_read_offset s) (ms_read_leftover s) @ concat (chan_queue (ms_inbound s))"

definition read_ok :: "cell \<Rightarrow> bool" where
  "read_ok s \<longleftrightarrow> ms_read_offset s \<le> length (ms_read_leftover s) \<and> chan_ok (ms_inbound s)"

lemma unread_set_consumed [simp]: "unread (set_consumed n s) = unread s"
  by (simp add: unread_def)

lemma account_consumed_unread:
  assumes "account_consumed k s sh = (s', sh')"
  shows "unread s' = unread s \<and> read_ok s' = read_ok s"
  using assms by (cases rule: account_consumed_cases [of s k sh]) (auto simp: read_ok_def)

text \<open>The three ways \<open>poll_read\<close> can go.\<close>

lemma poll_read_leftover:
  assumes "0 < n" "ms_read_offset s < length (ms_read_leftover s)"
  shows "poll_read n s sh =
    (Ready (Inr (take n (drop (ms_read_offset s) (ms_read_leftover s)))),
     s\<lparr>ms_read_offset := min (ms_read_offset s + n) (length (ms_read_leftover s))\<rparr>, sh)"
  using assms by (auto simp: poll_read_def Let_def min_def)

lemma poll_read_chunk:
  assumes "0 < n" "\<not> ms_read_offset s < length (ms_read_leftover s)"
    "chan_queue (ms_inbound s) = chunk # chunks"
  shows "poll_read n s sh =
    (let s1 = s\<lparr>ms_inbound := (ms_inbound s)\<lparr>chan_queue := chunks\<rparr>\<rparr>;
         s2 = (if n < length chunk then s1\<lparr>ms_read_leftover := chunk, ms_read_offset := n\<rparr> else s1);
         (s3, sh') = account_consumed (word_of_nat (min n (length chunk))) s2 sh
     in (Ready (Inr (take n chunk)), s3, sh'))"
  using assms by (auto simp: poll_read_def Let_def chan_recv_def min_def split: prod.splits)

lemma poll_read_empty:
  assumes "0 < n" "\<not> ms_read_offset s < length (ms_read_leftover s)" "chan_queue (ms_inbound s) = []"
  shows "fst (snd (poll_read n s sh)) = s" "snd (snd (poll_read n s sh)) = sh"
    "fst (poll_read n s sh) = Ready (Inr bs) \<Longrightarrow> bs = [] \<and> (ms_peer_fin s \<or> \<not> ms_tx_live s)"
  using assms by (auto simp: poll_read_def Let_def chan_recv_def split: if_splits)

lemma poll_read_unread:
  assumes "poll_read n s sh = (Ready (Inr bs), s', sh')"
  shows "unread s = bs @ unread s' \<and> length bs \<le> n \<and> (read_ok s \<longrightarrow> read_ok s')"
proof (cases "n = 0")
  case True
  then show ?thesis using assms by (simp add: poll_read_def)
next
  case n: False
  show ?thesis
  proof (cases "ms_read_offset s < length (ms_read_leftover s)")
    case True
    have vals: "bs = take n (drop (ms_read_offset s) (ms_read_leftover s))"
      "s' = s\<lparr>ms_read_offset := min (ms_read_offset s + n) (length (ms_read_leftover s))\<rparr>"
      using assms True n by (simp_all add: poll_read_leftover)
    have "unread s = take n (drop (ms_read_offset s) (ms_read_leftover s)) @
        drop (min (ms_read_offset s + n) (length (ms_read_leftover s))) (ms_read_leftover s) @
        concat (chan_queue (ms_inbound s))"
      by (simp add: unread_def min_def add.commute flip: drop_drop)
    then show ?thesis by (simp add: vals unread_def [of "s\<lparr>ms_read_offset := _\<rparr>"] read_ok_def)
  next
    case lo: False
    show ?thesis
    proof (cases "chan_queue (ms_inbound s)")
      case Nil
      then show ?thesis using assms n lo poll_read_empty(1,2) [of n s sh] poll_read_empty(3) [of n s sh bs] by simp
    next
      case (Cons chunk chunks)
      define s2 where "s2 = (let s1 = s\<lparr>ms_inbound := (ms_inbound s)\<lparr>chan_queue := chunks\<rparr>\<rparr> in
        if n < length chunk then s1\<lparr>ms_read_leftover := chunk, ms_read_offset := n\<rparr> else s1)"
      have "account_consumed (word_of_nat (min n (length chunk))) s2 sh = (s', sh')"
        and bs: "bs = take n chunk"
        using assms n lo Cons by (auto simp: poll_read_chunk s2_def Let_def split: prod.splits)
      then have "unread s' = unread s2" "read_ok s' = read_ok s2"
        by (simp_all add: account_consumed_unread)
      then show ?thesis
        using lo Cons bs
        by (auto simp: unread_def read_ok_def s2_def Let_def chan_ok_def)
    qed
  qed
qed

lemma poll_read_step:
  "read_ok s \<Longrightarrow> poll_read n s sh = (Ready (Inr bs), s', sh') \<Longrightarrow>
    unread s = bs @ unread s' \<and> length bs \<le> n \<and> read_ok s'"
  using poll_read_unread by blast

lemma deliver_unread:
  "deliver p s = (s', SendOk) \<Longrightarrow> unread s' = unread s @ p"
  "deliver p s = (s', r) \<Longrightarrow> r \<noteq> SendOk \<Longrightarrow> s' = s"
  "deliver p s = (s', r) \<Longrightarrow> read_ok s \<Longrightarrow> read_ok s'"
  by (cases rule: chan_try_send_cases [of "ms_inbound s" p];
      auto simp: deliver_def unread_def read_ok_def chan_ok_def)+

lemma poll_read_other:
  assumes "poll_read n s sh = (r, s', sh')" "\<And>bs. r \<noteq> Ready (Inr bs)"
  shows "s' = s \<and> sh' = sh"
  using assms
  by (auto simp: poll_read_def Let_def split: if_splits option.splits prod.splits)

text \<open>
  A stream seen by its two users: the reader loop delivers chunks, the application reads. The run
  returns the accepted bytes and the bytes the application got.
\<close>

datatype rd_event = Deliver bytes | Read nat

fun read_run :: "rd_event list \<Rightarrow> cell \<Rightarrow> shared \<Rightarrow> bytes \<times> bytes \<times> cell \<times> shared" where
  "read_run [] s sh = ([], [], s, sh)"
| "read_run (Deliver p # evs) s sh =
     (case deliver p s of (s1, r) \<Rightarrow>
        case read_run evs s1 sh of (acc, got, s2, sh2) \<Rightarrow>
          ((if r = SendOk then p else []) @ acc, got, s2, sh2))"
| "read_run (Read n # evs) s sh =
     (case poll_read n s sh of (r, s1, sh1) \<Rightarrow>
        case read_run evs s1 sh1 of (acc, got, s2, sh2) \<Rightarrow>
          (acc, (case r of Ready (Inr bs) \<Rightarrow> bs | _ \<Rightarrow> []) @ got, s2, sh2))"

lemma read_run_fifo:
  assumes "read_ok s" "read_run evs s sh = (acc, got, s', sh')"
  shows "unread s @ acc = got @ unread s' \<and> read_ok s'"
  using assms
proof (induction evs s sh arbitrary: acc got rule: read_run.induct)
  case (2 p evs s sh)
  obtain s1 r where d: "deliver p s = (s1, r)" by fastforce
  obtain acc1 got1 where rr: "read_run evs s1 sh = (acc1, got1, s', sh')"
    and eqs: "acc = (if r = SendOk then p else []) @ acc1" "got = got1"
    using "2.prems"(2) d by (auto split: prod.splits)
  have "read_ok s1" using deliver_unread(3) [OF d] "2.prems"(1) by simp
  then have IH: "unread s1 @ acc1 = got1 @ unread s' \<and> read_ok s'"
    using "2.IH" d rr by auto
  show ?case
  proof (cases "r = SendOk")
    case True
    then show ?thesis using IH eqs deliver_unread(1) d by auto
  next
    case False
    then have "s1 = s" using deliver_unread(2) d by auto
    then show ?thesis using IH eqs False by simp
  qed
next
  case (3 n evs s sh)
  obtain r s1 sh1 where p: "poll_read n s sh = (r, s1, sh1)" by (cases "poll_read n s sh")
  obtain acc1 got1 where rr: "read_run evs s1 sh1 = (acc1, got1, s', sh')"
    and eqs: "acc = acc1" "got = (case r of Ready (Inr bs) \<Rightarrow> bs | _ \<Rightarrow> []) @ got1"
    using "3.prems"(2) p by (auto split: prod.splits)
  show ?case
  proof (cases "\<exists>bs. r = Ready (Inr bs)")
    case True
    then obtain bs where r: "r = Ready (Inr bs)" by blast
    then have "unread s = bs @ unread s1" "read_ok s1"
      using poll_read_step "3.prems"(1) p by blast+
    then show ?thesis using "3.IH" [OF p [symmetric]] rr eqs r by auto
  next
    case False
    then have "s1 = s" "sh1 = sh" using poll_read_other [OF p] by auto
    moreover have "got = got1" using False eqs by (auto split: poll.splits sum.splits)
    ultimately show ?thesis using "3.IH" [OF p [symmetric]] rr eqs "3.prems"(1) by auto
  qed
qed simp

section \<open>Properties\<close>

text \<open>
  C5: a stream is a reliable FIFO byte queue. In any interleaving of the reader loop delivering data
  and the application reading with buffers of any size, from a new stream, the accepted bytes
  are exactly the bytes the application has read followed by the bytes still buffered: nothing is
  lost, duplicated or reordered.
\<close>

theorem stream_reads_fifo:
  assumes "read_run evs (stream_new sid) sh = (accepted, got, s', sh')"
  shows "accepted = got @ unread s'"
  using read_run_fifo [OF _ assms]
  by (simp add: unread_def read_ok_def chan_ok_def stream_new_def)

theorem stream_reads_fifo_witness:
  "\<exists>s' sh'. read_run [Deliver [1, 2, 3], Read 2, Deliver [4], Read 8] (stream_new 1)
         (shared_new Client NodeToNode) = ([1, 2, 3, 4], [1, 2, 3], s', sh') \<and>
       [1, 2, 3, 4] = [1, 2, 3] @ unread s'"
proof -
  obtain acc got s' sh' where r: "read_run [Deliver [1, 2, 3], Read 2, Deliver [4], Read 8]
      (stream_new 1) (shared_new Client NodeToNode) = (acc, got, s', sh')"
    by (cases "read_run [Deliver [1, 2, 3], Read 2, Deliver [4], Read 8] (stream_new 1)
         (shared_new Client NodeToNode)")
  have "fst (read_run [Deliver [1, 2, 3], Read 2, Deliver [4], Read 8]
      (stream_new 1) (shared_new Client NodeToNode)) = [1, 2, 3, 4]"
    and "fst (snd (read_run [Deliver [1, 2, 3], Read 2, Deliver [4], Read 8]
      (stream_new 1) (shared_new Client NodeToNode))) = [1, 2, 3]"
    by code_simp+
  then show ?thesis using r stream_reads_fifo [OF r] by auto
qed

text \<open>
  The application's side of a stream as a sequence of polls, and the frames it adds to the outbound
  queue.
\<close>

datatype app_op = AppRead nat | AppWrite nat bytes | AppShutdown nat

fun app_step :: "app_op \<Rightarrow> cell \<Rightarrow> shared \<Rightarrow> cell \<times> shared" where
  "app_step (AppRead n) s sh = snd (poll_read n s sh)"
| "app_step (AppWrite w buf) s sh = snd (poll_write w buf s sh)"
| "app_step (AppShutdown w) s sh = snd (poll_shutdown w s sh)"

fun app_run :: "app_op list \<Rightarrow> cell \<Rightarrow> shared \<Rightarrow> cell \<times> shared" where
  "app_run [] s sh = (s, sh)"
| "app_run (x # xs) s sh = (case app_step x s sh of (s1, sh1) \<Rightarrow> app_run xs s1 sh1)"

fun is_window :: "frame \<Rightarrow> bool" where
  "is_window (Window _ _) = True"
| "is_window _ = False"

fun data_bytes :: "frame \<Rightarrow> nat" where
  "data_bytes (Data _ p) = length p"
| "data_bytes _ = 0"

abbreviation out_frames :: "shared \<Rightarrow> frame list" where
  "out_frames sh \<equiv> chan_queue (sh_outbound sh)"

lemma cell_setter_simps [simp]:
  "ms_id (set_credit c s) = ms_id s" "ms_id (set_write_waker w s) = ms_id s"
  "ms_id (set_fin_sent s) = ms_id s"
  "peer_credit (ms_state (set_credit c s)) = c"
  "peer_credit (ms_state (set_write_waker w s)) = peer_credit (ms_state s)"
  "peer_credit (ms_state (set_fin_sent s)) = peer_credit (ms_state s)"
  "fin_sent (ms_state (set_credit c s)) = fin_sent (ms_state s)"
  "fin_sent (ms_state (set_write_waker w s)) = fin_sent (ms_state s)"
  "fin_sent (ms_state (set_fin_sent s))"
  "consumed_accum (ms_state (set_credit c s)) = consumed_accum (ms_state s)"
  "consumed_accum (ms_state (set_write_waker w s)) = consumed_accum (ms_state s)"
  "consumed_accum (ms_state (set_fin_sent s)) = consumed_accum (ms_state s)"
  by (simp_all add: cell_setters)

lemma account_consumed_frames:
  assumes "account_consumed k s sh = (s', sh')"
  shows "ms_id s' = ms_id s \<and> peer_credit (ms_state s') = peer_credit (ms_state s) \<and>
    fin_sent (ms_state s') = fin_sent (ms_state s) \<and>
    (\<exists>ws. out_frames sh' = out_frames sh @ ws \<and> list_all is_window ws)"
  using assms by (cases rule: account_consumed_cases [of s k sh]) auto

lemma poll_read_frames:
  assumes "poll_read n s sh = (r, s', sh')"
  shows "ms_id s' = ms_id s \<and> peer_credit (ms_state s') = peer_credit (ms_state s) \<and>
    fin_sent (ms_state s') = fin_sent (ms_state s) \<and>
    (\<exists>ws. out_frames sh' = out_frames sh @ ws \<and> list_all is_window ws)"
  using assms
  by (auto simp: poll_read_def Let_def dest: account_consumed_frames
      split: if_splits option.splits prod.splits)

lemma poll_write_cases [case_names Quiet Sent]:
  assumes "poll_write w buf s sh = (r, s', sh')"
  obtains "ms_id s' = ms_id s" "ms_state s' = ms_state s \<or> s' = set_write_waker (Some w) s"
      "sh_outbound sh' = sh_outbound sh" "\<And>n. r = Ready (Inr n) \<Longrightarrow> n = 0 \<and> buf = []"
  | n where "r = Ready (Inr n)" "0 < n" "n \<le> length buf" "n \<le> unat MAX_FRAME_PAYLOAD"
      "n \<le> unat (peer_credit (ms_state s))" "\<not> fin_sent (ms_state s)" "\<not> ms_reset s" "\<not> sh_dead sh"
      "s' = set_credit (peer_credit (ms_state s) - word_of_nat n) s"
      "sh' = sh\<lparr>sh_outbound := (sh_outbound sh)\<lparr>chan_queue := out_frames sh
         @ [Data (ms_id s) (take n buf)]\<rparr>\<rparr>"
proof (cases "buf = [] \<or> ms_reset s \<or> sh_dead sh \<or> fin_sent (ms_state s) \<or>
      peer_credit (ms_state s) = 0")
  case True
  then show ?thesis using that(1) assms by (auto simp: poll_write_def split: if_splits)
next
  case False
  define n where "n = min (min (length buf) (unat MAX_FRAME_PAYLOAD)) (unat (peer_credit (ms_state s)))"
  have pos: "0 < n"
    using False by (auto simp: n_def MAX_FRAME_PAYLOAD_def unat_gt_0)
  have pw: "poll_write w buf s sh = (case chan_try_send (Data (ms_id s) (take n buf)) (sh_outbound sh) of
          (out, SendOk) \<Rightarrow>
            (Ready (Inr n), set_credit (peer_credit (ms_state s) - word_of_nat n) s,
             sh\<lparr>sh_outbound := out\<rparr>)
        | (_, SendFull) \<Rightarrow> (Pending, s, park_outbound w sh)
        | (_, SendClosed) \<Rightarrow> (Ready (Inl (connection_dead_error sh)), s, sh))"
    using False unfolding poll_write_def n_def by (simp add: Let_def)
  show ?thesis
  proof (cases rule: chan_try_send_cases [of "sh_outbound sh" "Data (ms_id s) (take n buf)"])
    case Ok
    then show ?thesis using that(2) [of n] pw assms pos False by (auto simp: n_def)
  next
    case Full
    then show ?thesis using that(1) pw assms by (auto simp: park_outbound_def)
  next
    case Closed
    then show ?thesis using that(1) pw assms by auto
  qed
qed

abbreviation leg_frames :: "frame list \<Rightarrow> frame list" where
  "leg_frames fs \<equiv> filter (\<lambda>f. \<not> is_window f) fs"

definition data_frame_of :: "u32 \<Rightarrow> frame \<Rightarrow> bool" where
  "data_frame_of sid f \<longleftrightarrow> (\<exists>p. f = Data sid p \<and> p \<noteq> [] \<and> length p \<le> unat MAX_FRAME_PAYLOAD)"

text \<open>
  What a stretch of the application's polls does to the write leg: it appends data frames, then at
  most one \<open>Close\<close>; the credit spent is the number of bytes sent; a closed leg adds nothing.
\<close>

definition write_leg :: "cell \<Rightarrow> shared \<Rightarrow> cell \<Rightarrow> shared \<Rightarrow> bool" where
  "write_leg s sh s' sh' \<longleftrightarrow>
     ms_id s' = ms_id s \<and>
     (\<exists>fs ds cs. out_frames sh' = out_frames sh @ fs \<and> leg_frames fs = ds @ cs \<and>
        list_all (data_frame_of (ms_id s)) ds \<and>
        (cs = [] \<or> cs = [Close (ms_id s)] \<and> fin_sent (ms_state s')) \<and>
        (fin_sent (ms_state s) \<longrightarrow> ds = [] \<and> cs = [] \<and> fin_sent (ms_state s')) \<and>
        unat (peer_credit (ms_state s')) + sum_list (map data_bytes ds)
          = unat (peer_credit (ms_state s)))"

lemma write_legI:
  assumes "ms_id s' = ms_id s" "out_frames sh' = out_frames sh @ fs" "leg_frames fs = ds @ cs"
    "list_all (data_frame_of (ms_id s)) ds"
    "cs = [] \<or> cs = [Close (ms_id s)] \<and> fin_sent (ms_state s')"
    "fin_sent (ms_state s) \<Longrightarrow> ds = [] \<and> cs = [] \<and> fin_sent (ms_state s')"
    "unat (peer_credit (ms_state s')) + sum_list (map data_bytes ds) = unat (peer_credit (ms_state s))"
  shows "write_leg s sh s' sh'"
  using assms unfolding write_leg_def by blast

lemma leg_frames_windows: "list_all is_window ws \<Longrightarrow> leg_frames ws = []"
  by (induction ws) auto

lemma write_leg_quiet:
  assumes "ms_id s' = ms_id s" "out_frames sh' = out_frames sh @ ws" "list_all is_window ws"
    "fin_sent (ms_state s) \<Longrightarrow> fin_sent (ms_state s')"
    "peer_credit (ms_state s') = peer_credit (ms_state s)"
  shows "write_leg s sh s' sh'"
  using assms leg_frames_windows [OF assms(3)] by (intro write_legI [where fs = ws and ds = "[]" and cs = "[]"]) auto

lemma poll_write_leg:
  assumes "poll_write w buf s sh = (r, s', sh')"
  shows "write_leg s sh s' sh'"
  using assms
proof (cases rule: poll_write_cases)
  case Quiet
  then show ?thesis by (intro write_leg_quiet [where ws = "[]"]) auto
next
  case (Sent n)
  have "unat (peer_credit (ms_state s) - word_of_nat n) + n = unat (peer_credit (ms_state s))"
  proof -
    have n: "unat (word_of_nat n :: u64) = n"
      using Sent(5) unsigned_less [where ?'a = nat, of "peer_credit (ms_state s)"]
      by (simp add: unat_of_nat)
    then have "word_of_nat n \<le> peer_credit (ms_state s)"
      using Sent(5) by (simp add: word_le_nat_alt)
    then show ?thesis using n Sent(5) by (simp add: unat_sub)
  qed
  then show ?thesis using Sent
    by (intro write_legI [where fs = "[Data (ms_id s) (take n buf)]" and ds = "[Data (ms_id s) (take n buf)]"
            and cs = "[]"]) (auto simp: data_frame_of_def)
qed

lemma poll_shutdown_leg:
  assumes "poll_shutdown w s sh = (r, s', sh')"
  shows "write_leg s sh s' sh'"
proof (cases "fin_sent (ms_state s) \<or> sh_dead sh")
  case True
  then have "s' = s" "sh' = sh" using assms by (auto simp: poll_shutdown_def split: if_splits)
  then show ?thesis by (intro write_leg_quiet [where ws = "[]"]) auto
next
  case False
  show ?thesis
  proof (cases rule: chan_try_send_cases [of "sh_outbound sh" "Close (ms_id s)"])
    case Ok
    then show ?thesis using False assms
      by (intro write_legI [where fs = "[Close (ms_id s)]" and ds = "[]" and cs = "[Close (ms_id s)]"])
        (auto simp: poll_shutdown_def)
  next
    case Full
    then show ?thesis using False assms
      by (intro write_leg_quiet [where ws = "[]"]) (auto simp: poll_shutdown_def park_outbound_def)
  next
    case Closed
    then show ?thesis using False assms
      by (intro write_leg_quiet [where ws = "[]"]) (auto simp: poll_shutdown_def)
  qed
qed

lemma app_step_leg:
  assumes "app_step x s sh = (s', sh')"
  shows "write_leg s sh s' sh'"
proof (cases x)
  case (AppRead n)
  then show ?thesis
    using assms poll_read_frames [of n s sh "fst (poll_read n s sh)" s' sh']
    by (auto intro!: write_leg_quiet simp: prod_eq_iff)
next
  case (AppWrite w buf)
  then show ?thesis
    using assms poll_write_leg [of w buf s sh "fst (poll_write w buf s sh)" s' sh']
    by (simp add: prod_eq_iff)
next
  case (AppShutdown w)
  then show ?thesis
    using assms poll_shutdown_leg [of w s sh "fst (poll_shutdown w s sh)" s' sh']
    by (simp add: prod_eq_iff)
qed

lemma write_leg_trans:
  assumes "write_leg s sh s1 sh1" "write_leg s1 sh1 s2 sh2"
  shows "write_leg s sh s2 sh2"
proof -
  obtain fs ds cs where 1: "out_frames sh1 = out_frames sh @ fs" "leg_frames fs = ds @ cs"
    "list_all (data_frame_of (ms_id s)) ds" "cs = [] \<or> cs = [Close (ms_id s)] \<and> fin_sent (ms_state s1)"
    "fin_sent (ms_state s) \<longrightarrow> ds = [] \<and> cs = [] \<and> fin_sent (ms_state s1)"
    "unat (peer_credit (ms_state s1)) + sum_list (map data_bytes ds) = unat (peer_credit (ms_state s))"
    "ms_id s1 = ms_id s"
    using assms(1) unfolding write_leg_def by blast
  obtain fs' ds' cs' where 2: "out_frames sh2 = out_frames sh1 @ fs'" "leg_frames fs' = ds' @ cs'"
    "list_all (data_frame_of (ms_id s)) ds'" "cs' = [] \<or> cs' = [Close (ms_id s)] \<and> fin_sent (ms_state s2)"
    "fin_sent (ms_state s1) \<longrightarrow> ds' = [] \<and> cs' = [] \<and> fin_sent (ms_state s2)"
    "unat (peer_credit (ms_state s2)) + sum_list (map data_bytes ds') = unat (peer_credit (ms_state s1))"
    "ms_id s2 = ms_id s"
    using assms(2) 1(7) unfolding write_leg_def by auto
  show ?thesis
  proof (cases "cs = []")
    case True
    then show ?thesis using 1 2
      by (intro write_legI [where fs = "fs @ fs'" and ds = "ds @ ds'" and cs = cs']) auto
  next
    case False
    then have "ds' = []" "cs' = []" "fin_sent (ms_state s2)" using 1(4) 2(5) by auto
    then show ?thesis using 1 2 False
      by (intro write_legI [where fs = "fs @ fs'" and ds = ds and cs = cs]) auto
  qed
qed

lemma write_leg_refl: "write_leg s sh s sh"
  by (intro write_leg_quiet [where ws = "[]"]) auto

lemma app_run_leg: "app_run xs s sh = (s', sh') \<Longrightarrow> write_leg s sh s' sh'"
proof (induction xs arbitrary: s sh)
  case Nil
  then show ?case by (simp add: write_leg_refl)
next
  case (Cons x xs)
  obtain s1 sh1 where "app_step x s sh = (s1, sh1)" by fastforce
  with Cons show ?case by (auto intro: write_leg_trans app_step_leg)
qed

text \<open>
  C6: the write leg of a stream. Whatever the application does (reads, writes of any size, shutdowns,
  in any order), the frames of its stream that reach the outbound queue, window grants aside, are
  non-empty data frames of at most \<open>MAX_FRAME_PAYLOAD\<close> bytes followed by at most one \<open>Close\<close> and nothing
  after it; the credit used up is exactly the number of data bytes, so a stream never sends beyond
  the credit it was granted; and a stream that was already shut down sends nothing.
\<close>

theorem stream_write_leg:
  assumes "app_run ops s sh = (s', sh')"
  shows "\<exists>fs ds cs. out_frames sh' = out_frames sh @ fs \<and> leg_frames fs = ds @ cs \<and>
        list_all (data_frame_of (ms_id s)) ds \<and>
        (cs = [] \<or> cs = [Close (ms_id s)] \<and> fin_sent (ms_state s')) \<and>
        (fin_sent (ms_state s) \<longrightarrow> ds = [] \<and> cs = [] \<and> fin_sent (ms_state s')) \<and>
        unat (peer_credit (ms_state s')) + sum_list (map data_bytes ds)
          = unat (peer_credit (ms_state s))"
  using app_run_leg [OF assms] unfolding write_leg_def by blast

theorem stream_write_leg_witness:
  "\<exists>s' sh'. app_run [AppWrite 0 [5, 6], AppShutdown 0, AppWrite 0 [7]] (stream_new 1)
       (shared_new Client NodeToNode) = (s', sh') \<and>
     out_frames sh' = [Data 1 [5, 6], Close 1] \<and>
     (\<exists>fs ds cs. out_frames sh' = out_frames (shared_new Client NodeToNode) @ fs \<and>
        leg_frames fs = ds @ cs \<and> list_all (data_frame_of 1) ds \<and>
        (cs = [] \<or> cs = [Close 1] \<and> fin_sent (ms_state s')))"
proof -
  define res where "res = app_run [AppWrite 0 [5, 6], AppShutdown 0, AppWrite 0 [7]] (stream_new 1)
       (shared_new Client NodeToNode)"
  obtain s' sh' where r: "res = (s', sh')" by (cases res)
  have "out_frames (snd (app_run [AppWrite 0 [5, 6], AppShutdown 0, AppWrite 0 [7]] (stream_new 1)
       (shared_new Client NodeToNode))) = [Data 1 [5, 6], Close 1]"
    by (simp add: poll_write_def poll_shutdown_def stream_new_def shared_new_def chan_try_send_def
        DEFAULT_STREAM_WINDOW_def MAX_FRAME_PAYLOAD_def OUTBOUND_QUEUE_def cell_setters)
  moreover have "ms_id (stream_new 1) = 1" by (simp add: stream_new_def)
  ultimately show ?thesis
    using stream_write_leg [of "[AppWrite 0 [5, 6], AppShutdown 0, AppWrite 0 [7]]" "stream_new 1"
        "shared_new Client NodeToNode" s' sh'] r unfolding res_def by auto
qed

end
