(* ===== verification/Mux_Flow.thy ===== *)
theory Mux_Flow
  imports Mux_Stream
begin

text \<open>
  Flow control of one stream between two endpoints: the sender's and the receiver's cell and shared
  state (\<^verbatim>\<open>src/infra/relay_mux/stream.rs\<close>), and the frames in flight in each direction. The steps are
  the operations of the two sides; \<open>fl_leaked\<close> is a ghost counter of the bytes of a chunk that
  \<open>poll_read\<close> moved to its leftover buffer, which it never reports to \<open>account_consumed\<close>.
\<close>

record flow =
  fl_snd :: cell
  fl_snd_sh :: shared
  fl_wire :: "frame list"
  fl_rcv :: cell
  fl_rcv_sh :: shared
  fl_back :: "frame list"
  fl_leaked :: nat

definition pop_out :: "shared \<Rightarrow> shared" where
  "pop_out sh = sh\<lparr>sh_outbound := (sh_outbound sh)\<lparr>chan_queue := tl (out_frames sh)\<rparr>\<rparr>"

definition read_leak :: "nat \<Rightarrow> cell \<Rightarrow> nat" where
  "read_leak n s =
     (if n = 0 \<or> ms_read_offset s < length (ms_read_leftover s) then 0
      else case chan_queue (ms_inbound s) of [] \<Rightarrow> 0 | chunk # _ \<Rightarrow> length chunk - min n (length chunk))"

inductive flow_step :: "flow \<Rightarrow> flow \<Rightarrow> bool" where
  put: "poll_write w buf (fl_snd f) (fl_snd_sh f) = (r, s', sh') \<Longrightarrow>
     flow_step f (f\<lparr>fl_snd := s', fl_snd_sh := sh'\<rparr>)"
| finish: "poll_shutdown w (fl_snd f) (fl_snd_sh f) = (r, s', sh') \<Longrightarrow>
     flow_step f (f\<lparr>fl_snd := s', fl_snd_sh := sh'\<rparr>)"
| ship: "out_frames (fl_snd_sh f) = x # xs \<Longrightarrow>
     flow_step f (f\<lparr>fl_snd_sh := pop_out (fl_snd_sh f), fl_wire := fl_wire f @ [x]\<rparr>)"
| data: "fl_wire f = Data sid p # w \<Longrightarrow> deliver p (fl_rcv f) = (r', SendOk) \<Longrightarrow>
     flow_step f (f\<lparr>fl_wire := w, fl_rcv := r'\<rparr>)"
| fin: "fl_wire f = Close sid # w \<Longrightarrow>
     flow_step f (f\<lparr>fl_wire := w, fl_rcv := (fl_rcv f)\<lparr>ms_peer_fin := True\<rparr>\<rparr>)"
| read: "poll_read n (fl_rcv f) (fl_rcv_sh f) = (r, r', sh') \<Longrightarrow>
     flow_step f (f\<lparr>fl_rcv := r', fl_rcv_sh := sh', fl_leaked := fl_leaked f + read_leak n (fl_rcv f)\<rparr>)"
| ship_back: "out_frames (fl_rcv_sh f) = x # xs \<Longrightarrow>
     flow_step f (f\<lparr>fl_rcv_sh := pop_out (fl_rcv_sh f), fl_back := fl_back f @ [x]\<rparr>)"
| grant: "fl_back f = Window sid c # b \<Longrightarrow> grant_credit c (fl_snd f) = Some (s', w) \<Longrightarrow>
     flow_step f (f\<lparr>fl_back := b, fl_snd := s'\<rparr>)"

definition flow_init :: "u32 \<Rightarrow> flow" where
  "flow_init sid =
     \<lparr>fl_snd = stream_new sid, fl_snd_sh = shared_new Client NodeToNode, fl_wire = [],
      fl_rcv = stream_new sid, fl_rcv_sh = shared_new Server NodeToNode, fl_back = [], fl_leaked = 0\<rparr>"

inductive flow_reach :: "u32 \<Rightarrow> flow \<Rightarrow> bool" for sid where
  init: "flow_reach sid (flow_init sid)"
| step: "flow_reach sid f \<Longrightarrow> flow_step f f' \<Longrightarrow> flow_reach sid f'"

section \<open>Conservation of credit\<close>

fun window_credit :: "frame \<Rightarrow> nat" where
  "window_credit (Window _ c) = unat c"
| "window_credit _ = 0"

abbreviation data_sum :: "frame list \<Rightarrow> nat" where
  "data_sum fs \<equiv> sum_list (map data_bytes fs)"

abbreviation credit_sum :: "frame list \<Rightarrow> nat" where
  "credit_sum fs \<equiv> sum_list (map window_credit fs)"

definition queued_bytes :: "cell \<Rightarrow> nat" where
  "queued_bytes s = length (concat (chan_queue (ms_inbound s)))"

definition flow_total :: "flow \<Rightarrow> nat" where
  "flow_total f =
     unat (peer_credit (ms_state (fl_snd f))) + data_sum (out_frames (fl_snd_sh f))
     + data_sum (fl_wire f) + queued_bytes (fl_rcv f)
     + unat (consumed_accum (ms_state (fl_rcv f)))
     + credit_sum (out_frames (fl_rcv_sh f)) + credit_sum (fl_back f) + fl_leaked f"

definition flow_inv :: "flow \<Rightarrow> bool" where
  "flow_inv f \<longleftrightarrow> flow_total f = unat DEFAULT_STREAM_WINDOW \<and> chan_rx_open (sh_outbound (fl_rcv_sh f))"

lemma flow_inv_init: "flow_inv (flow_init sid)"
  by (simp add: flow_inv_def flow_total_def flow_init_def stream_new_def shared_new_def
      queued_bytes_def)

lemma unat_sub_credit:
  assumes "n \<le> unat (c :: u64)"
  shows "unat (c - word_of_nat n) = unat c - n"
proof -
  have n: "unat (word_of_nat n :: u64) = n"
    using assms unsigned_less [where ?'a = nat, of c] by (simp add: unat_of_nat)
  then have "word_of_nat n \<le> c" using assms by (simp add: word_le_nat_alt)
  then show ?thesis using n by (simp add: unat_sub)
qed

lemma unat_add_small: "unat (a :: u64) + unat b < 2 ^ 64 \<Longrightarrow> unat (a + b) = unat a + unat b"
  by (simp add: unat_word_ariths)

lemma window_value: "unat DEFAULT_STREAM_WINDOW = 262144" "unat WINDOW_GRANT_THRESHOLD = 131072"
  by (simp_all add: DEFAULT_STREAM_WINDOW_def WINDOW_GRANT_THRESHOLD_def)

lemma account_consumed_credit:
  assumes "account_consumed (word_of_nat k) s sh = (s', sh')" "chan_rx_open (sh_outbound sh)"
    "unat (consumed_accum (ms_state s)) + k < 2 ^ 64"
  shows "unat (consumed_accum (ms_state s')) + credit_sum (out_frames sh')
       = unat (consumed_accum (ms_state s)) + k + credit_sum (out_frames sh)
    \<and> chan_rx_open (sh_outbound sh') \<and> ms_inbound s' = ms_inbound s
    \<and> data_sum (out_frames sh') = data_sum (out_frames sh)"
proof -
  have k: "unat (word_of_nat k :: u64) = k" using assms(3) by (simp add: unat_of_nat)
  then have "unat (consumed_accum (ms_state s) + word_of_nat k) = unat (consumed_accum (ms_state s)) + k"
    using assms(3) unat_add_small [of "consumed_accum (ms_state s)" "word_of_nat k"] by simp
  then show ?thesis
    using assms(1,2) by (cases rule: account_consumed_cases [of s "word_of_nat k" sh]) auto
qed

lemma poll_read_credit:
  assumes "poll_read n s sh = (r, s', sh')" "chan_rx_open (sh_outbound sh)"
    "unat (consumed_accum (ms_state s)) + queued_bytes s < 2 ^ 64"
  shows "queued_bytes s' + unat (consumed_accum (ms_state s')) + credit_sum (out_frames sh') + read_leak n s
       = queued_bytes s + unat (consumed_accum (ms_state s)) + credit_sum (out_frames sh)
    \<and> chan_rx_open (sh_outbound sh')"
proof (cases "n = 0 \<or> ms_read_offset s < length (ms_read_leftover s)")
  case True
  then show ?thesis
    using assms(1,2) poll_read_leftover [of n s sh]
    by (cases "n = 0") (auto simp: read_leak_def poll_read_def queued_bytes_def)
next
  case lo: False
  show ?thesis
  proof (cases "chan_queue (ms_inbound s)")
    case Nil
    then have "s' = s" "sh' = sh"
      using assms(1) lo poll_read_empty(1,2) [of n s sh] by auto
    then show ?thesis using assms(2) lo Nil by (simp add: read_leak_def)
  next
    case (Cons chunk chunks)
    define s2 where "s2 = (let s1 = s\<lparr>ms_inbound := (ms_inbound s)\<lparr>chan_queue := chunks\<rparr>\<rparr> in
      if n < length chunk then s1\<lparr>ms_read_leftover := chunk, ms_read_offset := n\<rparr> else s1)"
    have ac: "account_consumed (word_of_nat (min n (length chunk))) s2 sh = (s', sh')"
      using assms(1) lo Cons by (auto simp: poll_read_chunk s2_def Let_def split: prod.splits)
    have s2: "ms_state s2 = ms_state s" "chan_queue (ms_inbound s2) = chunks"
      by (simp_all add: s2_def Let_def)
    have "queued_bytes s = length chunk + queued_bytes s2"
      using Cons s2 by (simp add: queued_bytes_def)
    moreover have "min n (length chunk) + read_leak n s = length chunk"
      using lo Cons by (auto simp: read_leak_def)
    ultimately show ?thesis
      using account_consumed_credit [OF ac assms(2)] assms(3) s2 by (auto simp: queued_bytes_def)
  qed
qed

lemma poll_write_credit:
  assumes "poll_write w buf s sh = (r, s', sh')"
  shows "unat (peer_credit (ms_state s')) + data_sum (out_frames sh')
       = unat (peer_credit (ms_state s)) + data_sum (out_frames sh)"
  using assms
proof (cases rule: poll_write_cases)
  case Quiet
  then show ?thesis by auto
next
  case (Sent n)
  then show ?thesis by (simp add: unat_sub_credit)
qed

lemma poll_shutdown_credit:
  assumes "poll_shutdown w s sh = (r, s', sh')"
  shows "peer_credit (ms_state s') = peer_credit (ms_state s) \<and>
    data_sum (out_frames sh') = data_sum (out_frames sh)"
  using assms
  by (cases rule: chan_try_send_cases [of "sh_outbound sh" "Close (ms_id s)"])
    (auto simp: poll_shutdown_def park_outbound_def split: if_splits)

lemma pop_out_simps [simp]:
  "out_frames (pop_out sh) = tl (out_frames sh)"
  "chan_rx_open (sh_outbound (pop_out sh)) = chan_rx_open (sh_outbound sh)"
  by (simp_all add: pop_out_def)

lemma deliver_queue:
  "deliver p s = (s', SendOk) \<Longrightarrow> queued_bytes s' = queued_bytes s + length p \<and> ms_state s' = ms_state s"
  by (cases rule: chan_try_send_cases [of "ms_inbound s" p]) (auto simp: deliver_def queued_bytes_def)

lemma grant_credit_SomeD:
  "grant_credit c s = Some (s', w) \<Longrightarrow>
     unat (peer_credit (ms_state s')) = unat (peer_credit (ms_state s)) + unat c"
  by (auto simp: grant_credit_def checked_add_u64_def unat_add_small split: if_splits)

lemma flow_step_inv:
  assumes "flow_step f f'" "flow_inv f"
  shows "flow_inv f'"
  using assms
proof (induction rule: flow_step.induct)
  case (put w buf f r s' sh')
  then show ?case using poll_write_credit [OF put(1)] by (simp add: flow_inv_def flow_total_def)
next
  case (finish w f r s' sh')
  then show ?case using poll_shutdown_credit [OF finish(1)] by (simp add: flow_inv_def flow_total_def)
next
  case (data f sid p w r')
  then show ?case using deliver_queue [OF data(2)] by (simp add: flow_inv_def flow_total_def)
next
  case (read n f r r' sh')
  then have "unat (consumed_accum (ms_state (fl_rcv f))) + queued_bytes (fl_rcv f) < 2 ^ 64"
    by (simp add: flow_inv_def flow_total_def window_value)
  then show ?case using poll_read_credit [OF read(1)] read(2) by (simp add: flow_inv_def flow_total_def)
next
  case (grant f sid c b s' w)
  then show ?case using grant_credit_SomeD [OF grant(2)] by (simp add: flow_inv_def flow_total_def)
qed (auto simp: flow_inv_def flow_total_def queued_bytes_def)

lemma flow_reach_inv: "flow_reach sid f \<Longrightarrow> flow_inv f"
  by (induction rule: flow_reach.induct) (auto intro: flow_inv_init flow_step_inv)

section \<open>Properties\<close>

text \<open>
  C7: credit is conserved. In every reachable state of a stream, the sender's credit, the data bytes
  queued at the sender, in flight and queued at the receiver, the receiver's pending grant, the grants in
  flight and the bytes \<open>poll_read\<close> left unaccounted add up to \<open>DEFAULT_STREAM_WINDOW\<close>. So the receiver never
  queues more than the window, and a window grant never overflows the sender's credit.
\<close>

theorem flow_credit_conserved:
  assumes "flow_reach sid f"
  shows "unat (peer_credit (ms_state (fl_snd f))) + data_sum (out_frames (fl_snd_sh f))
     + data_sum (fl_wire f) + queued_bytes (fl_rcv f)
     + unat (consumed_accum (ms_state (fl_rcv f)))
     + credit_sum (out_frames (fl_rcv_sh f)) + credit_sum (fl_back f) + fl_leaked f
       = unat DEFAULT_STREAM_WINDOW \<and>
    queued_bytes (fl_rcv f) \<le> unat DEFAULT_STREAM_WINDOW \<and>
    (\<forall>i c b. fl_back f = Window i c # b \<longrightarrow> grant_credit c (fl_snd f) \<noteq> None)"
proof -
  have inv: "flow_total f = unat DEFAULT_STREAM_WINDOW"
    using flow_reach_inv [OF assms] by (simp add: flow_inv_def)
  have "grant_credit c (fl_snd f) \<noteq> None" if "fl_back f = Window i c # b" for i c b
    using inv that by (simp add: flow_total_def grant_credit_def checked_add_u64_def window_value)
  then show ?thesis using inv by (auto simp: flow_total_def)
qed

theorem flow_credit_conserved_witness:
  "\<exists>f. flow_reach 1 f \<and> fl_snd f \<noteq> stream_new 1 \<and>
     queued_bytes (fl_rcv f) \<le> unat DEFAULT_STREAM_WINDOW"
proof -
  define f where "f = flow_init 1"
  obtain r s' sh' where pw: "poll_write 0 [1, 2, 3] (fl_snd f) (fl_snd_sh f) = (r, s', sh')"
    by (cases "poll_write 0 [1, 2, 3] (fl_snd f) (fl_snd_sh f)")
  have "flow_reach 1 (f\<lparr>fl_snd := s', fl_snd_sh := sh'\<rparr>)"
    using flow_reach.step [OF flow_reach.init flow_step.put] pw by (simp add: f_def)
  moreover have "peer_credit (ms_state (fst (snd (poll_write 0 [1, 2, 3] (fl_snd f) (fl_snd_sh f)))))
      = 262141"
    by (simp add: f_def flow_init_def poll_write_def stream_new_def shared_new_def chan_try_send_def
        DEFAULT_STREAM_WINDOW_def MAX_FRAME_PAYLOAD_def OUTBOUND_QUEUE_def cell_setters)
  then have "s' \<noteq> stream_new 1"
    using pw by (auto simp: stream_new_def DEFAULT_STREAM_WINDOW_def)
  ultimately show ?thesis using flow_credit_conserved by fastforce
qed

section \<open>Leaked credit\<close>

text \<open>
  A stream at rest with \<open>chunks\<close> queued at the receiver: the sender holds \<open>c\<close> bytes of credit,
  nothing is in flight, and the receiver has \<open>a\<close> bytes accounted and not yet granted.
\<close>

definition at_rest :: "bytes list \<Rightarrow> nat \<Rightarrow> nat \<Rightarrow> flow \<Rightarrow> bool" where
  "at_rest chunks c a f \<longleftrightarrow>
     unat (peer_credit (ms_state (fl_snd f))) = c \<and>
     \<not> fin_sent (ms_state (fl_snd f)) \<and> \<not> ms_reset (fl_snd f) \<and> \<not> sh_dead (fl_snd_sh f) \<and>
     sh_outbound (fl_snd_sh f) = chan_new OUTBOUND_QUEUE \<and> fl_wire f = [] \<and>
     ms_inbound (fl_rcv f) = (chan_new INBOUND_CHUNK_QUEUE)\<lparr>chan_queue := chunks\<rparr> \<and>
     ms_read_offset (fl_rcv f) = length (ms_read_leftover (fl_rcv f)) \<and>
     unat (consumed_accum (ms_state (fl_rcv f))) = a \<and>
     sh_outbound (fl_rcv_sh f) = chan_new OUTBOUND_QUEUE \<and> fl_back f = []"

lemma at_rest_init: "at_rest [] (unat DEFAULT_STREAM_WINDOW) 0 (flow_init sid)"
  by (simp add: at_rest_def flow_init_def stream_new_def shared_new_def chan_new_def)

lemma caps_pos: "0 < OUTBOUND_QUEUE" "0 < INBOUND_CHUNK_QUEUE"
  by (simp_all add: OUTBOUND_QUEUE_def INBOUND_CHUNK_QUEUE_def)

lemma transfer_chunk:
  assumes reach: "flow_reach sid f" and rest: "at_rest [] c a f"
    and buf: "buf \<noteq> []" "length buf \<le> unat MAX_FRAME_PAYLOAD" "length buf \<le> c"
  shows "\<exists>f'. flow_reach sid f' \<and> at_rest [buf] (c - length buf) a f'"
proof -
  note d = rest [unfolded at_rest_def]
  define fr where "fr = Data (ms_id (fl_snd f)) buf"
  define s1 where "s1 = set_credit (peer_credit (ms_state (fl_snd f)) - word_of_nat (length buf)) (fl_snd f)"
  define sh1 where "sh1 = (fl_snd_sh f)\<lparr>sh_outbound := (chan_new OUTBOUND_QUEUE)\<lparr>chan_queue := [fr]\<rparr>\<rparr>"
  have "peer_credit (ms_state (fl_snd f)) \<noteq> 0" using d buf by auto
  moreover have "min (min (length buf) (unat MAX_FRAME_PAYLOAD)) c = length buf"
    using buf by simp
  ultimately have "poll_write 0 buf (fl_snd f) (fl_snd_sh f) = (Ready (Inr (length buf)), s1, sh1)"
    using d buf caps_pos by (simp add: poll_write_def Let_def chan_try_send_def s1_def sh1_def fr_def)
  from flow_reach.step [OF reach flow_step.put [OF this]]
  have r1: "flow_reach sid (f\<lparr>fl_snd := s1, fl_snd_sh := sh1\<rparr>)" .
  define f2 where "f2 = f\<lparr>fl_snd := s1, fl_snd_sh := pop_out sh1, fl_wire := [fr]\<rparr>"
  have r2: "flow_reach sid f2"
    using flow_reach.step [OF r1 flow_step.ship [of _ fr "[]"]] d by (simp add: f2_def sh1_def)
  define rc where "rc = (fl_rcv f)\<lparr>ms_inbound := (chan_new INBOUND_CHUNK_QUEUE)\<lparr>chan_queue := [buf]\<rparr>\<rparr>"
  have "deliver buf (fl_rcv f2) = (rc, SendOk)"
    using d caps_pos by (simp add: deliver_def chan_try_send_def f2_def rc_def)
  then have r3: "flow_reach sid (f2\<lparr>fl_wire := [], fl_rcv := rc\<rparr>)"
    using flow_reach.step [OF r2 flow_step.data] by (simp add: f2_def fr_def)
  have "unat (peer_credit (ms_state s1)) = c - length buf"
    using d buf by (simp add: s1_def unat_sub_credit)
  then have "at_rest [buf] (c - length buf) a (f2\<lparr>fl_wire := [], fl_rcv := rc\<rparr>)"
    using d by (simp add: at_rest_def f2_def rc_def sh1_def pop_out_def s1_def set_credit_def chan_new_def)
  with r3 show ?thesis by blast
qed

lemma read_all_but_one:
  assumes reach: "flow_reach sid f" and rest: "at_rest [buf] c a f"
    and len: "length buf = Suc m" "0 < m" and acc: "Suc a < unat WINDOW_GRANT_THRESHOLD"
  shows "\<exists>f'. flow_reach sid f' \<and> at_rest [] c (Suc a) f'"
proof -
  note d = rest [unfolded at_rest_def]
  define rc where "rc = (fl_rcv f)\<lparr>ms_inbound := chan_new INBOUND_CHUNK_QUEUE,
     ms_read_leftover := buf, ms_read_offset := 1\<rparr>"
  define rc' where "rc' = set_consumed (consumed_accum (ms_state (fl_rcv f)) + 1) rc"
  have sum: "unat (consumed_accum (ms_state (fl_rcv f)) + 1) = Suc a"
    using d acc unat_add_small [of "consumed_accum (ms_state (fl_rcv f))" 1] by (simp add: window_value)
  have "account_consumed 1 rc (fl_rcv_sh f) = (rc', fl_rcv_sh f)"
    using sum acc by (simp add: account_consumed_def Let_def word_less_nat_alt rc'_def rc_def)
  then have "poll_read 1 (fl_rcv f) (fl_rcv_sh f) = (Ready (Inr (take 1 buf)), rc', fl_rcv_sh f)"
    using d len by (simp add: poll_read_chunk [where chunk = buf and chunks = "[]"] rc_def chan_new_def min_def)
  from flow_reach.step [OF reach flow_step.read [OF this]]
  obtain lk where r1: "flow_reach sid (f\<lparr>fl_rcv := rc', fl_rcv_sh := fl_rcv_sh f, fl_leaked := lk\<rparr>)"
    by blast
  define f1 where "f1 = f\<lparr>fl_rcv := rc', fl_rcv_sh := fl_rcv_sh f, fl_leaked := lk\<rparr>"
  have "poll_read m (fl_rcv f1) (fl_rcv_sh f1) =
      (Ready (Inr (take m (drop 1 buf))), rc'\<lparr>ms_read_offset := length buf\<rparr>, fl_rcv_sh f)"
    using len by (simp add: f1_def rc'_def rc_def poll_read_leftover)
  from flow_reach.step [OF r1 [folded f1_def] flow_step.read [OF this]]
  obtain lk' where "flow_reach sid
      (f1\<lparr>fl_rcv := rc'\<lparr>ms_read_offset := length buf\<rparr>, fl_rcv_sh := fl_rcv_sh f, fl_leaked := lk'\<rparr>)"
    by blast
  moreover have "at_rest [] c (Suc a)
      (f1\<lparr>fl_rcv := rc'\<lparr>ms_read_offset := length buf\<rparr>, fl_rcv_sh := fl_rcv_sh f, fl_leaked := lk'\<rparr>)"
    using d sum by (simp add: at_rest_def f1_def rc'_def rc_def chan_new_def set_consumed_def)
  ultimately show ?thesis by blast
qed

lemma leak_rounds:
  "k \<le> 16 \<Longrightarrow> \<exists>f. flow_reach sid f \<and> at_rest [] (unat DEFAULT_STREAM_WINDOW - 16384 * k) k f"
proof (induction k)
  case 0
  show ?case using flow_reach.init at_rest_init by auto
next
  case (Suc k)
  then obtain f where f: "flow_reach sid f" "at_rest [] (unat DEFAULT_STREAM_WINDOW - 16384 * k) k f"
    by auto
  obtain buf :: bytes where len: "length buf = Suc 16383"
    by (rule that [OF length_replicate])
  have "length buf \<le> unat MAX_FRAME_PAYLOAD" "length buf \<le> unat DEFAULT_STREAM_WINDOW - 16384 * k"
    "buf \<noteq> []"
    using len Suc.prems by (auto simp: MAX_FRAME_PAYLOAD_def window_value)
  then obtain f' where f': "flow_reach sid f'"
    "at_rest [buf] (unat DEFAULT_STREAM_WINDOW - 16384 * k - length buf) k f'"
    using transfer_chunk [OF f] by blast
  have "Suc k < unat WINDOW_GRANT_THRESHOLD" using Suc.prems by (simp add: window_value)
  moreover have "unat DEFAULT_STREAM_WINDOW - 16384 * k - length buf
      = unat DEFAULT_STREAM_WINDOW - 16384 * Suc k"
    using len by simp
  ultimately show ?case using read_all_but_one [OF f' len] by auto
qed

definition starved :: "flow \<Rightarrow> bool" where
  "starved f \<longleftrightarrow>
     peer_credit (ms_state (fl_snd f)) = 0 \<and>
     list_all (\<lambda>x. \<exists>i. x = Close i) (out_frames (fl_snd_sh f) @ fl_wire f) \<and>
     chan_queue (ms_inbound (fl_rcv f)) = [] \<and>
     \<not> ms_read_offset (fl_rcv f) < length (ms_read_leftover (fl_rcv f)) \<and>
     out_frames (fl_rcv_sh f) = [] \<and> fl_back f = []"

lemma at_rest_starved: "at_rest [] 0 a f \<Longrightarrow> starved f"
  by (auto simp: at_rest_def starved_def unat_eq_0)

lemma poll_shutdown_frames:
  assumes "poll_shutdown w s sh = (r, s', sh')"
  shows "out_frames sh' = out_frames sh \<or> out_frames sh' = out_frames sh @ [Close (ms_id s)]"
  using assms
  by (cases rule: chan_try_send_cases [of "sh_outbound sh" "Close (ms_id s)"])
    (auto simp: poll_shutdown_def park_outbound_def split: if_splits)

lemma starved_step:
  assumes "flow_step f f'" "starved f"
  shows "starved f'"
  using assms
proof (induction rule: flow_step.induct)
  case (put w buf f r s' sh')
  from put(1) show ?case
  proof (cases rule: poll_write_cases)
    case Quiet
    then show ?thesis using put(2) by (auto simp: starved_def)
  next
    case (Sent n)
    then show ?thesis using put(2) by (simp add: starved_def)
  qed
next
  case (finish w f r s' sh')
  then show ?case using poll_shutdown_frames [OF finish(1)] poll_shutdown_credit [OF finish(1)]
    by (auto simp: starved_def)
next
  case (read n f r r' sh')
  show ?case
  proof (cases "n = 0")
    case True
    then show ?thesis using read by (auto simp: starved_def poll_read_def)
  next
    case False
    then have "r' = fl_rcv f" "sh' = fl_rcv_sh f"
      using read poll_read_empty(1,2) [of n "fl_rcv f" "fl_rcv_sh f"] by (auto simp: starved_def)
    then show ?thesis using read(2) by (simp add: starved_def)
  qed
qed (auto simp: starved_def)

text \<open>
  C8: \<open>poll_read\<close> accounts only the part of a chunk that fits the caller's buffer; the rest of the chunk,
  served later from the leftover buffer, is never granted back. A reader that takes 16 full frames with
  a one-byte first read has read every byte the sender sent, yet the sender has no credit left and no
  later step of either side, in any order, ever lets it send again.
\<close>

theorem leftover_reads_starve_the_sender:
  "\<exists>f. flow_reach sid f \<and> unread (fl_rcv f) = [] \<and> \<not> fin_sent (ms_state (fl_snd f)) \<and>
     (\<forall>f' w buf n. flow_step\<^sup>*\<^sup>* f f' \<longrightarrow> buf \<noteq> [] \<longrightarrow>
        fst (poll_write w buf (fl_snd f') (fl_snd_sh f')) \<noteq> Ready (Inr n))"
proof -
  obtain f where f: "flow_reach sid f" "at_rest [] 0 16 f"
    using leak_rounds [of 16] by (auto simp: window_value)
  have "starved f'" if "flow_step\<^sup>*\<^sup>* f f'" for f'
    using that by induction (auto intro: at_rest_starved f starved_step)
  then have "fst (poll_write w buf (fl_snd f') (fl_snd_sh f')) \<noteq> Ready (Inr n)"
    if "flow_step\<^sup>*\<^sup>* f f'" "buf \<noteq> []" for f' w buf n
    using that by (auto simp: poll_write_def starved_def)
  moreover have "unread (fl_rcv f) = []" "\<not> fin_sent (ms_state (fl_snd f))"
    using f(2) by (auto simp: at_rest_def unread_def)
  ultimately show ?thesis using f(1) by blast
qed

theorem leftover_reads_starve_the_sender_witness:
  "\<exists>f. flow_reach 1 f \<and> unread (fl_rcv f) = [] \<and>
     (\<forall>w n. fst (poll_write w [0] (fl_snd f) (fl_snd_sh f)) \<noteq> Ready (Inr n))"
proof -
  obtain f where f: "flow_reach 1 f" "unread (fl_rcv f) = []"
    and never: "\<And>f' w buf n. flow_step\<^sup>*\<^sup>* f f' \<Longrightarrow> buf \<noteq> [] \<Longrightarrow>
        fst (poll_write w buf (fl_snd f') (fl_snd_sh f')) \<noteq> Ready (Inr n)"
    using leftover_reads_starve_the_sender [of 1] by auto
  from never [of f "[0]"] f show ?thesis by auto
qed

end
