(* ===== verification/Mux_Connection.thy ===== *)
theory Mux_Connection
  imports Mux_Stream
begin

text \<open>
  One multiplexed connection, \<^verbatim>\<open>src/infra/relay_mux/connection.rs\<close>. A stream's shared state lives at an
  address of \<open>mc_cells\<close>; the stream table maps ids to addresses, and a \<^verbatim>\<open>MuxStream\<close> handle is an
  address. The reader task is a phase (it reads the next frame, or is parked in one of its three
  \<^verbatim>\<open>send().await\<close>s, or has returned); the writer task is alive or not. \<open>mc_rd_waker\<close> holds the
  waker that \<^verbatim>\<open>poll_recv\<close> registers with a stream's inbound channel, and \<open>mc_woken\<close> lists the tasks
  woken so far, \<open>mc_written\<close> the frames written to the transport.
\<close>

section \<open>State\<close>

datatype reader_phase =
    Reading
  | SendingData nat u32 bytes
  | SendingStream nat
  | SendingControl frame close_reason
  | ReaderDone

record conn =
  mc_shared :: shared
  mc_table :: "(u32 \<times> nat) list"
  mc_cells :: "nat \<rightharpoonup> cell"
  mc_next :: nat
  mc_accept :: "nat chan"
  mc_control :: "frame chan option"
  mc_reader :: reader_phase
  mc_writer :: bool
  mc_rd_waker :: "nat \<rightharpoonup> nat"
  mc_woken :: "nat list"
  mc_written :: "frame list"

definition conn_build :: "mux_role \<Rightarrow> mux_mode \<Rightarrow> frame chan option \<Rightarrow> conn" where
  "conn_build role mode control =
     \<lparr>mc_shared = shared_new role mode, mc_table = [], mc_cells = Map.empty, mc_next = 0,
      mc_accept = chan_new ACCEPT_QUEUE, mc_control = control, mc_reader = Reading, mc_writer = True,
      mc_rd_waker = Map.empty, mc_woken = [], mc_written = []\<rparr>"

abbreviation mc_dead :: "conn \<Rightarrow> bool" where
  "mc_dead c \<equiv> sh_dead (mc_shared c)"

definition is_relay_link :: "conn \<Rightarrow> bool" where
  "is_relay_link c \<longleftrightarrow> sh_mode (mc_shared c) = RelayLink"

definition put_cell :: "nat \<Rightarrow> cell \<Rightarrow> conn \<Rightarrow> conn" where
  "put_cell a s c = c\<lparr>mc_cells := (mc_cells c)(a \<mapsto> s)\<rparr>"

definition upd_cell :: "nat \<Rightarrow> (cell \<Rightarrow> cell) \<Rightarrow> conn \<Rightarrow> conn" where
  "upd_cell a f c = (case mc_cells c a of None \<Rightarrow> c | Some s \<Rightarrow> put_cell a (f s) c)"

definition wake :: "nat option \<Rightarrow> conn \<Rightarrow> conn" where
  "wake w c = (case w of None \<Rightarrow> c | Some t \<Rightarrow> c\<lparr>mc_woken := mc_woken c @ [t]\<rparr>)"

definition wake_reader :: "nat \<Rightarrow> conn \<Rightarrow> conn" where
  "wake_reader a c = wake (mc_rd_waker c a) (c\<lparr>mc_rd_waker := (mc_rd_waker c)(a := None)\<rparr>)"

definition wake_outbound :: "conn \<Rightarrow> conn" where
  "wake_outbound c =
     wake (sh_outbound_waker (mc_shared c)) (c\<lparr>mc_shared := (mc_shared c)\<lparr>sh_outbound_waker := None\<rparr>\<rparr>)"

text \<open>
  Dropping a sender of a stream's inbound channel: the channel ends, and wakes its reader, with the
  last one. The senders are the table entry and the clone a parked reader task holds.
\<close>

definition sender_held :: "nat \<Rightarrow> conn \<Rightarrow> bool" where
  "sender_held a c \<longleftrightarrow>
     a \<in> snd ` set (mc_table c) \<or> (case mc_reader c of SendingData b _ _ \<Rightarrow> b = a | _ \<Rightarrow> False)"

definition drop_sender :: "nat \<Rightarrow> conn \<Rightarrow> conn" where
  "drop_sender a c =
     (if sender_held a c then c else wake_reader a (upd_cell a (\<lambda>s. s\<lparr>ms_tx_live := False\<rparr>) c))"

definition take_write_waker :: "nat \<Rightarrow> conn \<Rightarrow> conn" where
  "take_write_waker a c =
     (case mc_cells c a of
        None \<Rightarrow> c
      | Some s \<Rightarrow> wake (write_waker (ms_state s)) (put_cell a (set_write_waker None s) c))"

definition drop_handle :: "nat \<Rightarrow> conn \<Rightarrow> conn" where
  "drop_handle a c = upd_cell a (\<lambda>s. s\<lparr>ms_inbound := (ms_inbound s)\<lparr>chan_rx_open := False\<rparr>\<rparr>) c"

section \<open>Failure\<close>

primrec drain_entries :: "(u32 \<times> nat) list \<Rightarrow> conn \<Rightarrow> conn" where
  "drain_entries [] c = c"
| "drain_entries (e # es) c = drain_entries es (drop_sender (snd e) (take_write_waker (snd e) c))"

text \<open>
  \<^verbatim>\<open>fail_connection\<close> takes one lock after the other, so that its parts are apart: setting the flag, recording the
  reason, signalling the tasks, and emptying the table. \<open>fail_connection\<close> is the call that nothing interrupts; the runs
  of \<open>fail_reach\<close> below let every other step come between its parts.
\<close>

definition fail_swap :: "conn \<Rightarrow> conn" where
  "fail_swap c = c\<lparr>mc_shared := (mc_shared c)\<lparr>sh_dead := True\<rparr>\<rparr>"

definition fail_store :: "close_reason \<Rightarrow> conn \<Rightarrow> conn" where
  "fail_store reason c = c\<lparr>mc_shared := (mc_shared c)\<lparr>sh_close_reason := Some reason\<rparr>\<rparr>"

definition fail_signal :: "conn \<Rightarrow> conn" where
  "fail_signal c = c\<lparr>mc_shared := (mc_shared c)\<lparr>sh_shutdown := True\<rparr>\<rparr>"

definition fail_drain :: "conn \<Rightarrow> conn" where
  "fail_drain c = drain_entries (mc_table c) (c\<lparr>mc_table := []\<rparr>)"

definition fail_connection :: "close_reason \<Rightarrow> conn \<Rightarrow> conn" where
  "fail_connection reason c =
     (if mc_dead c then c else fail_drain (fail_signal (fail_store reason (fail_swap c))))"

lemma fail_connection_eq:
  "fail_connection reason c =
     (if mc_dead c then c
      else drain_entries (mc_table c)
             (c\<lparr>mc_shared := (mc_shared c)\<lparr>sh_dead := True, sh_close_reason := Some reason, sh_shutdown := True\<rparr>,
                mc_table := []\<rparr>))"
  by (simp add: fail_connection_def fail_drain_def fail_signal_def fail_store_def fail_swap_def)

section \<open>Opening streams\<close>

definition table_remove :: "u32 \<Rightarrow> conn \<Rightarrow> conn" where
  "table_remove sid c =
     (case map_of (mc_table c) sid of
        None \<Rightarrow> c
      | Some a \<Rightarrow> drop_sender a (c\<lparr>mc_table := AList.delete sid (mc_table c)\<rparr>))"

text \<open>\<^verbatim>\<open>MuxStream::new\<close> and the insertion into the table: the new address, and whether an entry was replaced.\<close>

definition table_insert_new :: "u32 \<Rightarrow> conn \<Rightarrow> nat \<times> bool \<times> conn" where
  "table_insert_new sid c =
     (let a = mc_next c;
          c1 = put_cell a (stream_new sid) (c\<lparr>mc_next := Suc a,
                 mc_table := AList.update sid a (mc_table c)\<rparr>)
      in case map_of (mc_table c) sid of
           None \<Rightarrow> (a, False, c1)
         | Some old \<Rightarrow> (a, True, drop_sender old c1))"

definition open_check :: "conn \<Rightarrow> mux_error option" where
  "open_check c =
     (if mc_dead c then Some (ConnectionClosed (dead_reason (mc_shared c))) else None)"

definition open_insert :: "conn \<Rightarrow> (mux_error + u32 \<times> nat) \<times> conn" where
  "open_insert c =
     (let sid = sh_next_local_id (mc_shared c);
          c1 = c\<lparr>mc_shared := (mc_shared c)\<lparr>sh_next_local_id := sid + 2\<rparr>\<rparr>
      in case table_insert_new sid c1 of
           (a, True, c2) \<Rightarrow>
             (Inl (ProtocolViolation (IdStillLive sid)), drop_handle a (fail_connection (StillLive sid) c2))
         | (a, False, c2) \<Rightarrow> (Inr (sid, a), c2))"

definition open_send :: "frame \<Rightarrow> u32 \<Rightarrow> nat \<Rightarrow> conn \<Rightarrow> (mux_error + nat) poll \<times> conn" where
  "open_send f sid a c =
     (case chan_try_send f (sh_outbound (mc_shared c)) of
        (out, SendOk) \<Rightarrow> (Ready (Inr a), c\<lparr>mc_shared := (mc_shared c)\<lparr>sh_outbound := out\<rparr>\<rparr>)
      | (_, SendFull) \<Rightarrow> (Pending, c)
      | (_, SendClosed) \<Rightarrow>
          (Ready (Inl (ConnectionClosed (dead_reason (mc_shared c)))),
           drop_handle a (table_remove sid c)))"

definition open_with :: "(u32 \<Rightarrow> frame) \<Rightarrow> conn \<Rightarrow> (mux_error + nat) poll \<times> conn" where
  "open_with mk c =
     (case open_check c of
        Some e \<Rightarrow> (Ready (Inl e), c)
      | None \<Rightarrow>
          (case open_insert c of
             (Inl e, c') \<Rightarrow> (Ready (Inl e), c')
           | (Inr (sid, a), c') \<Rightarrow> open_send (mk sid) sid a c'))"

definition open_stream :: "conn \<Rightarrow> (mux_error + nat) poll \<times> conn" where
  "open_stream c = open_with Open c"

definition open_stream_to :: "string \<Rightarrow> conn \<Rightarrow> (mux_error + nat) poll \<times> conn" where
  "open_stream_to target c =
     (if \<not> is_relay_link c then (Ready (Inl NotRelayLink), c)
      else if MAX_NODE_ID_LEN < word_of_nat (length target) then
        (Ready (Inl (ProtocolViolation (TargetIdTooLong (length target)))), c)
      else open_with (\<lambda>sid. OpenStream sid target) c)"

fun control_verdict :: "frame \<Rightarrow> mux_error option" where
  "control_verdict (Register node_id) =
     (if MAX_NODE_ID_LEN < word_of_nat (length node_id)
      then Some (ProtocolViolation (ControlIdTooLong (length node_id))) else None)"
| "control_verdict (Watch node_id) =
     (if MAX_NODE_ID_LEN < word_of_nat (length node_id)
      then Some (ProtocolViolation (ControlIdTooLong (length node_id))) else None)"
| "control_verdict Unregister = None"
| "control_verdict Heartbeat = None"
| "control_verdict (AdminRequest _ _) = None"
| "control_verdict f = Some (ProtocolViolation (NotAControlFrame f))"

definition send_control :: "frame \<Rightarrow> conn \<Rightarrow> (mux_error + unit) \<times> conn" where
  "send_control f c =
     (if \<not> is_relay_link c then (Inl NotRelayLink, c)
      else
        case control_verdict f of
          Some e \<Rightarrow> (Inl e, c)
        | None \<Rightarrow>
            (case chan_try_send f (sh_outbound (mc_shared c)) of
               (out, SendOk) \<Rightarrow> (Inr (), c\<lparr>mc_shared := (mc_shared c)\<lparr>sh_outbound := out\<rparr>\<rparr>)
             | (_, SendFull) \<Rightarrow> (Inl (ConnectionClosed OutboundFull), c)
             | (_, SendClosed) \<Rightarrow> (Inl (ConnectionClosed (dead_reason (mc_shared c))), c)))"

section \<open>The reader task\<close>

definition reader_phase_to :: "reader_phase \<Rightarrow> conn \<Rightarrow> conn" where
  "reader_phase_to p c =
     (case mc_reader c of
        SendingData a _ _ \<Rightarrow> drop_sender a (c\<lparr>mc_reader := p\<rparr>)
      | _ \<Rightarrow> c\<lparr>mc_reader := p\<rparr>)"

definition reader_fail :: "close_reason \<Rightarrow> conn \<Rightarrow> conn" where
  "reader_fail reason c = reader_phase_to ReaderDone (fail_connection reason c)"

definition mux_lookup :: "u32 \<Rightarrow> conn \<Rightarrow> nat option \<times> conn" where
  "mux_lookup sid c =
     (case map_of (mc_table c) sid of
        None \<Rightarrow> (None, fail_connection (UnknownStreamReason sid) c)
      | Some a \<Rightarrow> (Some a, c))"

definition relay_link_or_fail :: "conn \<Rightarrow> bool \<times> conn" where
  "relay_link_or_fail c =
     (if is_relay_link c then (True, c) else (False, fail_connection ControlOnNodeLink c))"

definition send_stream :: "nat \<Rightarrow> conn \<Rightarrow> conn" where
  "send_stream a c =
     (case chan_try_send a (mc_accept c) of
        (q, SendOk) \<Rightarrow> reader_phase_to Reading (c\<lparr>mc_accept := q\<rparr>)
      | (_, SendFull) \<Rightarrow> c\<lparr>mc_reader := SendingStream a\<rparr>
      | (_, SendClosed) \<Rightarrow> drop_handle a (reader_fail HandleDropped c))"

definition push_inbound_stream :: "u32 \<Rightarrow> conn \<Rightarrow> conn" where
  "push_inbound_stream sid c =
     (case table_insert_new sid c of
        (a, True, c1) \<Rightarrow> drop_handle a (reader_fail (Reopened sid) c1)
      | (a, False, c1) \<Rightarrow> send_stream a c1)"

definition send_to_control :: "frame \<Rightarrow> close_reason \<Rightarrow> conn \<Rightarrow> conn" where
  "send_to_control f dropped c =
     (case mc_control c of
        None \<Rightarrow> c
      | Some q \<Rightarrow>
          (case chan_try_send f q of
             (q', SendOk) \<Rightarrow> reader_phase_to Reading (c\<lparr>mc_control := Some q'\<rparr>)
           | (_, SendFull) \<Rightarrow> c\<lparr>mc_reader := SendingControl f dropped\<rparr>
           | (_, SendClosed) \<Rightarrow> reader_fail dropped c))"

definition forward_control :: "frame \<Rightarrow> close_reason \<Rightarrow> close_reason \<Rightarrow> conn \<Rightarrow> conn" where
  "forward_control f without dropped c =
     (if mc_control c = None then reader_fail without c else send_to_control f dropped c)"

definition send_data :: "nat \<Rightarrow> u32 \<Rightarrow> bytes \<Rightarrow> conn \<Rightarrow> conn" where
  "send_data a sid payload c =
     (case mc_cells c a of
        None \<Rightarrow> c
      | Some s \<Rightarrow>
          (case deliver payload s of
             (s', SendOk) \<Rightarrow> reader_phase_to Reading (wake_reader a (put_cell a s' c))
           | (_, SendFull) \<Rightarrow> c\<lparr>mc_reader := SendingData a sid payload\<rparr>
           | (_, SendClosed) \<Rightarrow> reader_fail (DroppedByReader sid) c))"

definition on_data :: "u32 \<Rightarrow> bytes \<Rightarrow> conn \<Rightarrow> conn" where
  "on_data sid payload c =
     (case mux_lookup sid c of
        (None, c') \<Rightarrow> reader_phase_to ReaderDone c'
      | (Some a, c') \<Rightarrow>
          (case mc_cells c' a of
             None \<Rightarrow> c'
           | Some s \<Rightarrow> if ms_peer_fin s then reader_fail (DataOnClosed sid) c' else send_data a sid payload c'))"

definition on_close :: "u32 \<Rightarrow> conn \<Rightarrow> conn" where
  "on_close sid c =
     (case mux_lookup sid c of
        (None, c') \<Rightarrow> reader_phase_to ReaderDone c'
      | (Some a, c') \<Rightarrow>
          (case mc_cells c' a of
             None \<Rightarrow> c'
           | Some s \<Rightarrow>
               if ms_peer_fin s then reader_fail (ClosedTwice sid) c'
               else
                 let c1 = put_cell a (s\<lparr>ms_peer_fin := True\<rparr>) c'
                 in if fin_sent (ms_state s) then table_remove sid c1 else c1))"

definition on_window :: "u32 \<Rightarrow> u64 \<Rightarrow> conn \<Rightarrow> conn" where
  "on_window sid credit c =
     (case mux_lookup sid c of
        (None, c') \<Rightarrow> reader_phase_to ReaderDone c'
      | (Some a, c') \<Rightarrow>
          (case mc_cells c' a of
             None \<Rightarrow> c'
           | Some s \<Rightarrow>
               (case grant_credit credit s of
                  None \<Rightarrow> reader_fail (CreditOverflow sid) c'
                | Some (s', w) \<Rightarrow> wake w (put_cell a s' c'))))"

definition teardown_stream :: "u32 \<Rightarrow> reset_error option \<Rightarrow> conn \<Rightarrow> conn" where
  "teardown_stream sid detail c =
     (case map_of (mc_table c) sid of
        None \<Rightarrow> c
      | Some a \<Rightarrow>
          let c1 = c\<lparr>mc_table := AList.delete sid (mc_table c)\<rparr>;
              c2 = upd_cell a (\<lambda>s. s\<lparr>ms_reset_detail := (case detail of None \<Rightarrow> ms_reset_detail s | Some d \<Rightarrow> Some d),
                                     ms_reset := True\<rparr>) c1
          in drop_sender a (take_write_waker a c2))"

fun reader_frame :: "frame \<Rightarrow> conn \<Rightarrow> conn" where
  "reader_frame (Open sid) c =
     (if is_relay_link c then reader_fail OpenOnRelayLink c
      else if owns_stream_id (sh_role (mc_shared c)) sid then reader_fail (LocalParity sid) c
      else push_inbound_stream sid c)"
| "reader_frame (OpenStream sid _) c =
     (case relay_link_or_fail c of
        (False, c') \<Rightarrow> reader_phase_to ReaderDone c'
      | (True, c') \<Rightarrow>
          if sid mod 2 \<noteq> 0 then reader_fail (OddOpenStream sid) c' else push_inbound_stream sid c')"
| "reader_frame (CloseStream sid) c =
     (case relay_link_or_fail c of
        (False, c') \<Rightarrow> reader_phase_to ReaderDone c'
      | (True, c') \<Rightarrow> teardown_stream sid None c')"
| "reader_frame (Error sid code message) c =
     (case relay_link_or_fail c of
        (False, c') \<Rightarrow> reader_phase_to ReaderDone c'
      | (True, c') \<Rightarrow>
          if sid = 0
          then forward_control (Error sid code message) ErrorWithoutControl ErrorReceiverDropped c'
          else teardown_stream sid (Some \<lparr>reset_code = code, reset_message = message\<rparr>) c')"
| "reader_frame (Presence node_id online) c =
     (case relay_link_or_fail c of
        (False, c') \<Rightarrow> reader_phase_to ReaderDone c'
      | (True, c') \<Rightarrow>
          forward_control (Presence node_id online) PresenceWithoutControl PresenceReceiverDropped c')"
| "reader_frame (AdminResponse seq body) c =
     (case relay_link_or_fail c of
        (False, c') \<Rightarrow> reader_phase_to ReaderDone c'
      | (True, c') \<Rightarrow>
          forward_control (AdminResponse seq body) AdminWithoutControl AdminReceiverDropped c')"
| "reader_frame (Data sid payload) c = on_data sid payload c"
| "reader_frame (Close sid) c = on_close sid c"
| "reader_frame (Window sid credit) c = on_window sid credit c"
| "reader_frame f c =
     reader_fail (if is_relay_link c then NodeOnlyFrame else ControlOnNodeLink) c"

text \<open>A parked reader retries its send when there is room, or fails when the receiver went away.\<close>

definition reader_resume :: "conn \<Rightarrow> conn" where
  "reader_resume c =
     (case mc_reader c of
        SendingData a sid payload \<Rightarrow> send_data a sid payload c
      | SendingStream a \<Rightarrow> send_stream a c
      | SendingControl f dropped \<Rightarrow> send_to_control f dropped c
      | _ \<Rightarrow> c)"

definition reader_error :: "mux_error \<Rightarrow> conn \<Rightarrow> conn" where
  "reader_error e c = reader_fail (ReadFailed e) c"

section \<open>The writer task\<close>

definition writer_return :: "conn \<Rightarrow> conn" where
  "writer_return c =
     c\<lparr>mc_writer := False,
       mc_shared := (mc_shared c)\<lparr>sh_outbound := (sh_outbound (mc_shared c))\<lparr>chan_queue := [], chan_rx_open := False\<rparr>\<rparr>\<rparr>"

text \<open>One turn of the writer with the result of \<^verbatim>\<open>write_frame\<close>.\<close>

definition writer_turn :: "mux_error option \<Rightarrow> conn \<Rightarrow> conn" where
  "writer_turn failure c =
     (case chan_recv (sh_outbound (mc_shared c)) of
        None \<Rightarrow> c
      | Some (f, out) \<Rightarrow>
          let c1 = c\<lparr>mc_shared := (mc_shared c)\<lparr>sh_outbound := out\<rparr>\<rparr>
          in case failure of
               Some e \<Rightarrow> writer_return (fail_connection (WriteFailed e) c1)
             | None \<Rightarrow> wake_outbound (c1\<lparr>mc_written := mc_written c1 @ [f]\<rparr>))"

section \<open>The application\<close>

definition accept_stream :: "conn \<Rightarrow> nat option poll \<times> conn" where
  "accept_stream c =
     (case chan_recv (mc_accept c) of
        Some (a, q) \<Rightarrow> (Ready (Some a), c\<lparr>mc_accept := q\<rparr>)
      | None \<Rightarrow> (if mc_reader c = ReaderDone then Ready None else Pending, c))"

definition read_at :: "nat \<Rightarrow> nat \<Rightarrow> nat \<Rightarrow> conn \<Rightarrow> (io_error + bytes) poll option \<times> conn" where
  "read_at waker n a c =
     (case mc_cells c a of
        None \<Rightarrow> (None, c)
      | Some s \<Rightarrow>
          (case poll_read n s (mc_shared c) of
             (r, s', sh') \<Rightarrow>
               (Some r, (put_cell a s' c)\<lparr>mc_shared := sh',
                   mc_rd_waker := (if r = Pending then (mc_rd_waker c)(a \<mapsto> waker) else mc_rd_waker c)\<rparr>)))"

definition write_at :: "nat \<Rightarrow> bytes \<Rightarrow> nat \<Rightarrow> conn \<Rightarrow> (io_error + nat) poll option \<times> conn" where
  "write_at waker buf a c =
     (case mc_cells c a of
        None \<Rightarrow> (None, c)
      | Some s \<Rightarrow>
          (case poll_write waker buf s (mc_shared c) of
             (r, s', sh') \<Rightarrow> (Some r, (put_cell a s' c)\<lparr>mc_shared := sh'\<rparr>)))"

definition shutdown_at :: "nat \<Rightarrow> nat \<Rightarrow> conn \<Rightarrow> (io_error + unit) poll option \<times> conn" where
  "shutdown_at waker a c =
     (case mc_cells c a of
        None \<Rightarrow> (None, c)
      | Some s \<Rightarrow>
          (case poll_shutdown waker s (mc_shared c) of
             (r, s', sh') \<Rightarrow> (Some r, (put_cell a s' c)\<lparr>mc_shared := sh'\<rparr>)))"

text \<open>
  Dropping the \<^verbatim>\<open>MuxConnection\<close>: both tasks are aborted and the accept queue goes with its streams;
  the stream table goes with its last owner (\<open>openers\<close>: a \<^verbatim>\<open>MuxOpener\<close> still holds it).
\<close>

definition drop_connection :: "bool \<Rightarrow> conn \<Rightarrow> conn" where
  "drop_connection openers c =
     (let c1 = writer_return (reader_phase_to ReaderDone c);
          c2 = fold drop_handle (chan_queue (mc_accept c1))
                 (c1\<lparr>mc_accept := (mc_accept c1)\<lparr>chan_queue := [], chan_rx_open := False\<rparr>\<rparr>)
      in if openers then c2 else fold drop_sender (map snd (mc_table c2)) (c2\<lparr>mc_table := []\<rparr>))"

section \<open>What the helpers leave alone\<close>

lemma put_cell_fields [simp]:
  "mc_shared (put_cell a s c) = mc_shared c" "mc_table (put_cell a s c) = mc_table c"
  "mc_next (put_cell a s c) = mc_next c" "mc_accept (put_cell a s c) = mc_accept c"
  "mc_control (put_cell a s c) = mc_control c" "mc_reader (put_cell a s c) = mc_reader c"
  "mc_writer (put_cell a s c) = mc_writer c" "mc_rd_waker (put_cell a s c) = mc_rd_waker c"
  "mc_woken (put_cell a s c) = mc_woken c" "mc_cells (put_cell a s c) = (mc_cells c)(a \<mapsto> s)"
  by (simp_all add: put_cell_def)

lemma upd_cell_fields [simp]:
  "mc_shared (upd_cell a f c) = mc_shared c" "mc_table (upd_cell a f c) = mc_table c"
  "mc_next (upd_cell a f c) = mc_next c" "mc_accept (upd_cell a f c) = mc_accept c"
  "mc_control (upd_cell a f c) = mc_control c" "mc_reader (upd_cell a f c) = mc_reader c"
  "mc_writer (upd_cell a f c) = mc_writer c" "mc_rd_waker (upd_cell a f c) = mc_rd_waker c"
  "mc_woken (upd_cell a f c) = mc_woken c"
  "mc_cells (upd_cell a f c) = (mc_cells c)(a := map_option f (mc_cells c a))"
  by (simp_all add: upd_cell_def fun_upd_idem split: option.split)

lemma wake_fields [simp]:
  "mc_shared (wake w c) = mc_shared c" "mc_table (wake w c) = mc_table c"
  "mc_next (wake w c) = mc_next c" "mc_accept (wake w c) = mc_accept c"
  "mc_control (wake w c) = mc_control c" "mc_reader (wake w c) = mc_reader c"
  "mc_writer (wake w c) = mc_writer c" "mc_rd_waker (wake w c) = mc_rd_waker c"
  "mc_cells (wake w c) = mc_cells c"
  "mc_woken (wake w c) = mc_woken c @ (case w of None \<Rightarrow> [] | Some t \<Rightarrow> [t])"
  by (simp_all add: wake_def split: option.split)

lemma wake_reader_fields [simp]:
  "mc_shared (wake_reader a c) = mc_shared c" "mc_table (wake_reader a c) = mc_table c"
  "mc_next (wake_reader a c) = mc_next c" "mc_accept (wake_reader a c) = mc_accept c"
  "mc_control (wake_reader a c) = mc_control c" "mc_reader (wake_reader a c) = mc_reader c"
  "mc_writer (wake_reader a c) = mc_writer c" "mc_cells (wake_reader a c) = mc_cells c"
  "mc_rd_waker (wake_reader a c) = (mc_rd_waker c)(a := None)"
  "mc_woken (wake_reader a c) = mc_woken c @ (case mc_rd_waker c a of None \<Rightarrow> [] | Some t \<Rightarrow> [t])"
  by (simp_all add: wake_reader_def)

lemma drop_sender_fields [simp]:
  "mc_shared (drop_sender a c) = mc_shared c" "mc_table (drop_sender a c) = mc_table c"
  "mc_next (drop_sender a c) = mc_next c" "mc_accept (drop_sender a c) = mc_accept c"
  "mc_control (drop_sender a c) = mc_control c" "mc_reader (drop_sender a c) = mc_reader c"
  "mc_writer (drop_sender a c) = mc_writer c"
  by (simp_all add: drop_sender_def)

lemma take_write_waker_fields [simp]:
  "mc_shared (take_write_waker a c) = mc_shared c" "mc_table (take_write_waker a c) = mc_table c"
  "mc_next (take_write_waker a c) = mc_next c" "mc_accept (take_write_waker a c) = mc_accept c"
  "mc_control (take_write_waker a c) = mc_control c" "mc_reader (take_write_waker a c) = mc_reader c"
  "mc_writer (take_write_waker a c) = mc_writer c" "mc_rd_waker (take_write_waker a c) = mc_rd_waker c"
  "mc_cells (take_write_waker a c) = (mc_cells c)(a := map_option (set_write_waker None) (mc_cells c a))"
  by (simp_all add: take_write_waker_def fun_upd_idem split: option.split)

lemma drop_handle_fields [simp]:
  "mc_shared (drop_handle a c) = mc_shared c" "mc_table (drop_handle a c) = mc_table c"
  "mc_next (drop_handle a c) = mc_next c" "mc_accept (drop_handle a c) = mc_accept c"
  "mc_control (drop_handle a c) = mc_control c" "mc_reader (drop_handle a c) = mc_reader c"
  "mc_writer (drop_handle a c) = mc_writer c" "mc_rd_waker (drop_handle a c) = mc_rd_waker c"
  "mc_woken (drop_handle a c) = mc_woken c"
  by (simp_all add: drop_handle_def)

lemma drain_entries_fields [simp]:
  "mc_shared (drain_entries es c) = mc_shared c" "mc_table (drain_entries es c) = mc_table c"
  "mc_next (drain_entries es c) = mc_next c" "mc_accept (drain_entries es c) = mc_accept c"
  "mc_control (drain_entries es c) = mc_control c" "mc_reader (drain_entries es c) = mc_reader c"
  "mc_writer (drain_entries es c) = mc_writer c"
  by (induction es arbitrary: c) simp_all

lemma fail_connection_fields [simp]:
  "mc_next (fail_connection r c) = mc_next c" "mc_accept (fail_connection r c) = mc_accept c"
  "mc_control (fail_connection r c) = mc_control c" "mc_reader (fail_connection r c) = mc_reader c"
  "mc_writer (fail_connection r c) = mc_writer c"
  "sh_dead (mc_shared (fail_connection r c))"
  "sh_role (mc_shared (fail_connection r c)) = sh_role (mc_shared c)"
  "sh_mode (mc_shared (fail_connection r c)) = sh_mode (mc_shared c)"
  "sh_next_local_id (mc_shared (fail_connection r c)) = sh_next_local_id (mc_shared c)"
  "sh_outbound (mc_shared (fail_connection r c)) = sh_outbound (mc_shared c)"
  "sh_outbound_waker (mc_shared (fail_connection r c)) = sh_outbound_waker (mc_shared c)"
  by (simp_all add: fail_connection_eq)

lemma fail_connection_dead [simp]: "mc_dead c \<Longrightarrow> fail_connection r c = c"
  by (simp add: fail_connection_eq)

lemma fail_connection_alive:
  "\<not> mc_dead c \<Longrightarrow> mc_table (fail_connection r c) = [] \<and>
     sh_close_reason (mc_shared (fail_connection r c)) = Some r \<and> sh_shutdown (mc_shared (fail_connection r c))"
  by (simp add: fail_connection_eq)

lemma fail_connection_table: "set (mc_table (fail_connection r c)) \<subseteq> set (mc_table c)"
  by (simp add: fail_connection_eq)

lemma table_remove_fields [simp]:
  "mc_shared (table_remove sid c) = mc_shared c" "mc_next (table_remove sid c) = mc_next c"
  "mc_accept (table_remove sid c) = mc_accept c" "mc_control (table_remove sid c) = mc_control c"
  "mc_reader (table_remove sid c) = mc_reader c" "mc_writer (table_remove sid c) = mc_writer c"
  "mc_table (table_remove sid c) = AList.delete sid (mc_table c)"
  by (simp_all add: table_remove_def delete_id split: option.split)
    (auto simp: map_of_eq_None_iff intro: delete_id)

lemma reader_phase_to_fields [simp]:
  "mc_shared (reader_phase_to p c) = mc_shared c" "mc_table (reader_phase_to p c) = mc_table c"
  "mc_next (reader_phase_to p c) = mc_next c" "mc_accept (reader_phase_to p c) = mc_accept c"
  "mc_control (reader_phase_to p c) = mc_control c" "mc_reader (reader_phase_to p c) = p"
  "mc_writer (reader_phase_to p c) = mc_writer c"
  by (simp_all add: reader_phase_to_def split: reader_phase.split)

section \<open>Steps\<close>

text \<open>
  The interleavings of one connection: the reader task, the writer task and the application's calls.
  An open is two steps, the insertion and the send of its opening frame, because the check of the
  dead flag, the insertion and the send are not atomic with respect to the tasks: between them the
  connection may fail. The check may have been made at any earlier time.
\<close>

inductive conn_step :: "conn \<Rightarrow> conn \<Rightarrow> bool" where
  frame: "mc_reader c = Reading \<Longrightarrow> conn_step c (reader_frame f c)"
| read_failed: "mc_reader c = Reading \<Longrightarrow> conn_step c (reader_error e c)"
| reader_stop: "mc_reader c = Reading \<Longrightarrow> sh_shutdown (mc_shared c)
    \<Longrightarrow> conn_step c (reader_phase_to ReaderDone c)"
| resume: "conn_step c (reader_resume c)"
| writer: "mc_writer c \<Longrightarrow> conn_step c (writer_turn failure c)"
| writer_stop: "mc_writer c \<Longrightarrow> sh_shutdown (mc_shared c) \<Longrightarrow> conn_step c (writer_return c)"
| send: "mc_cells c a = Some s \<Longrightarrow> f \<in> {Open (ms_id s), OpenStream (ms_id s) target}
    \<Longrightarrow> conn_step c (snd (open_send f (ms_id s) a c))"
| control: "conn_step c (snd (send_control f c))"
| accept: "conn_step c (snd (accept_stream c))"
| poll_read: "conn_step c (snd (read_at w n a c))"
| poll_write: "conn_step c (snd (write_at w buf a c))"
| poll_shutdown: "conn_step c (snd (shutdown_at w a c))"
| drop_stream: "conn_step c (drop_handle a c)"
| drop_conn: "conn_step c (drop_connection openers c)"

text \<open>\<open>conn_reach c n c'\<close>: from \<open>c\<close> the connection gets to \<open>c'\<close> with \<open>n\<close> streams opened locally.\<close>

inductive conn_reach :: "conn \<Rightarrow> nat \<Rightarrow> conn \<Rightarrow> bool" for c0 where
  start: "conn_reach c0 0 c0"
| opened: "conn_reach c0 n c \<Longrightarrow> conn_reach c0 (Suc n) (snd (open_insert c))"
| moved: "conn_reach c0 n c \<Longrightarrow> conn_step c c' \<Longrightarrow> conn_reach c0 n c'"

definition same_link :: "shared \<Rightarrow> shared \<Rightarrow> bool" where
  "same_link sh sh' \<longleftrightarrow>
     sh_dead sh' = sh_dead sh \<and> sh_close_reason sh' = sh_close_reason sh \<and>
     sh_shutdown sh' = sh_shutdown sh \<and> sh_role sh' = sh_role sh \<and> sh_mode sh' = sh_mode sh \<and>
     sh_next_local_id sh' = sh_next_local_id sh"

lemma same_link_refl [simp]: "same_link sh sh"
  by (simp add: same_link_def)

lemma poll_read_same_link:
  assumes "poll_read n s sh = (r, s', sh')"
  shows "same_link sh sh'"
proof -
  have acc: "same_link sh sh2" if "account_consumed k t sh = (t2, sh2)" for k t t2 sh2
    using that by (cases rule: account_consumed_cases [of t k sh]) (auto simp: same_link_def)
  show ?thesis
    using assms
    by (auto simp: poll_read_def Let_def intro: acc split: if_splits option.splits prod.splits)
qed

lemma poll_write_same_link:
  assumes "poll_write w buf s sh = (r, s', sh')"
  shows "same_link sh sh'"
  using assms
  by (auto simp: poll_write_def Let_def same_link_def park_outbound_def
      split: if_splits prod.splits send_result.splits)

lemma poll_shutdown_same_link:
  assumes "poll_shutdown w s sh = (r, s', sh')"
  shows "same_link sh sh'"
  using assms
  by (auto simp: poll_shutdown_def Let_def same_link_def park_outbound_def
      split: if_splits prod.splits send_result.splits)

lemma table_insert_new_eq:
  assumes "table_insert_new sid c = (a, occ, c1)"
  shows "a = mc_next c" "occ \<longleftrightarrow> map_of (mc_table c) sid \<noteq> None" "mc_shared c1 = mc_shared c"
    "mc_table c1 = AList.update sid (mc_next c) (mc_table c)" "mc_next c1 = Suc (mc_next c)"
    "mc_reader c1 = mc_reader c" "mc_control c1 = mc_control c" "mc_accept c1 = mc_accept c"
  using assms
  by (auto simp: table_insert_new_def Let_def split: option.splits)

text \<open>Every step keeps the role and the mode, and the state of the first failure.\<close>

definition link_mono :: "shared \<Rightarrow> shared \<Rightarrow> bool" where
  "link_mono sh sh' \<longleftrightarrow>
     sh_role sh' = sh_role sh \<and> sh_mode sh' = sh_mode sh \<and>
     (sh_dead sh \<longrightarrow> sh_dead sh' \<and> sh_close_reason sh' = sh_close_reason sh) \<and>
     (\<not> sh_dead sh' \<longrightarrow> sh_close_reason sh' = sh_close_reason sh) \<and>
     (\<not> sh_dead sh \<and> sh_dead sh' \<longrightarrow> sh_close_reason sh' \<noteq> None)"

lemma link_mono_refl [simp]: "link_mono sh sh"
  by (simp add: link_mono_def)

lemma link_mono_trans: "link_mono a b \<Longrightarrow> link_mono b c \<Longrightarrow> link_mono a c"
  unfolding link_mono_def by metis

lemma same_link_mono: "same_link a b \<Longrightarrow> link_mono a b"
  by (simp add: link_mono_def same_link_def)

lemma fail_connection_mono [simp]: "link_mono (mc_shared c) (mc_shared (fail_connection r c))"
  using fail_connection_alive [of c r] by (cases "mc_dead c") (simp_all add: link_mono_def)

lemma reader_fail_fields [simp]:
  "mc_shared (reader_fail r c) = mc_shared (fail_connection r c)"
  "mc_table (reader_fail r c) = mc_table (fail_connection r c)"
  "mc_next (reader_fail r c) = mc_next c" "mc_reader (reader_fail r c) = ReaderDone"
  by (simp_all add: reader_fail_def)

lemma send_stream_mono [simp]: "link_mono (mc_shared c) (mc_shared (send_stream a c))"
  by (simp add: send_stream_def split: prod.split send_result.split)

lemma send_to_control_mono [simp]: "link_mono (mc_shared c) (mc_shared (send_to_control f r c))"
  by (simp add: send_to_control_def split: prod.split send_result.split option.split)

lemma forward_control_mono [simp]: "link_mono (mc_shared c) (mc_shared (forward_control f w r c))"
  by (simp add: forward_control_def)

lemma send_data_mono [simp]: "link_mono (mc_shared c) (mc_shared (send_data a sid p c))"
  by (simp add: send_data_def split: prod.split send_result.split option.split)

lemma push_inbound_stream_mono [simp]: "link_mono (mc_shared c) (mc_shared (push_inbound_stream sid c))"
proof -
  obtain a occ c1 where new: "table_insert_new sid c = (a, occ, c1)" by (cases "table_insert_new sid c")
  have "link_mono (mc_shared c1) (mc_shared (send_stream a c1))"
    "link_mono (mc_shared c1) (mc_shared (fail_connection r c1))" for r
    by simp_all
  then show ?thesis
    using table_insert_new_eq(3) [OF new] by (simp add: push_inbound_stream_def new split: bool.split)
qed

lemma mux_lookup_mono: "mux_lookup sid c = (r, c') \<Longrightarrow> link_mono (mc_shared c) (mc_shared c')"
  by (auto simp: mux_lookup_def split: option.splits)

lemma on_data_mono [simp]: "link_mono (mc_shared c) (mc_shared (on_data sid p c))"
  by (simp add: on_data_def mux_lookup_def split: option.split)

lemma on_close_mono [simp]: "link_mono (mc_shared c) (mc_shared (on_close sid c))"
  by (simp add: on_close_def mux_lookup_def Let_def split: option.split)

lemma on_window_mono [simp]: "link_mono (mc_shared c) (mc_shared (on_window sid credit c))"
  by (simp add: on_window_def mux_lookup_def split: option.split prod.split)

lemma teardown_stream_fields [simp]:
  "mc_shared (teardown_stream sid d c) = mc_shared c" "mc_next (teardown_stream sid d c) = mc_next c"
  "mc_reader (teardown_stream sid d c) = mc_reader c" "mc_accept (teardown_stream sid d c) = mc_accept c"
  "mc_control (teardown_stream sid d c) = mc_control c"
  "mc_table (teardown_stream sid d c) = AList.delete sid (mc_table c)"
  by (simp_all add: teardown_stream_def Let_def split: option.split)
    (auto simp: map_of_eq_None_iff intro: delete_id)

lemma reader_frame_mono [simp]: "link_mono (mc_shared c) (mc_shared (reader_frame f c))"
  by (cases f) (simp_all add: relay_link_or_fail_def)

lemma open_insert_mono [simp]: "link_mono (mc_shared c) (mc_shared (snd (open_insert c)))"
proof -
  define c0 where "c0 = c\<lparr>mc_shared := (mc_shared c)\<lparr>sh_next_local_id := sh_next_local_id (mc_shared c) + 2\<rparr>\<rparr>"
  obtain a occ c1 where new: "table_insert_new (sh_next_local_id (mc_shared c)) c0 = (a, occ, c1)"
    by (cases "table_insert_new (sh_next_local_id (mc_shared c)) c0")
  have "link_mono (mc_shared c) (mc_shared c1)"
    using table_insert_new_eq(3) [OF new] by (simp add: c0_def link_mono_def)
  moreover have "link_mono (mc_shared c1) (mc_shared (fail_connection r c1))" for r
    by simp
  ultimately show ?thesis
    by (auto simp: open_insert_def Let_def new c0_def [symmetric] intro: link_mono_trans split: bool.split)
qed

lemma fold_shared:
  assumes "\<And>x c. mc_shared (f x c) = mc_shared c"
  shows "mc_shared (fold f xs c) = mc_shared c"
  by (induction xs arbitrary: c) (simp_all add: assms)

lemma link_mono_outbound [simp]:
  "link_mono sh (sh\<lparr>sh_outbound := q\<rparr>)" "link_mono sh (sh\<lparr>sh_outbound_waker := w\<rparr>)"
  "link_mono sh (sh\<lparr>sh_outbound := q, sh_outbound_waker := w\<rparr>)"
  by (simp_all add: link_mono_def)

lemma writer_turn_mono [simp]: "link_mono (mc_shared c) (mc_shared (writer_turn failure c))"
proof (cases "chan_recv (sh_outbound (mc_shared c))")
  case None
  then show ?thesis by (simp add: writer_turn_def)
next
  case (Some p)
  then obtain f out where p: "chan_recv (sh_outbound (mc_shared c)) = Some (f, out)" by (cases p) auto
  define c1 where "c1 = c\<lparr>mc_shared := (mc_shared c)\<lparr>sh_outbound := out\<rparr>\<rparr>"
  have c1: "link_mono (mc_shared c) (mc_shared c1)" by (simp add: c1_def)
  have "link_mono (mc_shared c) (mc_shared (fail_connection r c1))" for r by (rule link_mono_trans [OF c1]) simp
  then have "link_mono (mc_shared c) (mc_shared (writer_return (fail_connection r c1)))" for r
    unfolding writer_return_def by (simp add: link_mono_trans [OF _ link_mono_outbound(1)])
  moreover have "link_mono (mc_shared c) (mc_shared (wake_outbound (c1\<lparr>mc_written := ws\<rparr>)))" for ws
    unfolding wake_outbound_def by (simp add: link_mono_trans [OF c1 link_mono_outbound(2)])
  ultimately show ?thesis unfolding writer_turn_def p by (simp add: Let_def c1_def [symmetric] split: option.split)
qed

lemma conn_step_mono: "conn_step c c' \<Longrightarrow> link_mono (mc_shared c) (mc_shared c')"
proof (induction rule: conn_step.induct)
  case (resume c)
  then show ?case by (simp add: reader_resume_def split: reader_phase.split)
next
  case (send c a s f target)
  then show ?case by (simp add: open_send_def split: prod.split send_result.split)
next
  case (control c f)
  then show ?case by (simp add: send_control_def split: prod.split send_result.split option.split)
next
  case (accept c)
  then show ?case by (simp add: accept_stream_def split: prod.split option.split)
next
  case (poll_read c w n a)
  then show ?case
    by (simp add: read_at_def split: prod.split option.split) (blast intro: same_link_mono poll_read_same_link)
next
  case (poll_write c w buf a)
  then show ?case
    by (simp add: write_at_def split: prod.split option.split) (blast intro: same_link_mono poll_write_same_link)
next
  case (poll_shutdown c w a)
  then show ?case
    by (simp add: shutdown_at_def split: prod.split option.split)
      (blast intro: same_link_mono poll_shutdown_same_link)
next
  case (drop_conn c openers)
  then show ?case by (simp add: drop_connection_def Let_def fold_shared writer_return_def)
qed (simp_all add: reader_error_def writer_return_def)

text \<open>
  Runs in which the parts of a failing call come one at a time. Only the call that finds the flag unset goes on after it, so
  there is at most one such call, and \<open>fail_phase\<close> is where it is; any other call of \<open>fail_connection\<close> returns at the flag.
\<close>

datatype fail_phase = NoFailure | Storing close_reason | Signalling | Draining

inductive fail_step :: "conn \<times> fail_phase \<Rightarrow> conn \<times> fail_phase \<Rightarrow> bool" where
  moved: "conn_step c c' \<Longrightarrow> fail_step (c, p) (c', p)"
| opened: "fail_step (c, p) (snd (open_insert c), p)"
| swap: "\<not> mc_dead c \<Longrightarrow> fail_step (c, NoFailure) (fail_swap c, Storing r)"
| store: "fail_step (c, Storing r) (fail_store r c, Signalling)"
| signal: "fail_step (c, Signalling) (fail_signal c, Draining)"
| drain: "fail_step (c, Draining) (fail_drain c, NoFailure)"

inductive fail_reach :: "conn \<times> fail_phase \<Rightarrow> conn \<times> fail_phase \<Rightarrow> bool" for x where
  start: "fail_reach x x"
| step: "fail_reach x y \<Longrightarrow> fail_step y z \<Longrightarrow> fail_reach x z"

text \<open>The reason of a failure: the recorded one, or the one its call is about to record.\<close>

definition failed_with :: "close_reason \<Rightarrow> conn \<times> fail_phase \<Rightarrow> bool" where
  "failed_with r x \<longleftrightarrow>
     mc_dead (fst x) \<and>
     (snd x = Storing r \<and> sh_close_reason (mc_shared (fst x)) = None \<or>
      (\<forall>r'. snd x \<noteq> Storing r') \<and> sh_close_reason (mc_shared (fst x)) = Some r)"

definition fail_inv :: "conn \<times> fail_phase \<Rightarrow> bool" where
  "fail_inv x \<longleftrightarrow>
     (if mc_dead (fst x) then \<exists>r. failed_with r x else snd x = NoFailure \<and> sh_close_reason (mc_shared (fst x)) = None)"

lemma fail_parts_fields [simp]:
  "mc_shared (fail_drain c) = mc_shared c" "mc_shared (fail_swap c) = (mc_shared c)\<lparr>sh_dead := True\<rparr>"
  "mc_shared (fail_store r c) = (mc_shared c)\<lparr>sh_close_reason := Some r\<rparr>"
  "mc_shared (fail_signal c) = (mc_shared c)\<lparr>sh_shutdown := True\<rparr>"
  by (simp_all add: fail_drain_def fail_swap_def fail_store_def fail_signal_def)

lemma fail_inv_mono:
  assumes "link_mono (mc_shared c) (mc_shared c')" "fail_inv (c, p)"
  shows "fail_inv (c', p)" and "failed_with r (c, p) \<Longrightarrow> failed_with r (c', p)"
proof -
  note m = assms(1) [unfolded link_mono_def]
  show "fail_inv (c', p)" using m assms(2) by (auto simp: fail_inv_def failed_with_def split: if_splits)
  show "failed_with r (c', p)" if "failed_with r (c, p)" using m that by (simp add: failed_with_def)
qed

lemma fail_step_inv:
  assumes "fail_step x y" "fail_inv x"
  shows "fail_inv y \<and> (\<forall>r. failed_with r x \<longrightarrow> failed_with r y)"
  using assms
proof (cases rule: fail_step.cases)
  case (moved c c' p)
  then show ?thesis using fail_inv_mono [OF conn_step_mono, of c c' p] assms(2) by blast
next
  case (opened c p)
  then show ?thesis using fail_inv_mono [OF open_insert_mono, of c p] assms(2) by blast
qed (use assms(2) in \<open>auto simp: fail_inv_def failed_with_def split: if_splits\<close>)

lemma fail_reach_inv: "fail_reach x y \<Longrightarrow> fail_inv x \<Longrightarrow> fail_inv y \<and> (\<forall>r. failed_with r x \<longrightarrow> failed_with r y)"
  by (induction rule: fail_reach.induct) (use fail_step_inv in blast)+

text \<open>A recorded reason stays.\<close>

definition recorded :: "close_reason \<Rightarrow> conn \<times> fail_phase \<Rightarrow> bool" where
  "recorded r x \<longleftrightarrow> mc_dead (fst x) \<and> sh_close_reason (mc_shared (fst x)) = Some r"

lemma recorded_step:
  assumes "fail_step x y" "fail_inv x" "recorded r x"
  shows "recorded r y"
  using assms(1)
proof (cases rule: fail_step.cases)
  case (moved c c' p)
  then show ?thesis using assms(3) conn_step_mono [of c c'] by (simp add: recorded_def link_mono_def)
next
  case (opened c p)
  then show ?thesis using assms(3) open_insert_mono [of c] by (simp add: recorded_def link_mono_def)
qed (use assms(2,3) in \<open>auto simp: recorded_def fail_inv_def failed_with_def split: if_splits\<close>)

lemma recorded_reach: "fail_reach x y \<Longrightarrow> fail_inv x \<Longrightarrow> recorded r x \<Longrightarrow> recorded r y"
  by (induction rule: fail_reach.induct) (use recorded_step fail_reach_inv in blast)+

text \<open>
  C9: the first failure wins. In every run from a new connection, with the parts of a failing call interleaved with
  everything the reader task, the writer task and the application do, a failed connection has one reason, that of the call
  that set the flag. From then on it stays failed, and what a stream reports is that reason; only while the call has not
  yet recorded it the report is the generic one, and a reason once reported never changes.
\<close>

theorem first_failure_sticks:
  assumes "fail_reach (conn_build role mode control, NoFailure) (c, p)" "mc_dead c"
  shows "\<exists>r. dead_reason (mc_shared c) = (if p = Storing r then GenericClosed else r) \<and>
    (\<forall>c' p'. fail_reach (c, p) (c', p') \<longrightarrow>
       mc_dead c' \<and> (p' = Storing r \<longrightarrow> p = Storing r) \<and> dead_reason (mc_shared c') = (if p' = Storing r then GenericClosed else r))"
proof -
  have start: "fail_inv (conn_build role mode control, NoFailure)"
    by (simp add: fail_inv_def conn_build_def shared_new_def)
  note inv = fail_reach_inv [OF assms(1) start, THEN conjunct1]
  then obtain r where r: "failed_with r (c, p)" using assms(2) by (auto simp: fail_inv_def)
  have report: "dead_reason (mc_shared c') = (if p' = Storing r then GenericClosed else r)" if "failed_with r (c', p')" for c' p'
    using that by (auto simp: failed_with_def dead_reason_def)
  have "p' \<noteq> Storing r \<or> p = Storing r" if "fail_reach (c, p) (c', p')" for c' p'
    using recorded_reach [OF that inv, of r] r fail_reach_inv [OF that inv] by (auto simp: failed_with_def recorded_def)
  moreover have "mc_dead c' \<and> dead_reason (mc_shared c') = (if p' = Storing r then GenericClosed else r)"
    if "fail_reach (c, p) (c', p')" for c' p'
    using fail_reach_inv [OF that inv] r report [of c' p'] by (auto simp: failed_with_def)
  ultimately show ?thesis using report [OF r] by blast
qed

text \<open>
  The reader task fails a connection on a control frame; between its setting the flag and its recording the reason the
  writer task fails on a write, and its call returns at the flag.
\<close>

definition race_start :: conn where
  "race_start = fail_swap (snd (open_insert (conn_build Client NodeToNode None)))"

definition race_end :: conn where
  "race_end = fail_store ControlOnNodeLink (fail_connection (WriteFailed TruncatedFrame) race_start)"

theorem first_failure_sticks_witness:
  "mc_dead race_start \<and> dead_reason (mc_shared race_start) = GenericClosed \<and> mc_dead race_end \<and>
   dead_reason (mc_shared race_end) = ControlOnNodeLink"
proof -
  let ?c0 = "snd (open_insert (conn_build Client NodeToNode None))"
  have alive: "\<not> mc_dead ?c0" "mc_dead race_start" "dead_reason (mc_shared race_start) = GenericClosed"
    by (simp_all add: race_start_def conn_build_def shared_new_def open_insert_def table_insert_new_def dead_reason_def Let_def)
  have "fail_reach (conn_build Client NodeToNode None, NoFailure) (race_start, Storing ControlOnNodeLink)"
    unfolding race_start_def
    by (rule fail_reach.step [OF fail_reach.step [OF fail_reach.start fail_step.opened] fail_step.swap [OF alive(1)]])
  from first_failure_sticks [OF this alive(2)] obtain r where
    r: "dead_reason (mc_shared race_start) = (if Storing ControlOnNodeLink = Storing r then GenericClosed else r)"
      "\<And>c' p'. fail_reach (race_start, Storing ControlOnNodeLink) (c', p') \<Longrightarrow>
         mc_dead c' \<and> dead_reason (mc_shared c') = (if p' = Storing r then GenericClosed else r)"
    by blast
  have eq: "race_end = fail_store ControlOnNodeLink race_start" using alive(2) by (simp add: race_end_def)
  have "fail_reach (race_start, Storing ControlOnNodeLink) (race_end, Signalling)"
    unfolding eq by (rule fail_reach.step [OF fail_reach.start fail_step.store])
  from r(2) [OF this] have "mc_dead race_end" "dead_reason (mc_shared race_end) = r" by simp_all
  moreover have "dead_reason (mc_shared race_end) = ControlOnNodeLink" by (simp add: eq dead_reason_def)
  ultimately show ?thesis using alive by simp
qed

section \<open>The stream table\<close>

definition cell_ids :: "conn \<Rightarrow> nat \<rightharpoonup> u32" where
  "cell_ids c = (\<lambda>a. map_option ms_id (mc_cells c a))"

definition local_id :: "mux_role \<Rightarrow> nat \<Rightarrow> u32" where
  "local_id role i = first_stream_id role + 2 * word_of_nat i"

text \<open>
  The invariant after \<open>n\<close> local opens: the table has one entry per id and each leads to the cell
  of that id, cells are allocated below \<open>mc_next\<close>, and the ids of local parity in the table are
  among the first \<open>n\<close> the counter gave out.
\<close>

definition entry_ok :: "nat \<Rightarrow> conn \<Rightarrow> u32 \<Rightarrow> nat \<Rightarrow> bool" where
  "entry_ok n c sid a \<longleftrightarrow>
     cell_ids c a = Some sid \<and>
     (owns_stream_id (sh_role (mc_shared c)) sid \<longrightarrow> sid \<in> local_id (sh_role (mc_shared c)) ` {..<n})"

definition phase_ok :: "(nat \<rightharpoonup> u32) \<Rightarrow> reader_phase \<Rightarrow> bool" where
  "phase_ok ids p = (case p of SendingData a sid _ \<Rightarrow> ids a = Some sid | _ \<Rightarrow> True)"

definition conn_inv :: "nat \<Rightarrow> conn \<Rightarrow> bool" where
  "conn_inv n c \<longleftrightarrow>
     keys_distinct (mc_table c) \<and>
     (\<forall>(sid, a) \<in> set (mc_table c). entry_ok n c sid a) \<and>
     dom (cell_ids c) \<subseteq> {..<mc_next c} \<and> phase_ok (cell_ids c) (mc_reader c) \<and>
     (sh_mode (mc_shared c) = RelayLink \<longrightarrow> sh_role (mc_shared c) = Client) \<and>
     sh_next_local_id (mc_shared c) = local_id (sh_role (mc_shared c)) n"

lemma conn_inv_sub:
  assumes "conn_inv n c" "set (mc_table c') \<subseteq> set (mc_table c)" "keys_distinct (mc_table c')"
    "cell_ids c' = cell_ids c" "mc_next c' = mc_next c"
    "sh_role (mc_shared c') = sh_role (mc_shared c)" "sh_mode (mc_shared c') = sh_mode (mc_shared c)"
    "sh_next_local_id (mc_shared c') = sh_next_local_id (mc_shared c)"
    "mc_reader c' = mc_reader c \<or> (\<forall>a sid p. mc_reader c' \<noteq> SendingData a sid p)"
  shows "conn_inv n c'"
proof -
  have "phase_ok (cell_ids c) (mc_reader c')"
    using assms(1,9) by (auto simp: conn_inv_def phase_ok_def split: reader_phase.splits)
  moreover have "entry_ok n c' = entry_ok n c"
    using assms(4,6) by (simp add: entry_ok_def fun_eq_iff)
  ultimately show ?thesis
    using assms(1-8) unfolding conn_inv_def by auto
qed

lemma cell_ids_put: "cell_ids (put_cell a s c) = (cell_ids c)(a \<mapsto> ms_id s)"
  by (auto simp: cell_ids_def)

lemma cell_ids_put_same: "mc_cells c a = Some s \<Longrightarrow> ms_id s' = ms_id s \<Longrightarrow> cell_ids (put_cell a s' c) = cell_ids c"
  by (auto simp: cell_ids_def)

lemma cell_ids_upd: "(\<And>s. ms_id (f s) = ms_id s) \<Longrightarrow> cell_ids (upd_cell a f c) = cell_ids c"
  by (auto simp: cell_ids_def option.map_comp comp_def)

lemma cell_ids_fields [simp]:
  "cell_ids (c\<lparr>mc_shared := x\<rparr>) = cell_ids c" "cell_ids (c\<lparr>mc_table := t\<rparr>) = cell_ids c"
  "cell_ids (c\<lparr>mc_reader := p\<rparr>) = cell_ids c" "cell_ids (c\<lparr>mc_accept := q\<rparr>) = cell_ids c"
  "cell_ids (c\<lparr>mc_control := r\<rparr>) = cell_ids c" "cell_ids (c\<lparr>mc_rd_waker := w\<rparr>) = cell_ids c"
  "cell_ids (c\<lparr>mc_writer := b\<rparr>) = cell_ids c" "cell_ids (c\<lparr>mc_written := fs\<rparr>) = cell_ids c"
  "cell_ids (c\<lparr>mc_next := m\<rparr>) = cell_ids c" "cell_ids (c\<lparr>mc_woken := ws\<rparr>) = cell_ids c"
  by (simp_all add: cell_ids_def)

lemma cell_ids_helpers [simp]:
  "cell_ids (wake w c) = cell_ids c" "cell_ids (wake_reader a c) = cell_ids c"
  "cell_ids (drop_sender a c) = cell_ids c" "cell_ids (take_write_waker a c) = cell_ids c"
  "cell_ids (drop_handle a c) = cell_ids c" "cell_ids (drain_entries es c) = cell_ids c"
  "cell_ids (fail_connection r c) = cell_ids c" "cell_ids (table_remove sid c) = cell_ids c"
  "cell_ids (reader_phase_to p c) = cell_ids c" "cell_ids (reader_fail r c) = cell_ids c"
proof -
  show w: "cell_ids (wake w c) = cell_ids c" for w c by (simp add: cell_ids_def)
  show wr: "cell_ids (wake_reader a c) = cell_ids c" for a c by (simp add: cell_ids_def)
  show ds: "cell_ids (drop_sender a c) = cell_ids c" for a c
    by (simp add: drop_sender_def wr cell_ids_upd)
  show tw: "cell_ids (take_write_waker a c) = cell_ids c" for a c
    by (auto simp: cell_ids_def set_write_waker_def option.map_comp comp_def)
  show "cell_ids (drop_handle a c) = cell_ids c" by (simp add: drop_handle_def cell_ids_upd)
  show de: "cell_ids (drain_entries es c) = cell_ids c" for es c
    by (induction es arbitrary: c) (simp_all add: ds tw)
  show fc: "cell_ids (fail_connection r c) = cell_ids c" for r c by (simp add: fail_connection_eq de)
  show "cell_ids (table_remove sid c) = cell_ids c" by (simp add: table_remove_def ds split: option.split)
  show rp: "cell_ids (reader_phase_to p c) = cell_ids c" for p c
    by (simp add: reader_phase_to_def ds split: reader_phase.split)
  show "cell_ids (reader_fail r c) = cell_ids c" by (simp add: reader_fail_def rp fc)
qed

lemma keys_distinct_fail: "keys_distinct (mc_table c) \<Longrightarrow> keys_distinct (mc_table (fail_connection r c))"
  by (simp add: fail_connection_eq)

lemma conn_inv_distinct: "conn_inv n c \<Longrightarrow> keys_distinct (mc_table c)"
  by (simp add: conn_inv_def)

lemma conn_inv_fields [simp]:
  "conn_inv n (c\<lparr>mc_accept := q\<rparr>) = conn_inv n c" "conn_inv n (c\<lparr>mc_control := r\<rparr>) = conn_inv n c"
  "conn_inv n (c\<lparr>mc_rd_waker := w\<rparr>) = conn_inv n c" "conn_inv n (c\<lparr>mc_written := fs\<rparr>) = conn_inv n c"
  "conn_inv n (c\<lparr>mc_writer := b\<rparr>) = conn_inv n c"
  by (simp_all add: conn_inv_def entry_ok_def)

lemma delete_subset: "set (AList.delete k m) \<subseteq> set m"
  by (auto simp: AList.delete_eq)

lemma conn_inv_helpers [inv_intro]:
  assumes "conn_inv n c"
  shows "conn_inv n (wake w c)" "conn_inv n (wake_reader a c)" "conn_inv n (drop_sender a c)"
    "conn_inv n (take_write_waker a c)" "conn_inv n (drop_handle a c)" "conn_inv n (fail_connection r c)"
    "conn_inv n (table_remove sid c)"
  by (rule conn_inv_sub [OF assms];
      simp add: conn_inv_distinct [OF assms] fail_connection_table keys_distinct_fail delete_subset)+

lemma conn_inv_phase [inv_intro]:
  assumes "conn_inv n c"
  shows "(\<And>a sid q. p \<noteq> SendingData a sid q) \<Longrightarrow> conn_inv n (reader_phase_to p c)"
    "(\<And>a sid q. p \<noteq> SendingData a sid q) \<Longrightarrow> conn_inv n (c\<lparr>mc_reader := p\<rparr>)"
    "cell_ids c a = Some sid \<Longrightarrow> conn_inv n (c\<lparr>mc_reader := SendingData a sid q\<rparr>)"
proof -
  show "conn_inv n (reader_phase_to p c)" if "\<And>a sid q. p \<noteq> SendingData a sid q"
    by (rule conn_inv_sub [OF assms]; simp add: conn_inv_distinct [OF assms] that)
  show "conn_inv n (c\<lparr>mc_reader := p\<rparr>)" if "\<And>a sid q. p \<noteq> SendingData a sid q"
    by (rule conn_inv_sub [OF assms]; simp add: conn_inv_distinct [OF assms] that)
  show "conn_inv n (c\<lparr>mc_reader := SendingData a sid q\<rparr>)" if "cell_ids c a = Some sid"
    using assms that by (simp add: conn_inv_def entry_ok_def phase_ok_def)
qed

lemma conn_inv_reader_fail [inv_intro]: "conn_inv n c \<Longrightarrow> conn_inv n (reader_fail r c)"
  by (simp add: reader_fail_def inv_intro)

lemma conn_inv_put [inv_intro]:
  "conn_inv n c \<Longrightarrow> mc_cells c a = Some s \<Longrightarrow> ms_id s' = ms_id s \<Longrightarrow> conn_inv n (put_cell a s' c)"
  by (rule conn_inv_sub) (auto simp: conn_inv_distinct cell_ids_put_same)

lemma conn_inv_shared [inv_intro]:
  "conn_inv n c \<Longrightarrow> sh_role sh = sh_role (mc_shared c) \<Longrightarrow> sh_mode sh = sh_mode (mc_shared c)
    \<Longrightarrow> sh_next_local_id sh = sh_next_local_id (mc_shared c) \<Longrightarrow> conn_inv n (c\<lparr>mc_shared := sh\<rparr>)"
  by (rule conn_inv_sub) (auto simp: conn_inv_distinct)

lemma conn_inv_entry:
  "conn_inv n c \<Longrightarrow> map_of (mc_table c) sid = Some a \<Longrightarrow> \<exists>s. mc_cells c a = Some s \<and> ms_id s = sid"
  by (auto simp: conn_inv_def entry_ok_def cell_ids_def dest!: map_of_SomeD)

lemma local_id_inj:
  assumes "local_id role i = local_id role j" "i < 2 ^ 31" "j < 2 ^ 31"
  shows "i = j"
proof -
  have "(word_of_nat (2 * i) :: u32) = word_of_nat (2 * j)"
    using assms(1) by (simp add: local_id_def)
  then have "unat (word_of_nat (2 * i) :: u32) = unat (word_of_nat (2 * j) :: u32)" by (rule arg_cong)
  then show ?thesis using assms(2,3) by (simp add: unat_of_nat del: of_nat_mult)
qed

lemma owns_local_id [simp]: "owns_stream_id role (local_id role i)"
  by (cases role) (simp_all add: owns_stream_id_def local_id_def odd_iff_mod_2_eq_one [symmetric])

lemma table_insert_new_ids:
  "table_insert_new sid c = (a, occ, c1) \<Longrightarrow> cell_ids c1 = (cell_ids c)(mc_next c \<mapsto> sid)"
  by (auto simp: table_insert_new_def Let_def cell_ids_put stream_new_def split: option.splits)

lemma conn_inv_insert:
  assumes new: "table_insert_new sid c = (a, occ, c1)" and inv: "conn_inv n c"
    and own: "owns_stream_id (sh_role (mc_shared c)) sid \<Longrightarrow> sid \<in> local_id (sh_role (mc_shared c)) ` {..<n}"
  shows "conn_inv n c1"
proof -
  note eq = table_insert_new_eq [OF new] table_insert_new_ids [OF new]
  have dist: "keys_distinct (mc_table c1)" using inv by (simp add: eq conn_inv_def)
  have below: "dom (cell_ids c) \<subseteq> {..<mc_next c}" using inv by (simp add: conn_inv_def)
  then have fresh: "cell_ids c (mc_next c) = None" by (cases "cell_ids c (mc_next c)") (auto simp: subset_iff)
  have "entry_ok n c1 t b" if "(t, b) \<in> set (mc_table c1)" for t b
  proof -
    have "map_of (mc_table c1) t = Some b" using that dist by simp
    then consider "t = sid" "b = mc_next c" | "(t, b) \<in> set (mc_table c)"
      by (auto simp: eq split: if_splits dest: map_of_SomeD)
    then show ?thesis
    proof cases
      case 1
      then show ?thesis using own by (simp add: entry_ok_def eq)
    next
      case 2
      then have "entry_ok n c t b" using inv by (auto simp: conn_inv_def)
      then show ?thesis using fresh by (auto simp: entry_ok_def eq)
    qed
  qed
  moreover have "phase_ok (cell_ids c1) (mc_reader c1)"
    using inv fresh by (auto simp: conn_inv_def phase_ok_def eq split: reader_phase.splits)
  moreover have "dom (cell_ids c1) \<subseteq> {..<mc_next c1}"
    using below by (auto simp: eq)
  ultimately show ?thesis
    using inv dist by (auto simp: conn_inv_def eq)
qed

lemma conn_inv_open_insert:
  assumes "conn_inv n c"
  shows "conn_inv (Suc n) (snd (open_insert c))"
proof -
  define sid where "sid = sh_next_local_id (mc_shared c)"
  define c0 where "c0 = c\<lparr>mc_shared := (mc_shared c)\<lparr>sh_next_local_id := sid + 2\<rparr>\<rparr>"
  obtain a occ c1 where new: "table_insert_new sid c0 = (a, occ, c1)" by (cases "table_insert_new sid c0")
  have sid: "sid = local_id (sh_role (mc_shared c)) n"
    using assms by (simp add: sid_def conn_inv_def)
  have "entry_ok n c t b \<Longrightarrow> entry_ok (Suc n) c0 t b" for t b
    by (auto simp: entry_ok_def c0_def)
  moreover have "sid + 2 = local_id (sh_role (mc_shared c)) (Suc n)"
    by (simp add: sid local_id_def)
  ultimately have "conn_inv (Suc n) c0"
    using assms by (auto simp: conn_inv_def c0_def)
  then have "conn_inv (Suc n) c1"
    by (rule conn_inv_insert [OF new]) (simp add: sid c0_def)
  then show ?thesis
    by (auto simp: open_insert_def Let_def sid_def [symmetric] c0_def [symmetric] new
        intro: inv_intro split: bool.split)
qed

lemma conn_inv_send_stream [inv_intro]: "conn_inv n c \<Longrightarrow> conn_inv n (send_stream a c)"
  by (auto simp: send_stream_def intro: inv_intro split: prod.split send_result.split)

lemma conn_inv_send_to_control [inv_intro]: "conn_inv n c \<Longrightarrow> conn_inv n (send_to_control f r c)"
  by (auto simp: send_to_control_def intro: inv_intro split: prod.split send_result.split option.split)

lemma conn_inv_push [inv_intro]:
  assumes "conn_inv n c" "\<not> owns_stream_id (sh_role (mc_shared c)) sid"
  shows "conn_inv n (push_inbound_stream sid c)"
proof -
  obtain a occ c1 where new: "table_insert_new sid c = (a, occ, c1)" by (cases "table_insert_new sid c")
  have "conn_inv n c1" using conn_inv_insert [OF new] assms by simp
  then show ?thesis by (auto simp: push_inbound_stream_def new intro: inv_intro split: bool.split)
qed

lemma conn_inv_send_data [inv_intro]:
  assumes inv: "conn_inv n c" and a: "cell_ids c a = Some sid"
  shows "conn_inv n (send_data a sid p c)"
proof -
  obtain s where s: "mc_cells c a = Some s" using a by (auto simp: cell_ids_def)
  obtain s' r where d: "deliver p s = (s', r)" by (cases "deliver p s")
  have "ms_id s' = ms_id s" using d by (auto simp: deliver_def split: prod.splits)
  then have "conn_inv n (put_cell a s' c)" using inv s by (auto intro: inv_intro)
  then show ?thesis
    using inv a by (auto simp: send_data_def s d intro: inv_intro split: send_result.split)
qed

lemma conn_inv_lookup:
  "conn_inv n c \<Longrightarrow> mux_lookup sid c = (r, c') \<Longrightarrow> conn_inv n c' \<and> (\<forall>a. r = Some a \<longrightarrow> cell_ids c' a = Some sid)"
  by (auto simp: mux_lookup_def cell_ids_def intro: inv_intro split: option.splits dest: conn_inv_entry)

lemma conn_inv_on_data [inv_intro]: "conn_inv n c \<Longrightarrow> conn_inv n (on_data sid p c)"
  by (auto simp: on_data_def intro!: inv_intro split: prod.split option.split dest: conn_inv_lookup)

lemma conn_inv_on_close [inv_intro]: "conn_inv n c \<Longrightarrow> conn_inv n (on_close sid c)"
  by (auto simp: on_close_def Let_def intro!: inv_intro split: prod.split option.split dest: conn_inv_lookup)

lemma conn_inv_on_window [inv_intro]: "conn_inv n c \<Longrightarrow> conn_inv n (on_window sid w c)"
  by (auto simp: on_window_def grant_credit_def cell_setters intro!: inv_intro
      split: prod.splits option.splits dest: conn_inv_lookup)

lemma conn_inv_upd [inv_intro]:
  "conn_inv n c \<Longrightarrow> (\<And>s. ms_id (f s) = ms_id s) \<Longrightarrow> conn_inv n (upd_cell a f c)"
  by (rule conn_inv_sub) (auto simp: conn_inv_distinct cell_ids_upd)

lemma conn_inv_teardown [inv_intro]: "conn_inv n c \<Longrightarrow> conn_inv n (teardown_stream sid d c)"
proof -
  assume "conn_inv n c"
  then have "conn_inv n (c\<lparr>mc_table := AList.delete sid (mc_table c)\<rparr>)"
    by (rule conn_inv_sub) (simp_all add: delete_subset conn_inv_distinct [OF \<open>conn_inv n c\<close>])
  then show ?thesis
    using \<open>conn_inv n c\<close> by (auto simp: teardown_stream_def Let_def intro!: inv_intro split: option.split)
qed

lemma conn_inv_forward [inv_intro]: "conn_inv n c \<Longrightarrow> conn_inv n (forward_control f w r c)"
  by (simp add: forward_control_def inv_intro)

lemma conn_inv_reader_frame:
  assumes "conn_inv n c"
  shows "conn_inv n (reader_frame f c)"
proof (cases f)
  case (OpenStream sid t)
  have "\<not> owns_stream_id (sh_role (mc_shared c)) sid" if "is_relay_link c" "even sid"
    using assms that
    by (simp add: conn_inv_def is_relay_link_def owns_stream_id_def even_iff_mod_2_eq_zero)
  then show ?thesis
    using assms OpenStream by (auto simp: relay_link_or_fail_def intro: inv_intro)
qed (use assms in \<open>auto simp: relay_link_or_fail_def intro: inv_intro\<close>)

lemma conn_inv_reader_resume: "conn_inv n c \<Longrightarrow> conn_inv n (reader_resume c)"
proof -
  assume inv: "conn_inv n c"
  then have "cell_ids c a = Some sid" if "mc_reader c = SendingData a sid p" for a sid p
    using that by (simp add: conn_inv_def phase_ok_def)
  with inv show ?thesis
    by (auto simp: reader_resume_def intro: inv_intro split: reader_phase.split)
qed

lemma conn_inv_fold:
  assumes "\<And>x c. conn_inv n c \<Longrightarrow> conn_inv n (f x c)" "conn_inv n c"
  shows "conn_inv n (fold f xs c)"
  using assms(2) by (induction xs arbitrary: c) (simp_all add: assms(1))

lemma conn_inv_empty_table: "conn_inv n c \<Longrightarrow> conn_inv n (c\<lparr>mc_table := []\<rparr>)"
  by (erule conn_inv_sub) simp_all

lemma conn_inv_writer_return [inv_intro]: "conn_inv n c \<Longrightarrow> conn_inv n (writer_return c)"
  by (simp add: writer_return_def inv_intro)

lemma conn_inv_drop_connection: "conn_inv n c \<Longrightarrow> conn_inv n (drop_connection openers c)"
  unfolding drop_connection_def Let_def
  by (auto intro!: conn_inv_fold conn_inv_empty_table inv_intro)

lemma conn_inv_writer_turn: "conn_inv n c \<Longrightarrow> conn_inv n (writer_turn failure c)"
  by (auto simp: writer_turn_def wake_outbound_def Let_def intro!: inv_intro split: option.split)

lemma poll_ids:
  "poll_read m s sh = (r, s', sh') \<Longrightarrow> ms_id s' = ms_id s"
  "poll_write w buf s sh = (q, s', sh') \<Longrightarrow> ms_id s' = ms_id s"
  "poll_shutdown w s sh = (t, s', sh') \<Longrightarrow> ms_id s' = ms_id s"
  by (auto simp: poll_read_def poll_write_def poll_shutdown_def account_consumed_def Let_def cell_setters
      split: if_splits option.splits prod.splits send_result.splits)

lemma same_link_inv:
  assumes "conn_inv n c" "mc_cells c a = Some s" "ms_id s' = ms_id s" "same_link (mc_shared c) sh'"
  shows "conn_inv n ((put_cell a s' c)\<lparr>mc_shared := sh'\<rparr>)"
  using assms by (auto simp: same_link_def intro: inv_intro)

lemma conn_inv_polls:
  assumes "conn_inv n c"
  shows "conn_inv n (snd (read_at w m a c))" "conn_inv n (snd (write_at w buf a c))"
    "conn_inv n (snd (shutdown_at w a c))"
proof -
  show "conn_inv n (snd (read_at w m a c))"
    using assms by (auto simp: read_at_def split: option.split prod.split
        intro: same_link_inv poll_read_same_link poll_ids(1))
  show "conn_inv n (snd (write_at w buf a c))"
    using assms by (auto simp: write_at_def split: option.split prod.split
        intro: same_link_inv poll_write_same_link poll_ids(2))
  show "conn_inv n (snd (shutdown_at w a c))"
    using assms by (auto simp: shutdown_at_def split: option.split prod.split
        intro: same_link_inv poll_shutdown_same_link poll_ids(3))
qed

lemma conn_inv_step:
  assumes "conn_step c c'" "conn_inv n c"
  shows "conn_inv n c'"
  using assms
proof (induction rule: conn_step.induct)
  case (send c a s f target)
  then show ?case by (auto simp: open_send_def intro!: inv_intro split: prod.split send_result.split)
next
  case (control c f)
  then show ?case
    by (auto simp: send_control_def intro!: inv_intro split: prod.split send_result.split option.split)
next
  case (accept c)
  then show ?case by (auto simp: accept_stream_def split: prod.split option.split)
qed (auto simp: reader_error_def conn_inv_reader_frame conn_inv_reader_resume conn_inv_writer_turn
    conn_inv_polls conn_inv_drop_connection intro: inv_intro)

lemma conn_inv_build: "(mode = RelayLink \<Longrightarrow> role = Client) \<Longrightarrow> conn_inv 0 (conn_build role mode control)"
  by (auto simp: conn_inv_def conn_build_def cell_ids_def phase_ok_def shared_new_def local_id_def)

lemma conn_inv_reach:
  assumes "conn_reach c0 n c" "conn_inv 0 c0"
  shows "conn_inv n c"
  using assms by (induction rule: conn_reach.induct) (auto intro: conn_inv_open_insert conn_inv_step)

text \<open>
  C10: stream ids never collide. After \<open>n < 2^31\<close> local opens of a connection, however its tasks
  interleave, the next open gets an id of the local parity that is not in the table, and enters the new
  stream under it; the id is the \<open>n\<close>-th of the local sequence, so two opens never share one.
\<close>

theorem open_id_fresh:
  assumes reach: "conn_reach (conn_build role mode control) n c" and few: "n < 2 ^ 31"
    and role: "mode = RelayLink \<longrightarrow> role = Client"
  shows "\<exists>sid a c'. open_insert c = (Inr (sid, a), c') \<and> sid = local_id role n \<and> owns_stream_id role sid \<and>
    map_of (mc_table c) sid = None \<and> map_of (mc_table c') sid = Some a \<and> mc_cells c' a = Some (stream_new sid)"
proof -
  have inv: "conn_inv n c" using conn_inv_reach [OF reach] conn_inv_build role by blast
  have "sh_role (mc_shared c) = role"
    using reach
    by induction (auto simp: conn_build_def shared_new_def link_mono_def dest: conn_step_mono
        simp: open_insert_mono [unfolded link_mono_def])
  then have id: "sh_next_local_id (mc_shared c) = local_id role n"
    using inv by (simp add: conn_inv_def)
  have free: "map_of (mc_table c) (local_id role n) = None"
  proof (rule ccontr)
    assume "map_of (mc_table c) (local_id role n) \<noteq> None"
    then obtain a where "(local_id role n, a) \<in> set (mc_table c)" by (auto dest: map_of_SomeD)
    then have "entry_ok n c (local_id role n) a" using inv by (auto simp: conn_inv_def)
    then obtain i where "i < n" "local_id role n = local_id role i"
      using \<open>sh_role (mc_shared c) = role\<close> by (auto simp: entry_ok_def)
    then show False using local_id_inj [of role n i] few by simp
  qed
  then show ?thesis by (simp add: open_insert_def table_insert_new_def Let_def id)
qed

theorem open_id_fresh_witness:
  "\<exists>c. conn_reach (conn_build Client RelayLink None) 1 c \<and>
    map_of (mc_table c) 1 = Some 0 \<and>
    (\<exists>sid a c'. open_insert c = (Inr (sid, a), c') \<and> sid = local_id Client 1 \<and>
      map_of (mc_table c) sid = None \<and> map_of (mc_table c') sid = Some a)"
proof -
  define c where "c = snd (open_insert (conn_build Client RelayLink None))"
  have "conn_reach (conn_build Client RelayLink None) (Suc 0) c"
    unfolding c_def by (intro conn_reach.intros)
  then have r: "conn_reach (conn_build Client RelayLink None) 1 c" by simp
  moreover have "map_of (mc_table c) 1 = Some 0"
    by (simp add: c_def open_insert_def table_insert_new_def Let_def conn_build_def shared_new_def)
  ultimately show ?thesis using open_id_fresh [OF r] by auto
qed

end
