(* ===== verification/Mux_Delivery.thy ===== *)
theory Mux_Delivery
  imports Mux_Connection
begin

text \<open>
  What a connection delivers: the exactness of demultiplexing, the effect of a connection failure and of
  a relay teardown on the streams, and half-close (\<^verbatim>\<open>src/infra/relay_mux/connection.rs\<close>).
\<close>

section \<open>Demultiplexing\<close>

definition cell_unread :: "conn \<Rightarrow> nat \<rightharpoonup> bytes" where
  "cell_unread c = (\<lambda>a. map_option unread (mc_cells c a))"

lemma cell_unread_fields [simp]:
  "cell_unread (c\<lparr>mc_shared := x\<rparr>) = cell_unread c" "cell_unread (c\<lparr>mc_table := t\<rparr>) = cell_unread c"
  "cell_unread (c\<lparr>mc_reader := p\<rparr>) = cell_unread c" "cell_unread (c\<lparr>mc_accept := q\<rparr>) = cell_unread c"
  "cell_unread (c\<lparr>mc_control := r\<rparr>) = cell_unread c" "cell_unread (c\<lparr>mc_rd_waker := w\<rparr>) = cell_unread c"
  "cell_unread (c\<lparr>mc_next := m\<rparr>) = cell_unread c"
  by (simp_all add: cell_unread_def)

lemma cell_unread_put: "cell_unread (put_cell a s c) = (cell_unread c)(a \<mapsto> unread s)"
  by (auto simp: cell_unread_def)

lemma cell_unread_upd:
  "(\<And>s. unread (f s) = unread s) \<Longrightarrow> cell_unread (upd_cell a f c) = cell_unread c"
  by (auto simp: cell_unread_def option.map_comp comp_def)

lemma unread_setters [simp]:
  "unread (set_write_waker w s) = unread s" "unread (set_credit k s) = unread s"
  "unread (s\<lparr>ms_tx_live := b\<rparr>) = unread s" "unread (s\<lparr>ms_peer_fin := b\<rparr>) = unread s"
  "unread (s\<lparr>ms_reset_detail := d, ms_reset := b\<rparr>) = unread s"
  "unread (s\<lparr>ms_inbound := (ms_inbound s)\<lparr>chan_rx_open := b\<rparr>\<rparr>) = unread s"
  by (simp_all add: unread_def cell_setters)

lemma cell_unread_helpers [simp]:
  "cell_unread (wake w c) = cell_unread c" "cell_unread (wake_reader a c) = cell_unread c"
  "cell_unread (drop_sender a c) = cell_unread c" "cell_unread (take_write_waker a c) = cell_unread c"
  "cell_unread (drop_handle a c) = cell_unread c" "cell_unread (table_remove sid c) = cell_unread c"
  "cell_unread (reader_phase_to p c) = cell_unread c"
proof -
  show w: "cell_unread (wake w c) = cell_unread c" for w c by (simp add: cell_unread_def)
  show wr: "cell_unread (wake_reader a c) = cell_unread c" for a c by (simp add: cell_unread_def)
  show ds: "cell_unread (drop_sender a c) = cell_unread c" for a c
    by (simp add: drop_sender_def wr cell_unread_upd)
  show "cell_unread (take_write_waker a c) = cell_unread c"
    by (auto simp: cell_unread_def option.map_comp comp_def)
  show "cell_unread (drop_handle a c) = cell_unread c" by (simp add: drop_handle_def cell_unread_upd)
  show "cell_unread (table_remove sid c) = cell_unread c"
    by (simp add: table_remove_def ds split: option.split)
  show "cell_unread (reader_phase_to p c) = cell_unread c"
    by (simp add: reader_phase_to_def ds split: reader_phase.split)
qed

text \<open>
  What the connection holds for the stream at \<open>a\<close>: its buffered bytes, and the chunk the reader task
  is parked with, if it is for that stream.
\<close>

definition held_bytes :: "nat \<Rightarrow> conn \<Rightarrow> bytes" where
  "held_bytes a c =
     (case cell_unread c a of None \<Rightarrow> [] | Some bs \<Rightarrow> bs) @
     (case mc_reader c of SendingData b _ p \<Rightarrow> if b = a then p else [] | _ \<Rightarrow> [])"

fun data_for :: "u32 \<Rightarrow> frame \<Rightarrow> bytes" where
  "data_for sid (Data t p) = (if t = sid then p else [])"
| "data_for sid _ = []"

definition routes :: "u32 \<Rightarrow> nat \<Rightarrow> conn \<Rightarrow> bool" where
  "routes sid a c \<longleftrightarrow> map_of (mc_table c) sid = Some a"

lemma routes_cell: "conn_inv n c \<Longrightarrow> routes sid a c \<Longrightarrow> cell_ids c a = Some sid \<and> a < mc_next c"
proof -
  assume inv: "conn_inv n c" and "routes sid a c"
  then have "(sid, a) \<in> set (mc_table c)" by (auto simp: routes_def dest: map_of_SomeD)
  then have id: "cell_ids c a = Some sid" using inv by (auto simp: conn_inv_def entry_ok_def)
  then have "a \<in> dom (cell_ids c)" by blast
  then show ?thesis using inv id by (auto simp: conn_inv_def)
qed

lemma routes_inj: "conn_inv n c \<Longrightarrow> routes sid a c \<Longrightarrow> routes t b c \<Longrightarrow> b = a \<longleftrightarrow> t = sid"
  by (metis option.inject routes_cell routes_def)

lemma held_bytes_same:
  "cell_unread c' = cell_unread c \<Longrightarrow> mc_reader c' = mc_reader c \<Longrightarrow> held_bytes a c' = held_bytes a c"
  by (simp add: held_bytes_def)

lemma held_bytes_idle:
  assumes "\<And>b t p. mc_reader c \<noteq> SendingData b t p"
  shows "held_bytes a c = (case cell_unread c a of None \<Rightarrow> [] | Some bs \<Rightarrow> bs)"
  using assms by (simp add: held_bytes_def split: reader_phase.split)

lemma send_data_cases [consumes 1, case_names Delivered Parked Failed]:
  assumes "mc_cells c b = Some s"
  obtains s' where "unread s' = unread s @ p" "ms_id s' = ms_id s"
      "send_data b t p c = reader_phase_to Reading (wake_reader b (put_cell b s' c))"
  | "send_data b t p c = c\<lparr>mc_reader := SendingData b t p\<rparr>"
  | "send_data b t p c = reader_fail (DroppedByReader t) c"
proof -
  obtain s' r where d: "deliver p s = (s', r)" by (cases "deliver p s")
  have "ms_id s' = ms_id s" using d by (auto simp: deliver_def split: prod.splits)
  then show ?thesis
    using that assms d deliver_unread(1) [of p s s'] by (cases r) (auto simp: send_data_def)
qed

lemma send_data_held:
  assumes inv: "conn_inv n c" and idle: "mc_reader c = Reading \<or> mc_reader c = SendingData b t q"
    and b: "cell_ids c b = Some t" and alive: "\<not> mc_dead (send_data b t p c)"
  shows "held_bytes a (send_data b t p c) =
     (case cell_unread c a of None \<Rightarrow> [] | Some bs \<Rightarrow> bs) @ (if b = a then p else [])"
proof -
  obtain s where s: "mc_cells c b = Some s" using b by (auto simp: cell_ids_def)
  then have u: "cell_unread c b = Some (unread s)" by (simp add: cell_unread_def)
  from s show ?thesis
  proof (cases rule: send_data_cases [where p = p and t = t])
    case (Delivered s')
    then show ?thesis using u by (auto simp: held_bytes_idle cell_unread_put)
  next
    case Parked
    then show ?thesis by (simp add: held_bytes_def)
  next
    case Failed
    then show ?thesis using alive by simp
  qed
qed

lemma push_inbound_held:
  assumes inv: "conn_inv n c" and idle: "mc_reader c = Reading" and a: "a < mc_next c"
    and alive: "\<not> mc_dead (push_inbound_stream t c)"
  shows "held_bytes a (push_inbound_stream t c) = held_bytes a c"
proof -
  obtain b occ c1 where new: "table_insert_new t c = (b, occ, c1)" by (cases "table_insert_new t c")
  then have "cell_unread c1 = (cell_unread c)(mc_next c \<mapsto> unread (stream_new t))"
    by (auto simp: table_insert_new_def Let_def cell_unread_put split: option.splits)
  then have "cell_unread c1 a = cell_unread c a" using a by simp
  then have "held_bytes a (send_stream b c1) = held_bytes a c" if "\<not> mc_dead (send_stream b c1)"
    using that idle table_insert_new_eq(6) [OF new]
    by (auto simp: send_stream_def held_bytes_def split: prod.splits send_result.splits)
  then show ?thesis
    using alive by (auto simp: push_inbound_stream_def new split: bool.splits)
qed

lemma cell_unread_put_same:
  "mc_cells c a = Some s \<Longrightarrow> unread s' = unread s \<Longrightarrow> cell_unread (put_cell a s' c) = cell_unread c"
  by (auto simp: cell_unread_def)

lemma teardown_held: "held_bytes a (teardown_stream t d c) = held_bytes a c"
  by (rule held_bytes_same)
    (auto simp: teardown_stream_def Let_def cell_unread_upd split: option.split)

lemma forward_control_held:
  assumes "mc_reader c = Reading" "\<not> mc_dead (forward_control f w r c)"
  shows "held_bytes a (forward_control f w r c) = held_bytes a c"
  using assms
  by (auto simp: forward_control_def send_to_control_def held_bytes_def
      split: if_splits prod.splits send_result.splits option.splits)

lemma reader_frame_held:
  assumes inv: "conn_inv n c" and idle: "mc_reader c = Reading" and rt: "routes sid a c"
    and alive: "\<not> mc_dead (reader_frame f c)"
  shows "held_bytes a (reader_frame f c) = held_bytes a c @ data_for sid f"
proof (cases f)
  case (Data t p)
  then obtain b s where b: "routes t b c" "mc_cells c b = Some s" "\<not> ms_peer_fin s"
    using alive inv
    by (auto simp: on_data_def mux_lookup_def routes_def split: option.splits if_splits dest: conn_inv_entry)
  then have eq: "reader_frame f c = send_data b t p c"
    using Data by (simp add: on_data_def mux_lookup_def routes_def)
  have "cell_ids c b = Some t" using routes_cell [OF inv b(1)] by simp
  then have "held_bytes a (send_data b t p c) =
      (case cell_unread c a of None \<Rightarrow> [] | Some bs \<Rightarrow> bs) @ (if b = a then p else [])"
    using send_data_held [OF inv _ _ alive [unfolded eq]] idle by blast
  moreover have "b = a \<longleftrightarrow> t = sid" using routes_inj [OF inv rt b(1)] .
  ultimately show ?thesis unfolding eq using idle by (simp add: Data held_bytes_idle)
next
  case (Close t)
  then show ?thesis
    using alive idle
    by (auto simp: on_close_def mux_lookup_def Let_def cell_unread_put_same intro!: held_bytes_same
        split: option.splits if_splits)
next
  case (Window t w)
  then show ?thesis
    using alive idle
    by (auto simp: on_window_def mux_lookup_def grant_credit_def cell_unread_put_same intro!: held_bytes_same
        split: option.splits if_splits prod.splits)
qed (use alive idle routes_cell [OF inv rt] in \<open>auto simp: relay_link_or_fail_def teardown_held
    forward_control_held push_inbound_held [OF inv] split: if_splits\<close>)

text \<open>
  A run of the connection as the stream's application sees it: the reader task receives frames and
  is resumed after backpressure, the application reads from any stream. The run collects the bytes
  read from the stream at \<open>a\<close>.
\<close>

datatype conn_event = Got frame | Resumed | Took nat nat

fun event_step :: "conn_event \<Rightarrow> conn \<Rightarrow> conn option" where
  "event_step (Got f) c = (if mc_reader c = Reading then Some (reader_frame f c) else None)"
| "event_step Resumed c = Some (reader_resume c)"
| "event_step (Took m b) c = Some (snd (read_at 0 m b c))"

fun taken :: "nat \<Rightarrow> conn_event \<Rightarrow> conn \<Rightarrow> bytes" where
  "taken a (Took m b) c =
     (if b = a then (case fst (read_at 0 m b c) of Some (Ready (Inr bs)) \<Rightarrow> bs | _ \<Rightarrow> []) else [])"
| "taken a _ c = []"

fun event_run :: "nat \<Rightarrow> conn_event list \<Rightarrow> conn \<Rightarrow> (bytes \<times> conn) option" where
  "event_run a [] c = Some ([], c)"
| "event_run a (e # es) c =
     (case event_step e c of
        None \<Rightarrow> None
      | Some c1 \<Rightarrow> map_option (\<lambda>(got, c'). (taken a e c @ got, c')) (event_run a es c1))"

fun sent_to :: "u32 \<Rightarrow> conn_event \<Rightarrow> bytes" where
  "sent_to sid (Got f) = data_for sid f"
| "sent_to sid _ = []"

lemma reader_resume_held:
  assumes inv: "conn_inv n c" and alive: "\<not> mc_dead (reader_resume c)"
  shows "held_bytes a (reader_resume c) = held_bytes a c"
proof (cases "mc_reader c")
  case (SendingData b t p)
  then have "cell_ids c b = Some t" using inv by (simp add: conn_inv_def phase_ok_def)
  then show ?thesis
    using send_data_held [OF inv _ _ alive [unfolded reader_resume_def SendingData, simplified], of p] SendingData
    by (simp add: reader_resume_def held_bytes_def)
qed (use alive in \<open>auto simp: reader_resume_def send_stream_def send_to_control_def held_bytes_def
    split: prod.splits send_result.splits option.splits\<close>)

lemma read_at_held:
  "held_bytes a c = taken a (Took m b) c @ held_bytes a (snd (read_at 0 m b c))"
proof (cases "mc_cells c b")
  case None
  then show ?thesis by (auto simp: read_at_def)
next
  case (Some s)
  obtain r s' sh' where p: "poll_read m s (mc_shared c) = (r, s', sh')" by (cases "poll_read m s (mc_shared c)")
  have "unread s = (case r of Ready (Inr bs) \<Rightarrow> bs | _ \<Rightarrow> []) @ unread s'"
    using poll_read_unread [of m s "mc_shared c" _ s' sh'] poll_read_other [OF p] p
    by (auto split: poll.split sum.split)
  moreover have "cell_unread c b = Some (unread s)" using Some by (simp add: cell_unread_def)
  ultimately show ?thesis
    using Some p by (auto simp: read_at_def held_bytes_def cell_unread_put split: poll.split sum.split)
qed

lemma read_at_table [simp]:
  "mc_table (snd (read_at w m b c)) = mc_table c" "mc_next (snd (read_at w m b c)) = mc_next c"
  by (simp_all add: read_at_def split: option.split prod.split)

text \<open>A step adds table entries for new addresses only.\<close>

definition table_grows :: "conn \<Rightarrow> conn \<Rightarrow> bool" where
  "table_grows c c' \<longleftrightarrow>
     mc_next c \<le> mc_next c' \<and> (\<forall>t b. routes t b c' \<longrightarrow> b < mc_next c \<longrightarrow> routes t b c)"

lemma table_grows_same: "mc_table c' = mc_table c \<Longrightarrow> mc_next c' = mc_next c \<Longrightarrow> table_grows c c'"
  by (simp add: table_grows_def routes_def)

lemma table_grows_delete:
  "mc_table c' = AList.delete t (mc_table c) \<Longrightarrow> mc_next c' = mc_next c \<Longrightarrow> table_grows c c'"
  by (auto simp: table_grows_def routes_def split: if_splits)

lemma table_grows_fail: "table_grows c (fail_connection r c)" "table_grows c (reader_fail r c)"
  using fail_connection_alive [of c r]
  by (cases "mc_dead c"; simp add: table_grows_def routes_def)+

lemma table_grows_trans: "table_grows a b \<Longrightarrow> table_grows b c \<Longrightarrow> table_grows a c"
  unfolding table_grows_def by (meson le_trans order.strict_trans2)

lemma table_grows_send_stream: "table_grows c (send_stream b c)"
proof -
  have "table_grows c (drop_handle b (reader_fail r c))" for r
    using table_grows_fail(2) [of c r] by (simp add: table_grows_def routes_def)
  then show ?thesis
    by (auto simp: send_stream_def intro: table_grows_same split: prod.split send_result.split)
qed

lemma table_grows_push: "table_grows c (push_inbound_stream t c)"
proof -
  obtain b occ c1 where new: "table_insert_new t c = (b, occ, c1)" by (cases "table_insert_new t c")
  have c1: "table_grows c c1"
    using table_insert_new_eq(4,5) [OF new] by (auto simp: table_grows_def routes_def split: if_splits)
  have "table_grows c1 (drop_handle b (reader_fail r c1))" for r
    using table_grows_fail(2) [of c1 r] by (simp add: table_grows_def routes_def)
  then show ?thesis
    using c1 table_grows_send_stream [of c1 b]
    by (auto simp: push_inbound_stream_def new intro: table_grows_trans split: bool.split)
qed

lemma table_grows_send_data: "table_grows c (send_data b t p c)"
  by (auto simp: send_data_def intro: table_grows_same table_grows_fail
      split: option.split prod.split send_result.split)

lemma table_grows_control: "table_grows c (send_to_control f r c)" "table_grows c (forward_control f w r c)"
  by (auto simp: send_to_control_def forward_control_def intro: table_grows_same table_grows_fail
      split: option.split prod.split send_result.split)

lemma table_grows_lookup:
  "mux_lookup t c = (None, c') \<Longrightarrow> table_grows c (reader_phase_to ReaderDone c')"
  "mux_lookup t c = (Some b, c') \<Longrightarrow> c' = c"
  using table_grows_fail(2) [of c "UnknownStreamReason t"]
  by (auto simp: mux_lookup_def reader_fail_def split: option.splits)

lemma table_grows_frame: "table_grows c (reader_frame f c)"
proof (cases f)
  case (Data t p)
  then show ?thesis
    by (auto simp: on_data_def intro: table_grows_same table_grows_fail table_grows_send_data table_grows_lookup(1)
        dest!: table_grows_lookup(2) split: option.split prod.split)
next
  case (Close t)
  then show ?thesis
    by (auto simp: on_close_def Let_def intro: table_grows_same table_grows_delete table_grows_fail
        table_grows_lookup(1) dest!: table_grows_lookup(2) split: option.split prod.split)
next
  case (Window t w)
  then show ?thesis
    by (auto simp: on_window_def intro: table_grows_same table_grows_fail
        table_grows_lookup(1) dest!: table_grows_lookup(2) split: option.split prod.split)
next
  case (CloseStream t)
  then show ?thesis
    using table_grows_fail(2) [of c ControlOnNodeLink]
    by (auto simp: relay_link_or_fail_def reader_fail_def intro: table_grows_delete)
next
  case (Error t code msg)
  then show ?thesis
    using table_grows_fail(2) [of c ControlOnNodeLink]
    by (auto simp: relay_link_or_fail_def reader_fail_def intro: table_grows_delete table_grows_control)
qed (use table_grows_fail(2) [of c ControlOnNodeLink] in \<open>auto simp: relay_link_or_fail_def reader_fail_def [symmetric]
    intro: table_grows_fail table_grows_push table_grows_control\<close>)

lemma table_grows_resume: "table_grows c (reader_resume c)"
  by (auto simp: reader_resume_def intro: table_grows_same table_grows_send_data table_grows_send_stream
      table_grows_control split: reader_phase.split)

lemma event_step_grows: "event_step e c = Some c1 \<Longrightarrow> table_grows c c1"
  by (cases e) (auto intro: table_grows_same table_grows_frame table_grows_resume split: if_splits)

lemma event_step_conn:
  assumes "event_step e c = Some c1"
  shows "conn_step c c1"
proof (cases e)
  case (Got f)
  then show ?thesis using assms by (auto intro: conn_step.frame split: if_splits)
next
  case Resumed
  then show ?thesis using assms conn_step.resume by auto
next
  case (Took m b)
  then show ?thesis using assms conn_step.poll_read [of c 0 m b] by auto
qed

lemma event_step_held:
  assumes "conn_inv n c" "routes sid a c" "event_step e c = Some c1" "\<not> mc_dead c1"
  shows "held_bytes a c @ sent_to sid e = taken a e c @ held_bytes a c1"
proof (cases e)
  case (Took m b)
  then have c1: "c1 = snd (read_at 0 m b c)" "sent_to sid e = []" using assms(3) by auto
  show ?thesis unfolding c1 unfolding Took using read_at_held [of a c m b] by (simp only: append_Nil2)
qed (use assms reader_frame_held [OF assms(1) _ assms(2)] reader_resume_held [OF assms(1)] in
    \<open>auto split: if_splits\<close>)

lemma event_run_held:
  assumes "conn_inv n c" "a < mc_next c" "event_run a es c = Some (got, c')" "routes sid a c'" "\<not> mc_dead c'"
  shows "held_bytes a c @ concat (map (sent_to sid) es) = got @ held_bytes a c' \<and> routes sid a c \<and> \<not> mc_dead c"
  using assms
proof (induction a es c arbitrary: got rule: event_run.induct)
  case (2 a e es c)
  obtain c1 got1 where step: "event_step e c = Some c1" and run: "event_run a es c1 = Some (got1, c')"
    and got: "got = taken a e c @ got1"
    using "2.prems"(3) by (auto split: option.splits)
  have inv: "conn_inv n c1" using conn_inv_step [OF event_step_conn [OF step]] "2.prems"(1) .
  have grow: "table_grows c c1" using event_step_grows [OF step] .
  then have "a < mc_next c1" using "2.prems"(2) by (simp add: table_grows_def)
  then have IH: "held_bytes a c1 @ concat (map (sent_to sid) es) = got1 @ held_bytes a c'"
    "routes sid a c1" "\<not> mc_dead c1"
    using "2.IH" [OF step inv _ run "2.prems"(4,5)] by auto
  have r: "routes sid a c" using grow IH(2) "2.prems"(2) by (simp add: table_grows_def)
  have "\<not> mc_dead c" using conn_step_mono [OF event_step_conn [OF step]] IH(3) by (auto simp: link_mono_def)
  moreover have "held_bytes a c @ sent_to sid e = taken a e c @ held_bytes a c1"
    using event_step_held [OF "2.prems"(1) r step IH(3)] .
  then have "held_bytes a c @ concat (map (sent_to sid) (e # es)) = got @ held_bytes a c'"
    using IH(1) by (simp add: got) (metis append.assoc)
  ultimately show ?case using r by blast
qed auto

text \<open>
  C11: demultiplexing is exact. Take any reachable connection and a stream in its table that is still
  there, with the connection alive, after any run in which the reader task receives frames for any
  streams, parks on a full stream queue and is resumed, and the application reads from any streams.
  Then the bytes it read from this stream, followed by what is still held for it, are what was held
  before followed by the payloads of the data frames for its id, in their order: no byte is lost,
  reordered or delivered to another stream.
\<close>

theorem demux_exact:
  assumes "conn_reach (conn_build role mode control) n c" "mode = RelayLink \<longrightarrow> role = Client"
    and "routes sid a c" "event_run a es c = Some (got, c')" "routes sid a c'" "\<not> mc_dead c'"
  shows "held_bytes a c @ concat (map (sent_to sid) es) = got @ held_bytes a c'"
proof -
  have inv: "conn_inv n c" using conn_inv_reach [OF assms(1)] conn_inv_build assms(2) by blast
  then show ?thesis using event_run_held [OF inv _ assms(4-6)] routes_cell [OF inv assms(3)] by blast
qed

lemma on_data_delivers:
  assumes "routes t b c" "mc_cells c b = Some s" "\<not> ms_peer_fin s" "mc_reader c = Reading"
    "chan_rx_open (ms_inbound s)" "length (chan_queue (ms_inbound s)) < chan_cap (ms_inbound s)"
  shows "reader_frame (Data t p) c =
    wake_reader b (put_cell b (s\<lparr>ms_inbound := (ms_inbound s)\<lparr>chan_queue := chan_queue (ms_inbound s) @ [p]\<rparr>\<rparr>) c)"
  using assms
  by (simp add: on_data_def mux_lookup_def routes_def send_data_def deliver_def chan_try_send_def
      reader_phase_to_def wake_reader_def wake_def put_cell_def split: option.split)

lemma accept_inbound:
  assumes "\<not> is_relay_link c" "\<not> owns_stream_id (sh_role (mc_shared c)) t" "map_of (mc_table c) t = None"
    "mc_reader c = Reading" "chan_rx_open (mc_accept c)" "length (chan_queue (mc_accept c)) < chan_cap (mc_accept c)"
  shows "reader_frame (Open t) c = c\<lparr>mc_next := Suc (mc_next c), mc_table := AList.update t (mc_next c) (mc_table c),
    mc_cells := (mc_cells c)(mc_next c \<mapsto> stream_new t),
    mc_accept := (mc_accept c)\<lparr>chan_queue := chan_queue (mc_accept c) @ [mc_next c]\<rparr>\<rparr>"
  using assms
  by (simp add: push_inbound_stream_def table_insert_new_def Let_def send_stream_def chan_try_send_def
      put_cell_def reader_phase_to_def)

lemmas caps = ACCEPT_QUEUE_def INBOUND_CHUNK_QUEUE_def OUTBOUND_QUEUE_def

text \<open>A server with two streams opened by the peer, 1 and 3.\<close>

definition two_streams :: conn where
  "two_streams = reader_frame (Open 3) (reader_frame (Open 1) (conn_build Server NodeToNode None))"

lemma two_streams:
  "conn_reach (conn_build Server NodeToNode None) 0 two_streams"
  "mc_table two_streams = [(1, 0), (3, 1)]" "mc_reader two_streams = Reading" "\<not> mc_dead two_streams"
  "mc_cells two_streams = [0 \<mapsto> stream_new 1, 1 \<mapsto> stream_new 3]"
proof -
  define c0 where "c0 = conn_build Server NodeToNode None"
  have c0: "\<not> is_relay_link c0" "sh_role (mc_shared c0) = Server" "mc_table c0 = []" "mc_reader c0 = Reading"
    "chan_rx_open (mc_accept c0)" "chan_queue (mc_accept c0) = []" "chan_cap (mc_accept c0) = 64" "mc_next c0 = 0"
    "mc_cells c0 = Map.empty" "\<not> mc_dead c0"
    by (simp_all add: c0_def conn_build_def is_relay_link_def shared_new_def caps)
  define c1 where "c1 = reader_frame (Open 1) c0"
  have c1: "c1 = c0\<lparr>mc_next := 1, mc_table := [(1, 0)], mc_cells := [0 \<mapsto> stream_new 1],
      mc_accept := (mc_accept c0)\<lparr>chan_queue := [0]\<rparr>\<rparr>"
    unfolding c1_def using c0 by (subst accept_inbound) (simp_all add: owns_stream_id_def)
  have c: "two_streams = c1\<lparr>mc_next := 2, mc_table := [(1, 0), (3, 1)],
      mc_cells := [0 \<mapsto> stream_new 1, 1 \<mapsto> stream_new 3], mc_accept := (mc_accept c0)\<lparr>chan_queue := [0, 1]\<rparr>\<rparr>"
    unfolding two_streams_def c0_def [symmetric] c1_def [symmetric]
    using c0 c1 by (subst accept_inbound) (simp_all add: owns_stream_id_def is_relay_link_def)
  show "mc_table two_streams = [(1, 0), (3, 1)]" "mc_reader two_streams = Reading" "\<not> mc_dead two_streams"
    "mc_cells two_streams = [0 \<mapsto> stream_new 1, 1 \<mapsto> stream_new 3]"
    using c0 by (simp_all add: c c1)
  have "mc_reader c1 = Reading" using c0 by (simp add: c1)
  have "conn_reach c0 0 c1"
    unfolding c1_def by (rule conn_reach.moved [OF conn_reach.start conn_step.frame [OF c0(4)]])
  from conn_reach.moved [OF this conn_step.frame [OF \<open>mc_reader c1 = Reading\<close>]]
  show "conn_reach (conn_build Server NodeToNode None) 0 two_streams"
    unfolding two_streams_def c0_def [symmetric] c1_def [symmetric] .
qed

theorem demux_exact_witness:
  "\<exists>c' got. conn_reach (conn_build Server NodeToNode None) 0 two_streams \<and> routes 3 1 two_streams \<and>
     event_run 1 [Got (Data 3 [7, 8]), Got (Data 1 [5]), Took 1 1] two_streams = Some (got, c') \<and>
     got = [7] \<and> held_bytes 1 c' = [8]"
proof -
  let ?q = "\<lambda>t q. (stream_new t)\<lparr>ms_inbound := (chan_new INBOUND_CHUNK_QUEUE)\<lparr>chan_queue := q\<rparr>\<rparr>"
  have st: "ms_inbound (stream_new t) = chan_new INBOUND_CHUNK_QUEUE" "\<not> ms_peer_fin (stream_new t)" for t
    by (simp_all add: stream_new_def)
  define c1 where "c1 = reader_frame (Data 3 [7, 8]) two_streams"
  have e1: "c1 = wake_reader 1 (put_cell 1 (?q 3 [[7, 8]]) two_streams)"
    unfolding c1_def by (subst on_data_delivers [where b = 1 and s = "stream_new 3"])
      (simp_all add: routes_def two_streams st caps)
  define c2 where "c2 = reader_frame (Data 1 [5]) c1"
  have e2: "c2 = wake_reader 0 (put_cell 0 (?q 1 [[5]]) c1)"
    unfolding c2_def by (subst on_data_delivers [where b = 0 and s = "stream_new 1"])
      (simp_all add: e1 routes_def two_streams st caps)
  have facts: "mc_reader c1 = Reading" "mc_cells c2 1 = Some (?q 3 [[7, 8]])" "mc_table c2 = [(1, 0), (3, 1)]"
    "\<not> mc_dead c2"
    by (simp_all add: e1 e2 two_streams)
  have "fst (poll_read 1 (?q 3 [[7, 8]]) (mc_shared c2)) = Ready (Inr [7])"
    by (subst poll_read_chunk [of 1 _ "[7, 8]" "[]"]) (simp_all add: stream_new_def Let_def split: prod.split)
  then obtain s' sh' where r: "poll_read 1 (?q 3 [[7, 8]]) (mc_shared c2) = (Ready (Inr [7]), s', sh')"
    by (cases "poll_read 1 (?q 3 [[7, 8]]) (mc_shared c2)") simp
  define c3 where "c3 = snd (read_at 0 1 1 c2)"
  have c3: "fst (read_at 0 1 1 c2) = Some (Ready (Inr [7]))" "routes 3 1 c3" "\<not> mc_dead c3"
    using facts r poll_read_same_link [OF r] by (simp_all add: c3_def read_at_def routes_def same_link_def)
  have run: "event_run 1 [Got (Data 3 [7, 8]), Got (Data 1 [5]), Took 1 1] two_streams = Some ([7], c3)"
  proof -
    have "event_step (Got (Data 3 [7, 8])) two_streams = Some c1" "event_step (Got (Data 1 [5])) c1 = Some c2"
      "event_step (Took 1 1) c2 = Some c3"
      unfolding event_step.simps c1_def [symmetric] c2_def [symmetric] c3_def [symmetric]
      using facts(1) two_streams(3) by simp_all
    moreover have "taken 1 (Took 1 1) c2 = [7]" unfolding taken.simps c3(1) by simp
    ultimately show ?thesis by (simp del: event_step.simps One_nat_def taken.simps(1))
  qed
  have "routes 3 1 two_streams" "held_bytes 1 two_streams = []"
    by (simp_all add: two_streams routes_def held_bytes_def cell_unread_def unread_def stream_new_def)
  then have "held_bytes 1 c3 = [8]"
    using demux_exact [OF two_streams(1) _ _ run c3(2,3)] by simp
  then show ?thesis using two_streams(1) run \<open>routes 3 1 two_streams\<close> by blast
qed

section \<open>Failure reaches every stream\<close>

definition ended :: "cell \<Rightarrow> cell" where
  "ended s = (set_write_waker None s)\<lparr>ms_tx_live := False\<rparr>"

lemma ended_idem [simp]: "ended (ended s) = ended s"
  by (simp add: ended_def set_write_waker_def)

lemma drop_sender_effect:
  "\<not> sender_held a c \<Longrightarrow> mc_cells (drop_sender a c) = (mc_cells c)(a := map_option (\<lambda>s. s\<lparr>ms_tx_live := False\<rparr>) (mc_cells c a))"
  "\<not> sender_held a c \<Longrightarrow> mc_woken (drop_sender a c) = mc_woken c @ (case mc_rd_waker c a of None \<Rightarrow> [] | Some t \<Rightarrow> [t])"
  "b \<noteq> a \<Longrightarrow> mc_cells (drop_sender a c) b = mc_cells c b"
  "b \<noteq> a \<Longrightarrow> mc_rd_waker (drop_sender a c) b = mc_rd_waker c b"
  "set (mc_woken c) \<subseteq> set (mc_woken (drop_sender a c))"
  by (auto simp: drop_sender_def)

lemma take_write_waker_woken:
  "mc_woken (take_write_waker a c) =
     mc_woken c @ (case mc_cells c a of None \<Rightarrow> [] | Some s \<Rightarrow> (case write_waker (ms_state s) of None \<Rightarrow> [] | Some t \<Rightarrow> [t]))"
  by (simp add: take_write_waker_def split: option.split)

lemma sender_held_take [simp]: "sender_held a (take_write_waker b c) = sender_held a c"
  by (simp add: sender_held_def)

lemma drain_woken: "set (mc_woken c) \<subseteq> set (mc_woken (drain_entries es c))"
proof (induction es arbitrary: c)
  case (Cons e es)
  have "set (mc_woken c) \<subseteq> set (mc_woken (drop_sender (snd e) (take_write_waker (snd e) c)))"
    using drop_sender_effect(5) [of "take_write_waker (snd e) c" "snd e"]
    by (auto simp: take_write_waker_woken split: option.splits)
  then show ?case using Cons by fastforce
qed simp

lemma drain_other: "a \<notin> snd ` set es \<Longrightarrow> mc_cells (drain_entries es c) a = mc_cells c a"
  by (induction es arbitrary: c) (auto simp: drop_sender_effect)

lemma drain_ends:
  assumes "a \<in> snd ` set es" "mc_cells c a = Some s" "\<not> sender_held a c"
  shows "mc_cells (drain_entries es c) a = Some (ended s) \<and>
    set_option (write_waker (ms_state s)) \<union> set_option (mc_rd_waker c a) \<subseteq> set (mc_woken (drain_entries es c))"
  using assms
proof (induction es arbitrary: c s)
  case (Cons e es)
  define c1 where "c1 = drop_sender (snd e) (take_write_waker (snd e) c)"
  have held: "\<not> sender_held a c1"
    using Cons.prems(3) by (simp add: c1_def sender_held_def)
  show ?case
  proof (cases "snd e = a")
    case True
    then have c1: "mc_cells c1 a = Some (ended s)"
      "set_option (write_waker (ms_state s)) \<union> set_option (mc_rd_waker c a) \<subseteq> set (mc_woken c1)"
      using Cons.prems by (auto simp: c1_def drop_sender_effect take_write_waker_woken ended_def set_write_waker_def)
    have "mc_cells (drain_entries es c1) a = Some (ended s)"
      using Cons.IH [of c1 "ended s"] held c1(1) drain_other [of a es c1] by (cases "a \<in> snd ` set es") auto
    moreover note drain_woken [of c1 es]
    ultimately show ?thesis using c1(2) True by (auto simp: c1_def)
  next
    case False
    then have "mc_cells c1 a = Some s" "mc_rd_waker c1 a = mc_rd_waker c a" "a \<in> snd ` set es"
      using Cons.prems by (auto simp: c1_def drop_sender_effect)
    then show ?thesis using Cons.IH [of c1 s] held by (simp add: c1_def)
  qed
qed simp

definition drained :: "cell \<Rightarrow> bool" where
  "drained s \<longleftrightarrow> chan_queue (ms_inbound s) = [] \<and> length (ms_read_leftover s) \<le> ms_read_offset s"

text \<open>A stream to which the reader task is sending keeps its channel, but its write waker is taken all the same.\<close>

lemma drain_held:
  assumes "a \<in> snd ` set es" "mc_cells c a = Some s" "sender_held a c"
  shows "mc_cells (drain_entries es c) a = Some (set_write_waker None s) \<and>
    set_option (write_waker (ms_state s)) \<subseteq> set (mc_woken (drain_entries es c))"
  using assms
proof (induction es arbitrary: c s)
  case (Cons e es)
  define c1 where "c1 = drop_sender (snd e) (take_write_waker (snd e) c)"
  have held: "sender_held a c1" using Cons.prems(3) by (simp add: c1_def sender_held_def)
  show ?case
  proof (cases "snd e = a")
    case True
    then have c1: "c1 = take_write_waker a c" using Cons.prems(3) by (simp add: c1_def drop_sender_def)
    then have cell: "mc_cells c1 a = Some (set_write_waker None s)" using Cons.prems(2) by simp
    have "set_option (write_waker (ms_state s)) \<subseteq> set (mc_woken c1)"
      using Cons.prems(2) by (auto simp: c1 take_write_waker_woken)
    moreover have "mc_cells (drain_entries es c1) a = Some (set_write_waker None s)"
      using Cons.IH [OF _ cell held] drain_other [of a es c1] cell
      by (cases "a \<in> snd ` set es") (simp_all add: set_write_waker_def)
    ultimately show ?thesis using drain_woken [of c1 es] True by (auto simp: c1_def)
  next
    case False
    then have "mc_cells c1 a = Some s" "a \<in> snd ` set es" using Cons.prems by (auto simp: c1_def drop_sender_effect)
    then show ?thesis using Cons.IH [of c1 s] held by (simp add: c1_def)
  qed
qed simp

text \<open>
  C12: failing a live connection reaches the streams in its table. A writer that waits for credit is woken, and every
  write returns the connection's failure reason from then on. A parked reader of the stream is woken too, and a read with
  nothing buffered returns the reason, unless the reader task is just then sending to the stream and keeps its channel
  open until it returns. A task that waits for room in the outbound queue is not woken: its waker stays in its slot.
\<close>

theorem failure_reaches_streams:
  assumes alive: "\<not> mc_dead c" and rt: "routes sid a c" and s: "mc_cells c a = Some s" "\<not> ms_reset s"
  shows "\<exists>s'. mc_cells (fail_connection r c) a = Some s' \<and>
     set_option (write_waker (ms_state s)) \<subseteq> set (mc_woken (fail_connection r c)) \<and>
     (\<forall>w buf. buf \<noteq> [] \<longrightarrow>
        fst (poll_write w buf s' (mc_shared (fail_connection r c))) = Ready (Inl (FromMux (ConnectionClosed r)))) \<and>
     ((\<forall>t p. mc_reader c \<noteq> SendingData a t p) \<longrightarrow>
        set_option (mc_rd_waker c a) \<subseteq> set (mc_woken (fail_connection r c)) \<and>
        (\<forall>k. 0 < k \<longrightarrow> drained s \<longrightarrow>
           fst (poll_read k s' (mc_shared (fail_connection r c))) = Ready (Inl (FromMux (ConnectionClosed r))))) \<and>
     sh_outbound_waker (mc_shared (fail_connection r c)) = sh_outbound_waker (mc_shared c)"
proof -
  define c0 where "c0 = c\<lparr>mc_shared := (mc_shared c)\<lparr>sh_dead := True, sh_close_reason := Some r, sh_shutdown := True\<rparr>,
    mc_table := []\<rparr>"
  have eq: "fail_connection r c = drain_entries (mc_table c) c0"
    using alive by (simp add: fail_connection_eq c0_def)
  have held: "sender_held a c0 \<longleftrightarrow> (\<exists>t p. mc_reader c = SendingData a t p)"
    by (auto simp: sender_held_def c0_def split: reader_phase.split)
  have mem: "a \<in> snd ` set (mc_table c)" using rt by (force simp: routes_def dest: map_of_SomeD)
  have wr: "fst (poll_write w buf t (mc_shared (fail_connection r c))) = Ready (Inl (FromMux (ConnectionClosed r)))"
    if "buf \<noteq> []" "\<not> ms_reset t" for w buf t
    using that by (simp add: eq c0_def poll_write_def connection_dead_error_def dead_reason_def)
  show ?thesis
  proof (cases "sender_held a c0")
    case True
    then have "mc_cells (fail_connection r c) a = Some (set_write_waker None s)"
      "set_option (write_waker (ms_state s)) \<subseteq> set (mc_woken (fail_connection r c))"
      using drain_held [OF mem, of c0 s] s by (auto simp: eq c0_def)
    then show ?thesis using wr [of _ "set_write_waker None s"] s True held by (auto simp: set_write_waker_def)
  next
    case False
    then have e: "mc_cells (fail_connection r c) a = Some (ended s)"
      "set_option (write_waker (ms_state s)) \<union> set_option (mc_rd_waker c a) \<subseteq> set (mc_woken (fail_connection r c))"
      using drain_ends [OF mem, of c0 s] s by (auto simp: eq c0_def)
    moreover have "fst (poll_read k (ended s) (mc_shared (fail_connection r c))) = Ready (Inl (FromMux (ConnectionClosed r)))"
      if "0 < k" "drained s" for k
      using that s by (simp add: eq c0_def poll_read_def chan_recv_def ended_def set_write_waker_def drained_def
          connection_dead_error_def dead_reason_def)
    moreover have "\<not> ms_reset (ended s)" using s by (simp add: ended_def set_write_waker_def)
    ultimately show ?thesis using wr [of _ "ended s"] by auto
  qed
qed

text \<open>Task 9 waits for bytes of stream 3 and task 5 for room in the outbound queue.\<close>

theorem failure_reaches_streams_witness:
  "let c = snd (read_at 9 4 1 (two_streams\<lparr>mc_shared := park_outbound 5 (mc_shared two_streams)\<rparr>)); c' = fail_connection HandleDropped c
   in mc_rd_waker c 1 = Some 9 \<and> 9 \<in> set (mc_woken c') \<and> sh_outbound_waker (mc_shared c') = Some 5 \<and>
     (\<exists>s'. mc_cells c' 1 = Some s' \<and> fst (poll_read 4 s' (mc_shared c')) = Ready (Inl (FromMux (ConnectionClosed HandleDropped))))"
proof -
  define c where "c = snd (read_at 9 4 1 (two_streams\<lparr>mc_shared := park_outbound 5 (mc_shared two_streams)\<rparr>))"
  have p: "poll_read 4 (stream_new 3) sh = (Pending, stream_new 3, sh)" for sh
    by (simp add: poll_read_def stream_new_def chan_recv_def)
  then have c: "mc_rd_waker c 1 = Some 9" "\<not> mc_dead c" "routes 3 1 c" "mc_cells c 1 = Some (stream_new 3)"
    "mc_reader c = Reading" "sh_outbound_waker (mc_shared c) = Some 5"
    by (simp_all add: c_def read_at_def two_streams routes_def park_outbound_def)
  have new: "\<not> ms_reset (stream_new 3)" "drained (stream_new 3)" by (simp_all add: stream_new_def drained_def)
  show ?thesis
    unfolding c_def [symmetric] using failure_reaches_streams [OF c(2-4) new(1), of HandleDropped] c new(2) by (auto simp: Let_def)
qed

section \<open>Relay teardown\<close>

lemma routes_delete_free:
  assumes "conn_inv n c" "routes sid a c" "mc_reader c = Reading"
  shows "\<not> sender_held a (c\<lparr>mc_table := AList.delete sid (mc_table c)\<rparr>)"
proof
  assume "sender_held a (c\<lparr>mc_table := AList.delete sid (mc_table c)\<rparr>)"
  then obtain t where "(t, a) \<in> set (AList.delete sid (mc_table c))"
    using assms(3) by (auto simp: sender_held_def)
  then have "(t, a) \<in> set (mc_table c)" "t \<noteq> sid" by (auto simp: AList.delete_eq)
  then have "routes t a c" using assms(1) by (simp add: routes_def conn_inv_distinct)
  then show False using routes_inj [OF assms(1,2)] \<open>t \<noteq> sid\<close> by blast
qed

definition reset_cell :: "reset_error option \<Rightarrow> cell \<Rightarrow> cell" where
  "reset_cell d s = ended (s\<lparr>ms_reset_detail := (case d of None \<Rightarrow> ms_reset_detail s | Some x \<Rightarrow> Some x), ms_reset := True\<rparr>)"

lemma teardown_effect:
  assumes inv: "conn_inv n c" and rt: "routes sid a c" and idle: "mc_reader c = Reading" and s: "mc_cells c a = Some s"
  shows "mc_cells (teardown_stream sid d c) = (mc_cells c)(a \<mapsto> reset_cell d s)"
    "set_option (write_waker (ms_state s)) \<union> set_option (mc_rd_waker c a) \<subseteq> set (mc_woken (teardown_stream sid d c))"
proof -
  define c1 where "c1 = c\<lparr>mc_table := AList.delete sid (mc_table c)\<rparr>"
  define c2 where "c2 = upd_cell a (\<lambda>s. s\<lparr>ms_reset_detail := (case d of None \<Rightarrow> ms_reset_detail s | Some d \<Rightarrow> Some d),
     ms_reset := True\<rparr>) c1"
  have eq: "teardown_stream sid d c = drop_sender a (take_write_waker a c2)"
    using rt by (simp add: teardown_stream_def routes_def c1_def c2_def)
  have "\<not> sender_held a c1" unfolding c1_def by (rule routes_delete_free [OF inv rt idle])
  then have "\<not> sender_held a (take_write_waker a c2)" by (simp add: c2_def sender_held_def)
  note eff = drop_sender_effect(1,2) [OF this]
  show "mc_cells (teardown_stream sid d c) = (mc_cells c)(a \<mapsto> reset_cell d s)"
    unfolding eq eff using s by (simp add: c2_def c1_def reset_cell_def ended_def set_write_waker_def)
  show "set_option (write_waker (ms_state s)) \<union> set_option (mc_rd_waker c a) \<subseteq> set (mc_woken (teardown_stream sid d c))"
    unfolding eq eff using s by (auto simp: take_write_waker_woken c2_def c1_def)
qed

lemma reset_cell_polls:
  "0 < k \<Longrightarrow> drained s \<Longrightarrow> fst (poll_read k (reset_cell (Some d) s) sh) = Ready (Inl (ResetByPeer ConnectionReset (ms_id s) (Some d)))"
  "buf \<noteq> [] \<Longrightarrow> fst (poll_write w buf (reset_cell (Some d) s) sh) = Ready (Inl (ResetByPeer BrokenPipe (ms_id s) (Some d)))"
  by (simp_all add: poll_read_def poll_write_def reset_cell_def ended_def set_write_waker_def drained_def chan_recv_def
      reset_by_peer_error_def reset_by_peer_write_error_def)

text \<open>
  C13: a stream-scoped error of the relay resets exactly one stream. The link stays up with its state
  unchanged, every other stream's cell and table entry are untouched; the refused stream leaves the table,
  its parked reader and writer are woken, and its reads (once drained) and writes fail with the
  code and message of the relay's frame.
\<close>

theorem relay_error_resets_one_stream:
  assumes reach: "conn_reach (conn_build Client RelayLink control) n c" and idle: "mc_reader c = Reading"
    and rt: "routes sid a c" "sid \<noteq> 0" and s: "mc_cells c a = Some s"
  shows "let c' = reader_frame (Error sid code message) c;
             d = \<lparr>reset_code = code, reset_message = message\<rparr> in
    mc_shared c' = mc_shared c \<and> mc_reader c' = Reading \<and> (\<forall>b. b \<noteq> a \<longrightarrow> mc_cells c' b = mc_cells c b) \<and>
    map_of (mc_table c') = (map_of (mc_table c))(sid := None) \<and>
    set_option (write_waker (ms_state s)) \<union> set_option (mc_rd_waker c a) \<subseteq> set (mc_woken c') \<and>
    (\<exists>s'. mc_cells c' a = Some s' \<and>
      (\<forall>k sh. 0 < k \<longrightarrow> drained s \<longrightarrow> fst (poll_read k s' sh) = Ready (Inl (ResetByPeer ConnectionReset sid (Some d)))) \<and>
      (\<forall>w buf sh. buf \<noteq> [] \<longrightarrow> fst (poll_write w buf s' sh) = Ready (Inl (ResetByPeer BrokenPipe sid (Some d)))))"
proof -
  define d where "d = \<lparr>reset_code = code, reset_message = message\<rparr>"
  have inv: "conn_inv n c" using conn_inv_reach [OF reach] conn_inv_build by blast
  have "sh_mode (mc_shared c) = RelayLink"
    using reach
    by induction (auto simp: conn_build_def shared_new_def link_mono_def dest: conn_step_mono
        simp: open_insert_mono [unfolded link_mono_def])
  then have eq: "reader_frame (Error sid code message) c = teardown_stream sid (Some d) c"
    using rt by (simp add: relay_link_or_fail_def is_relay_link_def d_def)
  have "ms_id s = sid" using routes_cell [OF inv rt(1)] s by (simp add: cell_ids_def)
  then have "\<exists>s'. mc_cells (teardown_stream sid (Some d) c) a = Some s' \<and>
      (\<forall>k sh. 0 < k \<longrightarrow> drained s \<longrightarrow> fst (poll_read k s' sh) = Ready (Inl (ResetByPeer ConnectionReset sid (Some d)))) \<and>
      (\<forall>w buf sh. buf \<noteq> [] \<longrightarrow> fst (poll_write w buf s' sh) = Ready (Inl (ResetByPeer BrokenPipe sid (Some d))))"
    using reset_cell_polls [where s = s and d = d] by (simp add: teardown_effect(1) [OF inv rt(1) idle s])
  then show ?thesis
    unfolding Let_def d_def [symmetric] eq
    using teardown_effect [OF inv rt(1) idle s, of "Some d"] idle by simp
qed

definition one_routed :: conn where
  "one_routed = snd (open_insert (conn_build Client RelayLink None))"

lemma one_routed:
  "conn_reach (conn_build Client RelayLink None) 1 one_routed" "routes 1 0 one_routed" "mc_reader one_routed = Reading"
  "mc_cells one_routed 0 = Some (stream_new 1)" "\<not> mc_dead one_routed"
proof -
  show "conn_reach (conn_build Client RelayLink None) 1 one_routed"
    unfolding one_routed_def using conn_reach.opened [OF conn_reach.start] by simp
qed (simp_all add: one_routed_def routes_def open_insert_def table_insert_new_def Let_def conn_build_def shared_new_def)

theorem relay_error_resets_one_stream_witness:
  "let c' = reader_frame (Error 1 404 ''no such node'') one_routed in
     \<not> mc_dead c' \<and> map_of (mc_table c') 1 = None \<and>
     (\<exists>s'. mc_cells c' 0 = Some s' \<and> fst (poll_read 8 s' (mc_shared c')) =
        Ready (Inl (ResetByPeer ConnectionReset 1 (Some \<lparr>reset_code = 404, reset_message = ''no such node''\<rparr>))))"
proof -
  have "drained (stream_new 1)" by (simp add: drained_def stream_new_def)
  then show ?thesis
    using relay_error_resets_one_stream [OF one_routed(1,3,2) _ one_routed(4), of 404 "''no such node''"] one_routed(5)
    by (auto simp: Let_def)
qed

section \<open>Half-close\<close>

text \<open>
  C14: the order in which the two legs of a stream are closed decides what a late window grant does. If the local leg is
  closed first, the peer's \<open>Close\<close> removes the entry; the grant the peer still sends when its application reads the rest
  of the buffered data then names an unknown stream and fails the whole connection. If the peer closed first, the entry
  stays when the local leg is closed, and the same grant is taken without any harm.
\<close>

theorem late_window_fails_connection:
  assumes "\<not> mc_dead c" "routes sid a c" "mc_cells c a = Some s"
  shows "(fin_sent (ms_state s) \<and> \<not> ms_peer_fin s \<longrightarrow>
      (let c' = reader_frame (Window sid credit) (reader_frame (Close sid) c) in
         mc_dead c' \<and> dead_reason (mc_shared c') = UnknownStreamReason sid \<and> mc_table c' = [])) \<and>
    (ms_peer_fin s \<and> unat (peer_credit (ms_state s)) + unat credit < 2 ^ 64 \<longrightarrow>
      (let c1 = snd (shutdown_at w a c); c' = reader_frame (Window sid credit) c1 in
         mc_dead c' = mc_dead c \<and> mc_table c' = mc_table c))"
proof (intro conjI impI)
  assume closed: "fin_sent (ms_state s) \<and> \<not> ms_peer_fin s"
  define c1 where "c1 = reader_frame (Close sid) c"
  have c1: "map_of (mc_table c1) sid = None" "mc_shared c1 = mc_shared c"
    using assms closed by (simp_all add: c1_def on_close_def mux_lookup_def routes_def Let_def)
  then have "reader_frame (Window sid credit) c1 = reader_fail (UnknownStreamReason sid) c1"
    by (simp add: on_window_def mux_lookup_def reader_fail_def)
  then show "let c' = reader_frame (Window sid credit) (reader_frame (Close sid) c) in
      mc_dead c' \<and> dead_reason (mc_shared c') = UnknownStreamReason sid \<and> mc_table c' = []"
    unfolding c1_def [symmetric] using assms(1) c1(2) fail_connection_alive [of c1 "UnknownStreamReason sid"]
    by (simp add: Let_def dead_reason_def)
next
  assume peer: "ms_peer_fin s \<and> unat (peer_credit (ms_state s)) + unat credit < 2 ^ 64"
  obtain r s1 sh1 where ps: "poll_shutdown w s (mc_shared c) = (r, s1, sh1)" by (cases "poll_shutdown w s (mc_shared c)")
  have sh: "sh_dead sh1 = sh_dead (mc_shared c)" using poll_shutdown_same_link [OF ps] by (simp add: same_link_def)
  have credit: "peer_credit (ms_state s1) = peer_credit (ms_state s)"
    using ps by (auto simp: poll_shutdown_def set_fin_sent_def split: if_splits prod.splits send_result.splits)
  define c1 where "c1 = snd (shutdown_at w a c)"
  have c1: "mc_cells c1 a = Some s1" "mc_table c1 = mc_table c" "mc_dead c1 = mc_dead c"
    using assms(3) sh by (simp_all add: c1_def shutdown_at_def ps)
  have "grant_credit credit s1 \<noteq> None" using peer credit by (simp add: grant_credit_def checked_add_u64_def)
  then obtain s2 k where "grant_credit credit s1 = Some (s2, k)" by auto
  then have "reader_frame (Window sid credit) c1 = wake k (put_cell a s2 c1)"
    using assms(2) c1 by (simp add: on_window_def mux_lookup_def routes_def)
  then show "let c1 = snd (shutdown_at w a c); c' = reader_frame (Window sid credit) c1 in
      mc_dead c' = mc_dead c \<and> mc_table c' = mc_table c"
    unfolding c1_def [symmetric] using c1 by (simp add: Let_def)
qed

theorem late_window_fails_connection_witness:
  "let c = snd (shutdown_at 7 0 one_routed); c' = reader_frame (Window 1 131072) (reader_frame (Close 1) c);
       d = reader_frame (Close 1) one_routed; d' = reader_frame (Window 1 131072) (snd (shutdown_at 7 0 d)) in
    \<not> mc_dead c \<and> mc_dead c' \<and> dead_reason (mc_shared c') = UnknownStreamReason 1 \<and> \<not> mc_dead d'"
proof -
  define c where "c = snd (shutdown_at 7 0 one_routed)"
  define d where "d = reader_frame (Close 1) one_routed"
  have "chan_rx_open (sh_outbound (mc_shared one_routed))" "chan_queue (sh_outbound (mc_shared one_routed)) = []"
    "chan_cap (sh_outbound (mc_shared one_routed)) = 1024"
    by (simp_all add: one_routed_def open_insert_def table_insert_new_def Let_def conn_build_def shared_new_def caps)
  then have c: "\<not> mc_dead c" "routes 1 0 c" "mc_cells c 0 = Some (set_fin_sent (stream_new 1))"
    using one_routed(2,4,5)
    by (simp_all add: c_def shutdown_at_def poll_shutdown_def chan_try_send_def routes_def stream_new_def)
  have "fin_sent (ms_state (set_fin_sent (stream_new 1)))" "\<not> ms_peer_fin (set_fin_sent (stream_new 1))"
    by (simp_all add: set_fin_sent_def stream_new_def)
  moreover have d: "\<not> mc_dead d" "routes 1 0 d" "mc_cells d 0 = Some ((stream_new 1)\<lparr>ms_peer_fin := True\<rparr>)"
    using one_routed(2,4,5) by (simp_all add: d_def on_close_def mux_lookup_def routes_def stream_new_def Let_def)
  moreover have "unat (peer_credit (ms_state ((stream_new 1)\<lparr>ms_peer_fin := True\<rparr>))) + unat (131072 :: u64) < 2 ^ 64"
    by (simp add: stream_new_def DEFAULT_STREAM_WINDOW_def)
  ultimately show ?thesis
    unfolding c_def [symmetric] d_def [symmetric]
    using late_window_fails_connection [OF c, of 131072 7] late_window_fails_connection [OF d, of 131072 7] c d by (simp add: Let_def)
qed

text \<open>
  The peer's half-close does not wake a parked reader. With the local leg still open, the \<open>Close\<close>
  frame makes end-of-file available on a drained stream, but the waker the reader task left with the
  stream's channel stays there and nothing is woken.
\<close>

theorem half_close_wakes_nobody:
  assumes "routes sid a c" "mc_cells c a = Some s" "\<not> ms_peer_fin s" "\<not> fin_sent (ms_state s)"
    "ms_tx_live s" "drained s" "mc_rd_waker c a = Some w"
  shows "let c' = reader_frame (Close sid) c in
    mc_woken c' = mc_woken c \<and> mc_rd_waker c' a = Some w \<and>
    (\<exists>s'. mc_cells c' a = Some s' \<and> (\<forall>k. 0 < k \<longrightarrow> fst (poll_read k s' (mc_shared c')) = Ready (Inr [])))"
  using assms
  by (simp add: on_close_def mux_lookup_def routes_def Let_def poll_read_def chan_recv_def drained_def)

theorem half_close_wakes_nobody_witness:
  "let c = snd (read_at 9 4 0 one_routed); c' = reader_frame (Close 1) c in
    mc_rd_waker c' 0 = Some 9 \<and> mc_woken c' = [] \<and>
    (\<exists>s'. mc_cells c' 0 = Some s' \<and> fst (poll_read 4 s' (mc_shared c')) = Ready (Inr []))"
proof -
  define c where "c = snd (read_at 9 4 0 one_routed)"
  have p: "poll_read 4 (stream_new 1) sh = (Pending, stream_new 1, sh)" for sh
    by (simp add: poll_read_def stream_new_def chan_recv_def)
  have "mc_woken one_routed = []"
    by (simp add: one_routed_def open_insert_def table_insert_new_def Let_def conn_build_def shared_new_def)
  with p have c: "routes 1 0 c" "mc_cells c 0 = Some (stream_new 1)" "mc_rd_waker c 0 = Some 9" "mc_woken c = []"
    using one_routed by (simp_all add: c_def read_at_def routes_def)
  have "drained (stream_new 1)" "ms_tx_live (stream_new 1)" "\<not> ms_peer_fin (stream_new 1)"
    "\<not> fin_sent (ms_state (stream_new 1))"
    by (simp_all add: drained_def stream_new_def)
  then show ?thesis
    unfolding c_def [symmetric] using half_close_wakes_nobody [OF c(1,2) _ _ _ _ c(3)] c(4)
    by (auto simp: Let_def)
qed

section \<open>Opening during a failure\<close>

text \<open>
  An open that has checked the dead flag before the connection fails succeeds after it. The new
  stream sits in the table of a dead connection whose reader and writer tasks have returned, its
  inbound channel is live, and a read on it waits.
\<close>

theorem open_after_failure_waits:
  "\<exists>c1 c2 c3 a s. conn_reach (conn_build Client RelayLink control) 0 c1 \<and> open_check (conn_build Client RelayLink control) = None \<and>
     mc_dead c1 \<and> open_insert c1 = (Inr (1, a), c2) \<and> open_send (OpenStream 1 target) 1 a c2 = (Ready (Inr a), c3) \<and>
     conn_reach (conn_build Client RelayLink control) 1 c3 \<and> mc_reader c3 = ReaderDone \<and> mc_cells c3 a = Some s \<and>
     (\<forall>k. 0 < k \<longrightarrow> fst (poll_read k s (mc_shared (writer_return c3))) = Pending)"
proof -
  define c0 where "c0 = conn_build Client RelayLink control"
  define c1 where "c1 = reader_error TruncatedFrame c0"
  have c0: "mc_reader c0 = Reading" "\<not> mc_dead c0" by (simp_all add: c0_def conn_build_def shared_new_def)
  have r1: "conn_reach c0 0 c1"
    unfolding c1_def by (rule conn_reach.moved [OF conn_reach.start conn_step.read_failed [OF c0(1)]])
  have c1: "mc_dead c1" "mc_table c1 = []" "mc_next c1 = 0" "mc_reader c1 = ReaderDone"
    "sh_next_local_id (mc_shared c1) = 1" "sh_outbound (mc_shared c1) = chan_new OUTBOUND_QUEUE"
    using fail_connection_alive [OF c0(2)]
    by (simp_all add: c1_def reader_error_def) (simp_all add: c0_def conn_build_def shared_new_def)
  define c2 where "c2 = snd (open_insert c1)"
  have c2: "open_insert c1 = (Inr (1, 0), c2)" "mc_cells c2 0 = Some (stream_new 1)" "mc_reader c2 = ReaderDone"
    "sh_outbound (mc_shared c2) = chan_new OUTBOUND_QUEUE"
    using c1 by (simp_all add: c2_def open_insert_def table_insert_new_def Let_def)
  have r2: "conn_reach c0 1 c2" unfolding c2_def using conn_reach.opened [OF r1] by simp
  define c3 where "c3 = snd (open_send (OpenStream 1 target) 1 0 c2)"
  have c3: "open_send (OpenStream 1 target) 1 0 c2 = (Ready (Inr 0), c3)" "mc_reader c3 = ReaderDone"
    "mc_cells c3 0 = Some (stream_new 1)"
    using c2 by (simp_all add: c3_def open_send_def chan_try_send_def caps)
  have "conn_step c2 c3"
    unfolding c3_def using conn_step.send [of c2 0 "stream_new 1" "OpenStream 1 target" target] c2(2)
    by (simp add: stream_new_def)
  then have r3: "conn_reach c0 1 c3" by (rule conn_reach.moved [OF r2])
  have "fst (poll_read k (stream_new 1) sh) = Pending" if "0 < k" for k sh
    using that by (simp add: poll_read_def stream_new_def chan_recv_def)
  moreover have "open_check c0 = None" using c0 by (simp add: open_check_def)
  ultimately show ?thesis
    unfolding c0_def [symmetric] using r1 c1(1) c2(1) c3 r3 by blast
qed

theorem open_after_failure_waits_witness:
  "\<exists>c3 a s. conn_reach (conn_build Client RelayLink None) 1 c3 \<and> mc_reader c3 = ReaderDone \<and> mc_cells c3 a = Some s \<and>
     fst (poll_read 1 s (mc_shared (writer_return c3))) = Pending"
  using open_after_failure_waits [of None "''b''"] zero_less_one by meson

end
