(* ===== verification/Scheduler.thy ===== *)
theory Scheduler
  imports Frame
begin

text \<open>
  The per-link egress scheduler, \<^verbatim>\<open>src/infra/relay_scheduler.rs\<close>: two bounded ingress queues, a consumer
  task that sorts frames into a priority queue and per-stream buckets, and a writer task that serves
  the buckets by deficit round robin. The list of buckets stands for the iteration order of the
  \<^verbatim>\<open>HashMap\<close>, which the code leaves open. A \<^verbatim>\<open>Notify\<close> is its stored permit. The byte counts are
  \<^verbatim>\<open>usize\<close>s below the link budget, and subtractions from them are shown not to underflow; the deficit is an
  \<^verbatim>\<open>i64\<close>, modelled as an integer.
\<close>

section \<open>State\<close>

definition IDLE_REAP_PASSES :: nat where "IDLE_REAP_PASSES = 8"
definition LINK_OUTBOUND_QUEUE :: nat where "LINK_OUTBOUND_QUEUE = 256"

record sched_config =
  bucket_capacity_bytes :: nat
  link_budget_bytes :: nat
  round_budget_bytes :: nat
  ingress_capacity :: nat

definition default_config :: sched_config where
  "default_config = \<lparr>bucket_capacity_bytes = 1024 * 1024, link_budget_bytes = 64 * 1024 * 1024,
     round_budget_bytes = 64 * 1024, ingress_capacity = LINK_OUTBOUND_QUEUE\<rparr>"

record bucket =
  bk_queue :: "frame list"
  bk_queued_bytes :: nat
  bk_deficit :: int
  bk_idle_passes :: nat

definition bucket_new :: bucket where
  "bucket_new = \<lparr>bk_queue = [], bk_queued_bytes = 0, bk_deficit = 0, bk_idle_passes = 0\<rparr>"

record sched_shared =
  sc_priority :: "frame list"
  sc_buckets :: "(u32 \<times> bucket) list"
  sc_total_bucket_bytes :: nat
  sc_classified_frames :: u64
  sc_emitted_frames :: u64
  sc_emitted_by_stream :: "(u32 \<times> u64) list"
  sc_ingress_open :: bool
  sc_writer_done :: bool

text \<open>
  The writer task's position: about to drain the priority queue, about to make a round-robin pass (with
  whether the priority batch was empty), parked on \<open>work_available\<close>, or returned. \<open>ls_sent\<close> and
  \<open>ls_written\<close> record the frames accepted by the ingress and written to the socket.
\<close>

datatype writer_phase = WPriority | WPass bool | WParked | WDone

record link_sched =
  ls_bulk :: "frame chan"
  ls_control :: "frame chan"
  ls_senders :: bool
  ls_shared :: sched_shared
  ls_parked :: "frame option"
  ls_bulk_closed :: bool
  ls_control_closed :: bool
  ls_consumer_done :: bool
  ls_work_available :: bool
  ls_space_freed :: bool
  ls_writer :: writer_phase
  ls_bucket_capacity :: nat
  ls_link_budget :: nat
  ls_round_budget :: nat
  ls_sent :: "frame list"
  ls_written :: "frame list"

definition sched_spawn :: "sched_config \<Rightarrow> link_sched" where
  "sched_spawn config =
     (let bucket_capacity = max (bucket_capacity_bytes config) (unat MAX_FRAME_PAYLOAD);
          capacity = max (ingress_capacity config) 1
      in \<lparr>ls_bulk = chan_new capacity, ls_control = chan_new capacity, ls_senders = True,
          ls_shared = \<lparr>sc_priority = [], sc_buckets = [], sc_total_bucket_bytes = 0, sc_classified_frames = 0,
            sc_emitted_frames = 0, sc_emitted_by_stream = [], sc_ingress_open = True, sc_writer_done = False\<rparr>,
          ls_parked = None, ls_bulk_closed = False, ls_control_closed = False, ls_consumer_done = False,
          ls_work_available = False, ls_space_freed = False, ls_writer = WPriority,
          ls_bucket_capacity = bucket_capacity,
          ls_link_budget = max (link_budget_bytes config) bucket_capacity,
          ls_round_budget = max (round_budget_bytes config) 1,
          ls_sent = [], ls_written = []\<rparr>)"

section \<open>Ingress\<close>

definition ingress_try_send :: "frame \<Rightarrow> link_sched \<Rightarrow> link_sched \<times> send_result" where
  "ingress_try_send f s =
     (if is_bulk_ordered f then
        (case chan_try_send f (ls_bulk s) of
           (q, SendOk) \<Rightarrow> (s\<lparr>ls_bulk := q, ls_sent := ls_sent s @ [f]\<rparr>, SendOk)
         | (_, r) \<Rightarrow> (s, r))
      else
        (case chan_try_send f (ls_control s) of
           (q, SendOk) \<Rightarrow> (s\<lparr>ls_control := q, ls_sent := ls_sent s @ [f]\<rparr>, SendOk)
         | (_, r) \<Rightarrow> (s, r)))"

section \<open>The consumer task\<close>

datatype bucket_enqueue = Fits | Park frame | Dropped

definition entry_bucket :: "u32 \<Rightarrow> sched_shared \<Rightarrow> bucket" where
  "entry_bucket sid sh = (case map_of (sc_buckets sh) sid of None \<Rightarrow> bucket_new | Some b \<Rightarrow> b)"

definition enqueue_bucket :: "nat \<Rightarrow> nat \<Rightarrow> frame \<Rightarrow> sched_shared \<Rightarrow> bucket_enqueue \<times> sched_shared" where
  "enqueue_bucket bucket_capacity link_budget f sh =
     (let sid = frame_stream_id f; len = payload_len f in
      if sc_writer_done sh then (Dropped, sh)
      else
        let b = entry_bucket sid sh in
        if bk_queued_bytes b + len \<le> bucket_capacity \<and> sc_total_bucket_bytes sh + len \<le> link_budget then
          (Fits, sh\<lparr>sc_buckets := AList.update sid
                      (b\<lparr>bk_queue := bk_queue b @ [f], bk_queued_bytes := bk_queued_bytes b + len, bk_idle_passes := 0\<rparr>)
                      (sc_buckets sh),
                   sc_total_bucket_bytes := sc_total_bucket_bytes sh + len,
                   sc_classified_frames := sc_classified_frames sh + 1\<rparr>)
        else (Park f, sh\<lparr>sc_buckets := AList.update sid b (sc_buckets sh)\<rparr>))"

definition classify_bulk :: "frame \<Rightarrow> link_sched \<Rightarrow> link_sched" where
  "classify_bulk f s =
     (case enqueue_bucket (ls_bucket_capacity s) (ls_link_budget s) f (ls_shared s) of
        (Fits, sh) \<Rightarrow> s\<lparr>ls_shared := sh, ls_parked := None, ls_work_available := True\<rparr>
      | (Park g, sh) \<Rightarrow> s\<lparr>ls_shared := sh, ls_parked := Some g\<rparr>
      | (Dropped, sh) \<Rightarrow> s\<lparr>ls_shared := sh, ls_parked := None\<rparr>)"

definition classify_priority :: "frame \<Rightarrow> link_sched \<Rightarrow> link_sched" where
  "classify_priority f s =
     s\<lparr>ls_shared := (ls_shared s)\<lparr>sc_priority := sc_priority (ls_shared s) @ [f],
                                   sc_classified_frames := sc_classified_frames (ls_shared s) + 1\<rparr>,
       ls_work_available := True\<rparr>"

text \<open>
  The arms of the biased \<^verbatim>\<open>select!\<close> of \<^verbatim>\<open>ingress_consumer_loop\<close>, \<open>None\<close> when the arm is disabled or not
  ready. A receiver yields the end when it is empty and every sender is gone.
\<close>

definition retry_arm :: "link_sched \<Rightarrow> link_sched option" where
  "retry_arm s =
     (case ls_parked s of
        Some f \<Rightarrow> if ls_space_freed s then Some (classify_bulk f (s\<lparr>ls_space_freed := False, ls_parked := None\<rparr>)) else None
      | None \<Rightarrow> None)"

definition control_arm :: "link_sched \<Rightarrow> link_sched option" where
  "control_arm s =
     (if ls_control_closed s then None
      else case chan_recv (ls_control s) of
             Some (f, q) \<Rightarrow> Some (classify_priority f (s\<lparr>ls_control := q\<rparr>))
           | None \<Rightarrow> if ls_senders s then None else Some (s\<lparr>ls_control_closed := True\<rparr>))"

definition bulk_arm :: "link_sched \<Rightarrow> link_sched option" where
  "bulk_arm s =
     (if ls_bulk_closed s \<or> ls_parked s \<noteq> None then None
      else case chan_recv (ls_bulk s) of
             Some (f, q) \<Rightarrow>
               Some (if is_bulk_ordered f then classify_bulk f (s\<lparr>ls_bulk := q\<rparr>)
                     else classify_priority f (s\<lparr>ls_bulk := q\<rparr>))
           | None \<Rightarrow> if ls_senders s then None else Some (s\<lparr>ls_bulk_closed := True\<rparr>))"

definition consumer_exit :: "link_sched \<Rightarrow> link_sched" where
  "consumer_exit s =
     s\<lparr>ls_shared := (ls_shared s)\<lparr>sc_ingress_open := False\<rparr>, ls_work_available := True, ls_consumer_done := True,
       ls_bulk := (ls_bulk s)\<lparr>chan_rx_open := False\<rparr>, ls_control := (ls_control s)\<lparr>chan_rx_open := False\<rparr>\<rparr>"

definition consumer_turn :: "link_sched \<Rightarrow> link_sched" where
  "consumer_turn s =
     (if ls_consumer_done s then s
      else if ls_bulk_closed s \<and> ls_control_closed s \<and> ls_parked s = None then consumer_exit s
      else
        case retry_arm s of
          Some s' \<Rightarrow> s'
        | None \<Rightarrow>
            (case control_arm s of
               Some s' \<Rightarrow> s'
             | None \<Rightarrow> (case bulk_arm s of Some s' \<Rightarrow> s' | None \<Rightarrow> s)))"

section \<open>The writer task\<close>

definition record_emission :: "frame \<Rightarrow> sched_shared \<Rightarrow> sched_shared" where
  "record_emission f sh =
     sh\<lparr>sc_emitted_frames := sc_emitted_frames sh + 1,
        sc_emitted_by_stream := AList.update (frame_stream_id f)
          ((case map_of (sc_emitted_by_stream sh) (frame_stream_id f) of None \<Rightarrow> 0 | Some n \<Rightarrow> n) + 1)
          (sc_emitted_by_stream sh)\<rparr>"

text \<open>Writing a batch: \<open>Some k\<close> is a socket error at the frame with index \<open>k\<close>.\<close>

definition write_batch :: "nat option \<Rightarrow> frame list \<Rightarrow> frame list \<times> bool" where
  "write_batch failure batch =
     (case failure of
        None \<Rightarrow> (batch, True)
      | Some k \<Rightarrow> if k < length batch then (take k batch, False) else (batch, True))"

definition writer_exit :: "link_sched \<Rightarrow> link_sched" where
  "writer_exit s =
     s\<lparr>ls_shared := (ls_shared s)\<lparr>sc_writer_done := True\<rparr>, ls_space_freed := True, ls_writer := WDone\<rparr>"

definition writer_priority :: "nat option \<Rightarrow> link_sched \<Rightarrow> link_sched" where
  "writer_priority failure s =
     (let batch = sc_priority (ls_shared s);
          sh = fold record_emission batch ((ls_shared s)\<lparr>sc_priority := []\<rparr>);
          (out, ok) = write_batch failure batch;
          s1 = s\<lparr>ls_shared := sh, ls_written := ls_written s @ out\<rparr>
      in if ok then s1\<lparr>ls_writer := WPass (batch = [])\<rparr> else writer_exit s1)"

text \<open>The inner loop of a visit: frames go while the deficit covers them.\<close>

fun drr_take :: "frame list \<Rightarrow> int \<Rightarrow> frame list \<times> frame list \<times> int" where
  "drr_take [] d = ([], [], d)"
| "drr_take (f # q) d =
     (if int (payload_len f) > d then ([], f # q, d)
      else case drr_take q (d - int (payload_len f)) of (batch, q', d') \<Rightarrow> (f # batch, q', d'))"

definition frames_bytes :: "frame list \<Rightarrow> nat" where
  "frames_bytes fs = sum_list (map payload_len fs)"

text \<open>
  One visit of a bucket: an empty one ages, a live one gets the round budget and sends what its deficit
  covers, at least one frame.
\<close>

definition serve_bucket :: "nat \<Rightarrow> bucket \<Rightarrow> frame list \<times> bucket" where
  "serve_bucket round_budget b =
     (case bk_queue b of
        [] \<Rightarrow> ([], b\<lparr>bk_idle_passes := bk_idle_passes b + 1\<rparr>)
      | f # q \<Rightarrow>
          let d = bk_deficit b + int round_budget in
          (case drr_take (bk_queue b) d of
             ([], _, _) \<Rightarrow>
               ([f], b\<lparr>bk_queue := q, bk_queued_bytes := bk_queued_bytes b - payload_len f,
                       bk_deficit := d - int (payload_len f), bk_idle_passes := 0\<rparr>)
           | (batch, q', d') \<Rightarrow>
               (batch, b\<lparr>bk_queue := q', bk_queued_bytes := bk_queued_bytes b - frames_bytes batch,
                         bk_deficit := d', bk_idle_passes := 0\<rparr>)))"

fun drr_pass :: "nat \<Rightarrow> (u32 \<times> bucket) list \<Rightarrow> frame list \<times> (u32 \<times> bucket) list" where
  "drr_pass round_budget [] = ([], [])"
| "drr_pass round_budget ((sid, b) # bs) =
     (case serve_bucket round_budget b of
        (batch, b') \<Rightarrow> (case drr_pass round_budget bs of (rest, bs') \<Rightarrow> (batch @ rest, (sid, b') # bs')))"

definition reap :: "(u32 \<times> bucket) list \<Rightarrow> (u32 \<times> bucket) list" where
  "reap bs = filter (\<lambda>(_, b). \<not> (bk_queue b = [] \<and> bk_idle_passes b \<ge> IDLE_REAP_PASSES)) bs"

definition writer_pass :: "nat option \<Rightarrow> bool \<Rightarrow> link_sched \<Rightarrow> link_sched" where
  "writer_pass failure priority_empty s =
     (let sh = ls_shared s;
          (batch, bs) = drr_pass (ls_round_budget s) (sc_buckets sh);
          sh1 = fold record_emission batch
                  (sh\<lparr>sc_buckets := reap bs, sc_total_bucket_bytes := sc_total_bucket_bytes sh - frames_bytes batch\<rparr>);
          more_work = (sc_priority sh1 \<noteq> [] \<or> (\<exists>(_, b) \<in> set (sc_buckets sh1). bk_queue b \<noteq> []) \<or> sc_ingress_open sh1);
          (out, ok) = write_batch failure batch;
          s1 = s\<lparr>ls_shared := sh1, ls_space_freed := (ls_space_freed s \<or> batch \<noteq> []), ls_written := ls_written s @ out\<rparr>
      in if \<not> ok then writer_exit s1
         else if \<not> more_work \<and> batch = [] then writer_exit s1
         else if more_work \<and> batch = [] \<and> priority_empty then s1\<lparr>ls_writer := WParked\<rparr>
         else s1\<lparr>ls_writer := WPriority\<rparr>)"

definition link_writer_turn :: "nat option \<Rightarrow> link_sched \<Rightarrow> link_sched" where
  "link_writer_turn failure s =
     (case ls_writer s of
        WPriority \<Rightarrow> writer_priority failure s
      | WPass e \<Rightarrow> writer_pass failure e s
      | WParked \<Rightarrow> if ls_work_available s then s\<lparr>ls_work_available := False, ls_writer := WPriority\<rparr> else s
      | WDone \<Rightarrow> s)"

inductive sched_step :: "link_sched \<Rightarrow> link_sched \<Rightarrow> bool" where
  ingress: "ls_senders s \<Longrightarrow> sched_step s (fst (ingress_try_send f s))"
| drop_senders: "sched_step s (s\<lparr>ls_senders := False\<rparr>)"
| consumer: "sched_step s (consumer_turn s)"
| writer: "sched_step s (link_writer_turn failure s)"

inductive sched_reach :: "sched_config \<Rightarrow> link_sched \<Rightarrow> bool" for config where
  start: "sched_reach config (sched_spawn config)"
| step: "sched_reach config s \<Longrightarrow> sched_step s s' \<Longrightarrow> sched_reach config s'"

section \<open>One pass\<close>

lemma frames_bytes_simps [simp]:
  "frames_bytes [] = 0" "frames_bytes (f # fs) = payload_len f + frames_bytes fs"
  "frames_bytes (fs @ gs) = frames_bytes fs + frames_bytes gs"
  by (simp_all add: frames_bytes_def)

lemma drr_take_split:
  "drr_take q d = (batch, q', d') \<Longrightarrow>
     q = batch @ q' \<and> d' = d - int (frames_bytes batch) \<and> (batch \<noteq> [] \<longrightarrow> 0 \<le> d') \<and>
     (q' \<noteq> [] \<longrightarrow> d' < int (payload_len (hd q')))"
  by (induction q d arbitrary: batch rule: drr_take.induct) (auto split: if_splits prod.splits)

lemma drr_take_all: "int (frames_bytes q) \<le> d \<Longrightarrow> drr_take q d = (q, [], d - int (frames_bytes q))"
  by (induction q d rule: drr_take.induct) auto

definition bucket_ok :: "u32 \<Rightarrow> bucket \<Rightarrow> bool" where
  "bucket_ok sid b \<longleftrightarrow> bk_queued_bytes b = frames_bytes (bk_queue b) \<and>
     (\<forall>f \<in> set (bk_queue b). frame_stream_id f = sid \<and> is_bulk_ordered f)"

text \<open>What one visit does: the batch is a prefix of the queue, not empty if the queue is not.\<close>

lemma serve_bucket_spec:
  assumes "serve_bucket r b = (batch, b')" "bucket_ok sid b"
  shows "bk_queue b = batch @ bk_queue b'" "bucket_ok sid b'" "bk_queue b \<noteq> [] \<Longrightarrow> batch \<noteq> []"
    "bk_queued_bytes b = frames_bytes batch + bk_queued_bytes b'"
    "bk_queue b \<noteq> [] \<Longrightarrow> bk_deficit b' = bk_deficit b + int r - int (frames_bytes batch)"
    "frames_bytes batch \<le> max (nat (bk_deficit b + int r)) (payload_len (hd (bk_queue b)))"
proof -
  have "bk_queue b = batch @ bk_queue b' \<and> bucket_ok sid b' \<and> (bk_queue b \<noteq> [] \<longrightarrow> batch \<noteq> []) \<and>
      bk_queued_bytes b = frames_bytes batch + bk_queued_bytes b' \<and>
      (bk_queue b \<noteq> [] \<longrightarrow> bk_deficit b' = bk_deficit b + int r - int (frames_bytes batch)) \<and>
      frames_bytes batch \<le> max (nat (bk_deficit b + int r)) (payload_len (hd (bk_queue b)))"
  proof (cases "bk_queue b")
    case Nil
    then show ?thesis using assms by (auto simp: serve_bucket_def bucket_ok_def)
  next
    case (Cons f q)
    obtain bt q' d' where dt: "drr_take (f # q) (bk_deficit b + int r) = (bt, q', d')"
      by (cases "drr_take (f # q) (bk_deficit b + int r)")
    note sp = drr_take_split [OF dt]
    show ?thesis
    proof (cases bt)
      case Nil
      then have "batch = [f]" "b' = b\<lparr>bk_queue := q, bk_queued_bytes := bk_queued_bytes b - payload_len f,
          bk_deficit := bk_deficit b + int r - int (payload_len f), bk_idle_passes := 0\<rparr>"
        using assms(1) Cons dt by (simp_all add: serve_bucket_def Let_def del: drr_take.simps)
      then show ?thesis using assms(2) Cons by (simp add: bucket_ok_def)
    next
      case (Cons g gs)
      then have "serve_bucket r b = (g # gs, b\<lparr>bk_queue := q', bk_queued_bytes := bk_queued_bytes b - frames_bytes (g # gs),
          bk_deficit := d', bk_idle_passes := 0\<rparr>)"
        using \<open>bk_queue b = f # q\<close> dt by (simp add: serve_bucket_def Let_def del: drr_take.simps)
      then have "batch = g # gs" "b' = b\<lparr>bk_queue := q', bk_queued_bytes := bk_queued_bytes b - frames_bytes (g # gs),
          bk_deficit := d', bk_idle_passes := 0\<rparr>"
        using assms(1) by simp_all
      moreover have "f # q = (g # gs) @ q'" "d' = bk_deficit b + int r - int (frames_bytes (g # gs))" "0 \<le> d'"
        using sp Cons by simp_all
      moreover from this have "bk_queue b = (g # gs) @ q'" using \<open>bk_queue b = f # q\<close> by simp
      ultimately show ?thesis using assms(2) unfolding bucket_ok_def by simp
    qed
  qed
  then show "bk_queue b = batch @ bk_queue b'" "bucket_ok sid b'" "bk_queue b \<noteq> [] \<Longrightarrow> batch \<noteq> []"
    "bk_queued_bytes b = frames_bytes batch + bk_queued_bytes b'"
    "bk_queue b \<noteq> [] \<Longrightarrow> bk_deficit b' = bk_deficit b + int r - int (frames_bytes batch)"
    "frames_bytes batch \<le> max (nat (bk_deficit b + int r)) (payload_len (hd (bk_queue b)))"
    by blast+
qed

definition buckets_ok :: "(u32 \<times> bucket) list \<Rightarrow> bool" where
  "buckets_ok bs \<longleftrightarrow> keys_distinct bs \<and> (\<forall>(sid, b) \<in> set bs. bucket_ok sid b)"

definition queue_of :: "u32 \<Rightarrow> (u32 \<times> bucket) list \<Rightarrow> frame list" where
  "queue_of sid bs = (case map_of bs sid of None \<Rightarrow> [] | Some b \<Rightarrow> bk_queue b)"

definition buckets_bytes :: "(u32 \<times> bucket) list \<Rightarrow> nat" where
  "buckets_bytes bs = sum_list (map (bk_queued_bytes \<circ> snd) bs)"

definition stream_frames :: "u32 \<Rightarrow> frame list \<Rightarrow> frame list" where
  "stream_frames sid fs = filter (\<lambda>f. is_bulk_ordered f \<and> frame_stream_id f = sid) fs"

definition control_frames :: "frame list \<Rightarrow> frame list" where
  "control_frames fs = filter (\<lambda>f. \<not> is_bulk_ordered f) fs"

lemma stream_frames_simps [simp]:
  "stream_frames sid [] = []" "stream_frames sid (fs @ gs) = stream_frames sid fs @ stream_frames sid gs"
  "stream_frames sid (f # fs) = (if is_bulk_ordered f \<and> frame_stream_id f = sid then [f] else []) @ stream_frames sid fs"
  by (simp_all add: stream_frames_def)

lemma control_frames_simps [simp]:
  "control_frames [] = []" "control_frames (fs @ gs) = control_frames fs @ control_frames gs"
  "control_frames (f # fs) = (if is_bulk_ordered f then [] else [f]) @ control_frames fs"
  by (simp_all add: control_frames_def)

lemma stream_frames_own: "\<forall>f \<in> set fs. frame_stream_id f = sid \<and> is_bulk_ordered f \<Longrightarrow> stream_frames t fs = (if t = sid then fs else [])"
  by (induction fs) auto

lemma queue_of_Cons: "queue_of t ((sid, b) # bs) = (if t = sid then bk_queue b else queue_of t bs)"
  by (simp add: queue_of_def)

lemma queue_of_absent: "sid \<notin> set (map fst bs) \<Longrightarrow> queue_of sid bs = []"
proof -
  assume "sid \<notin> set (map fst bs)"
  then have "map_of bs sid = None" by (simp add: map_of_eq_None_iff)
  then show ?thesis by (simp add: queue_of_def)
qed

text \<open>The pass as a whole, per stream.\<close>

lemma drr_pass_spec:
  assumes "drr_pass r bs = (batch, bs')" "buckets_ok bs"
  shows "map fst bs' = map fst bs \<and> buckets_ok bs' \<and> buckets_bytes bs = frames_bytes batch + buckets_bytes bs' \<and>
     (\<forall>t. queue_of t bs = stream_frames t batch @ queue_of t bs') \<and> control_frames batch = [] \<and>
     (\<forall>t. queue_of t bs \<noteq> [] \<longrightarrow> stream_frames t batch \<noteq> [])"
  using assms
proof (induction r bs arbitrary: batch bs' rule: drr_pass.induct)
  case (2 r sid b bs)
  obtain own b' where sb: "serve_bucket r b = (own, b')" by (cases "serve_bucket r b")
  obtain rest bs1 where dp: "drr_pass r bs = (rest, bs1)" by (cases "drr_pass r bs")
  have eqs: "batch = own @ rest" "bs' = (sid, b') # bs1" using "2.prems"(1) sb dp by auto
  have ok: "bucket_ok sid b" "buckets_ok bs" "sid \<notin> set (map fst bs)" using "2.prems"(2) by (auto simp: buckets_ok_def)
  have IH: "map fst bs1 = map fst bs" "buckets_ok bs1" "buckets_bytes bs = frames_bytes rest + buckets_bytes bs1"
    "control_frames rest = []"
    and IHq: "\<And>t. queue_of t bs = stream_frames t rest @ queue_of t bs1"
    and IHn: "\<And>t. queue_of t bs \<noteq> [] \<Longrightarrow> stream_frames t rest \<noteq> []"
    using "2.IH" [OF sb [symmetric] dp ok(2)] by blast+
  note spec = serve_bucket_spec [OF sb ok(1)]
  have "\<forall>f \<in> set own. frame_stream_id f = sid \<and> is_bulk_ordered f"
    using ok(1) spec(1) unfolding bucket_ok_def by simp
  then have own: "stream_frames t own = (if t = sid then own else [])" and "control_frames own = []" for t
    by (simp_all add: stream_frames_own control_frames_def)
  then have c: "control_frames batch = []" using IH(4) by (simp add: eqs)
  have "queue_of sid bs = []" using queue_of_absent [OF ok(3)] .
  then have none: "stream_frames sid rest = []" using IHq [of sid] by simp
  have "keys_distinct bs'" using ok IH(1,2) by (simp add: eqs buckets_ok_def)
  then have "buckets_ok bs'" using IH(2) spec(2) by (simp add: eqs buckets_ok_def)
  moreover have "buckets_bytes ((sid, b) # bs) = frames_bytes batch + buckets_bytes bs'"
    using IH(3) spec(4) by (simp add: eqs buckets_bytes_def)
  moreover have "queue_of t ((sid, b) # bs) = stream_frames t batch @ queue_of t bs'" for t
    using IHq [of t] spec(1) own none by (simp add: eqs queue_of_Cons)
  moreover have "stream_frames t batch \<noteq> []" if "queue_of t ((sid, b) # bs) \<noteq> []" for t
    using that IHn [of t] spec(3) own by (simp add: eqs queue_of_Cons split: if_splits)
  moreover have "map fst bs' = map fst ((sid, b) # bs)" using IH(1) by (simp add: eqs)
  ultimately show ?case using c by blast
qed (auto simp: buckets_ok_def buckets_bytes_def queue_of_def)

lemma reap_step: "reap ((sid, b) # bs) = (if bk_queue b = [] \<and> bk_idle_passes b \<ge> IDLE_REAP_PASSES then reap bs else (sid, b) # reap bs)"
  by (simp add: reap_def)

lemma reap_conj:
  assumes "buckets_ok bs"
  shows "buckets_ok (reap bs) \<and> buckets_bytes (reap bs) = buckets_bytes bs \<and> queue_of t (reap bs) = queue_of t bs \<and>
    set (reap bs) \<subseteq> set bs"
  using assms
proof (induction bs)
  case (Cons p bs)
  obtain sid b where p: "p = (sid, b)" by (cases p)
  have ok: "buckets_ok bs" "bucket_ok sid b" "sid \<notin> set (map fst bs)" using Cons.prems by (auto simp: buckets_ok_def p)
  note IH = Cons.IH [OF ok(1)]
  have "sid \<notin> set (map fst (reap bs))" using ok(3) IH by auto
  then have "buckets_ok (reap (p # bs))" using IH ok(2) by (auto simp: p reap_step buckets_ok_def)
  moreover have "buckets_bytes (reap (p # bs)) = buckets_bytes (p # bs)"
    using IH ok(2) by (auto simp: p reap_step buckets_bytes_def bucket_ok_def)
  moreover have "queue_of t (reap (p # bs)) = queue_of t (p # bs)"
    using IH queue_of_absent [OF ok(3)] by (auto simp: p reap_step queue_of_Cons)
  moreover have "set (reap (p # bs)) \<subseteq> set (p # bs)" by (auto simp: reap_def)
  ultimately show ?case by blast
qed (simp add: reap_def)

lemmas reap_spec = reap_conj [THEN conjunct1] reap_conj [THEN conjunct2, THEN conjunct1]
  reap_conj [THEN conjunct2, THEN conjunct2, THEN conjunct1]
  reap_conj [THEN conjunct2, THEN conjunct2, THEN conjunct2]

section \<open>Invariants\<close>

definition opt_list :: "'a option \<Rightarrow> 'a list" where
  "opt_list x = (case x of None \<Rightarrow> [] | Some y \<Rightarrow> [y])"

lemma opt_list_simps [simp]: "opt_list None = []" "opt_list (Some x) = [x]"
  by (simp_all add: opt_list_def)

text \<open>Byte accounting and bounds, and what each queue may hold.\<close>

definition acct_ok :: "nat \<Rightarrow> nat \<Rightarrow> sched_shared \<Rightarrow> bool" where
  "acct_ok cap budget sh \<longleftrightarrow>
     buckets_ok (sc_buckets sh) \<and> sc_total_bucket_bytes sh = buckets_bytes (sc_buckets sh) \<and>
     sc_total_bucket_bytes sh \<le> budget \<and> (\<forall>(sid, b) \<in> set (sc_buckets sh). bk_queued_bytes b \<le> cap)"

definition sched_ok :: "link_sched \<Rightarrow> bool" where
  "sched_ok s \<longleftrightarrow>
     acct_ok (ls_bucket_capacity s) (ls_link_budget s) (ls_shared s) \<and>
     unat MAX_FRAME_PAYLOAD \<le> ls_bucket_capacity s \<and> ls_bucket_capacity s \<le> ls_link_budget s \<and>
     (\<forall>f \<in> set (opt_list (ls_parked s) @ chan_queue (ls_bulk s)). is_bulk_ordered f) \<and>
     (\<forall>f \<in> set (sc_priority (ls_shared s) @ chan_queue (ls_control s)). \<not> is_bulk_ordered f) \<and>
     (sc_writer_done (ls_shared s) \<longleftrightarrow> ls_writer s = WDone) \<and> chan_ok (ls_bulk s) \<and> chan_ok (ls_control s)"

lemma set_update_cases:
  assumes "keys_distinct bs" "(t, v) \<in> set (AList.update k w bs)"
  shows "(t = k \<and> v = w) \<or> (t, v) \<in> set bs"
proof -
  have "map_of (AList.update k w bs) t = Some v" using assms by (intro map_of_is_SomeI) auto
  then show ?thesis by (auto split: if_splits dest: map_of_SomeD)
qed

lemma entry_bucket_ok:
  "buckets_ok (sc_buckets sh) \<Longrightarrow> bucket_ok sid (entry_bucket sid sh)"
  by (auto simp: entry_bucket_def buckets_ok_def bucket_ok_def bucket_new_def split: option.split dest!: map_of_SomeD)

lemma buckets_bytes_update:
  assumes "keys_distinct (sc_buckets sh)"
  shows "buckets_bytes (AList.update sid b (sc_buckets sh)) + bk_queued_bytes (entry_bucket sid sh)
       = buckets_bytes (sc_buckets sh) + bk_queued_bytes b"
  using sum_list_update [OF assms, of bk_queued_bytes sid b]
  by (simp add: buckets_bytes_def entry_bucket_def bucket_new_def split: option.splits)

lemma queue_of_update: "queue_of t (AList.update sid b bs) = (if t = sid then bk_queue b else queue_of t bs)"
  by (simp add: queue_of_def)

lemma queue_of_entry: "bk_queue (entry_bucket sid sh) = queue_of sid (sc_buckets sh)"
  by (simp add: entry_bucket_def queue_of_def bucket_new_def split: option.split)

lemma acct_update:
  assumes "acct_ok cap budget sh" "bucket_ok sid b" "bk_queued_bytes b \<le> cap"
    "tot + bk_queued_bytes (entry_bucket sid sh) = sc_total_bucket_bytes sh + bk_queued_bytes b" "tot \<le> budget"
  shows "acct_ok cap budget (sh\<lparr>sc_buckets := AList.update sid b (sc_buckets sh), sc_total_bucket_bytes := tot, sc_classified_frames := n\<rparr>)"
proof -
  have d: "keys_distinct (sc_buckets sh)" using assms(1) by (simp add: acct_ok_def buckets_ok_def)
  have "buckets_bytes (AList.update sid b (sc_buckets sh)) = tot"
    using buckets_bytes_update [OF d, of sid b] assms(1,4) by (simp add: acct_ok_def)
  moreover have "\<forall>(t, v) \<in> set (AList.update sid b (sc_buckets sh)). bucket_ok t v \<and> bk_queued_bytes v \<le> cap"
    using set_update_cases [OF d] assms(1-3) by (fastforce simp: acct_ok_def buckets_ok_def)
  ultimately show ?thesis using assms(5) d by (auto simp: acct_ok_def buckets_ok_def)
qed

lemma enqueue_cases [case_names Dropped Fits Park]:
  assumes "acct_ok cap budget sh" "is_bulk_ordered f"
  obtains "sc_writer_done sh" "enqueue_bucket cap budget f sh = (Dropped, sh)"
  | sh' where "\<not> sc_writer_done sh" "enqueue_bucket cap budget f sh = (Fits, sh')" "acct_ok cap budget sh'"
      "\<And>t. queue_of t (sc_buckets sh') = queue_of t (sc_buckets sh) @ stream_frames t [f]"
      "sc_priority sh' = sc_priority sh" "sc_writer_done sh' = sc_writer_done sh" "sc_ingress_open sh' = sc_ingress_open sh"
  | sh' where "\<not> sc_writer_done sh" "enqueue_bucket cap budget f sh = (Park f, sh')" "acct_ok cap budget sh'"
      "\<And>t. queue_of t (sc_buckets sh') = queue_of t (sc_buckets sh)"
      "sc_priority sh' = sc_priority sh" "sc_writer_done sh' = sc_writer_done sh" "sc_ingress_open sh' = sc_ingress_open sh"
      "payload_len f \<le> cap \<Longrightarrow> cap \<le> budget \<Longrightarrow> \<exists>t. queue_of t (sc_buckets sh) \<noteq> []"
proof (cases "sc_writer_done sh")
  case True
  then show ?thesis using that(1) by (simp add: enqueue_bucket_def)
next
  case alive: False
  define sid where "sid = frame_stream_id f"
  define b where "b = entry_bucket sid sh"
  have ok: "bucket_ok sid b" unfolding b_def using assms(1) by (intro entry_bucket_ok) (simp add: acct_ok_def)
  have bc: "bk_queued_bytes b \<le> cap"
    using assms(1) by (auto simp: b_def entry_bucket_def bucket_new_def acct_ok_def split: option.split dest!: map_of_SomeD)
  show ?thesis
  proof (cases "bk_queued_bytes b + payload_len f \<le> cap \<and> sc_total_bucket_bytes sh + payload_len f \<le> budget")
    case True
    define b' where "b' = b\<lparr>bk_queue := bk_queue b @ [f], bk_queued_bytes := bk_queued_bytes b + payload_len f, bk_idle_passes := 0\<rparr>"
    define sh' where "sh' = sh\<lparr>sc_buckets := AList.update sid b' (sc_buckets sh),
      sc_total_bucket_bytes := sc_total_bucket_bytes sh + payload_len f, sc_classified_frames := sc_classified_frames sh + 1\<rparr>"
    have e: "enqueue_bucket cap budget f sh = (Fits, sh')"
      using alive True by (simp add: enqueue_bucket_def Let_def sid_def [symmetric] b_def [symmetric] b'_def sh'_def)
    have "bucket_ok sid b'" using ok assms(2) by (auto simp: b'_def bucket_ok_def sid_def)
    then have "acct_ok cap budget sh'"
      unfolding sh'_def using True by (intro acct_update [OF assms(1)]) (auto simp: b'_def b_def)
    moreover have "queue_of t (sc_buckets sh') = queue_of t (sc_buckets sh) @ stream_frames t [f]" for t
      using assms(2) by (simp add: sh'_def queue_of_update b'_def b_def queue_of_entry sid_def)
    ultimately show ?thesis using that(2) [OF alive e] by (simp add: sh'_def)
  next
    case False
    define sh' where "sh' = sh\<lparr>sc_buckets := AList.update sid b (sc_buckets sh)\<rparr>"
    have e: "enqueue_bucket cap budget f sh = (Park f, sh')"
      using alive False by (simp add: enqueue_bucket_def Let_def sid_def [symmetric] b_def [symmetric] sh'_def)
    have "acct_ok cap budget (sh\<lparr>sc_buckets := AList.update sid b (sc_buckets sh), sc_total_bucket_bytes := sc_total_bucket_bytes sh,
        sc_classified_frames := sc_classified_frames sh\<rparr>)"
      using assms(1) by (intro acct_update [OF assms(1) ok bc]) (simp_all add: b_def acct_ok_def)
    then have "acct_ok cap budget sh'" by (simp add: sh'_def)
    moreover have "queue_of t (sc_buckets sh') = queue_of t (sc_buckets sh)" for t
      by (simp add: sh'_def queue_of_update b_def queue_of_entry)
    moreover have "\<exists>t. queue_of t (sc_buckets sh) \<noteq> []" if small: "payload_len f \<le> cap" "cap \<le> budget"
    proof (rule ccontr)
      assume "\<nexists>t. queue_of t (sc_buckets sh) \<noteq> []"
      then have none: "queue_of t (sc_buckets sh) = []" for t by simp
      have "bk_queued_bytes v = 0" if "(t, v) \<in> set (sc_buckets sh)" for t v
      proof -
        have "map_of (sc_buckets sh) t = Some v" using that assms(1) by (simp add: acct_ok_def buckets_ok_def)
        then have "bk_queue v = []" using none [of t] by (simp add: queue_of_def)
        then show ?thesis using that assms(1) by (auto simp: acct_ok_def buckets_ok_def bucket_ok_def)
      qed
      then have "buckets_bytes (sc_buckets sh) = 0" by (auto simp: buckets_bytes_def)
      moreover have "bk_queued_bytes b = 0" using none [of sid] ok by (simp add: bucket_ok_def b_def queue_of_entry)
      ultimately show False using False small assms(1) by (simp add: acct_ok_def)
    qed
    ultimately show ?thesis using that(3) [OF alive e] by (simp add: sh'_def)
  qed
qed

text \<open>The frames of one stream on their way through the scheduler, oldest first, and the control frames.\<close>

definition pending :: "u32 \<Rightarrow> link_sched \<Rightarrow> frame list" where
  "pending t s = queue_of t (sc_buckets (ls_shared s)) @ stream_frames t (opt_list (ls_parked s) @ chan_queue (ls_bulk s))"

definition pending_control :: "link_sched \<Rightarrow> frame list" where
  "pending_control s = sc_priority (ls_shared s) @ chan_queue (ls_control s)"

definition flow_ok :: "link_sched \<Rightarrow> bool" where
  "flow_ok s \<longleftrightarrow>
     (\<not> sc_writer_done (ls_shared s) \<longrightarrow>
        (\<forall>t. stream_frames t (ls_sent s) = stream_frames t (ls_written s) @ pending t s) \<and>
        control_frames (ls_sent s) = control_frames (ls_written s) @ pending_control s) \<and>
     (\<forall>t. \<exists>z. stream_frames t (ls_sent s) = stream_frames t (ls_written s) @ z) \<and>
     (\<exists>z. control_frames (ls_sent s) = control_frames (ls_written s) @ z)"

abbreviation idle_buckets :: "link_sched \<Rightarrow> bool" where
  "idle_buckets s \<equiv> \<forall>t. queue_of t (sc_buckets (ls_shared s)) = []"

text \<open>
  The stored permits cover every wait: a parked writer without a permit has nothing to do, and a parked
  bulk frame without a permit waits for a bucket that has frames to send.
\<close>

definition live_ok :: "link_sched \<Rightarrow> bool" where
  "live_ok s \<longleftrightarrow>
     (ls_writer s = WParked \<and> \<not> ls_work_available s \<longrightarrow>
        sc_priority (ls_shared s) = [] \<and> idle_buckets s \<and> \<not> ls_consumer_done s) \<and>
     (\<forall>e. ls_writer s = WPass e \<and> sc_priority (ls_shared s) \<noteq> [] \<longrightarrow> ls_work_available s) \<and>
     (ls_consumer_done s \<longleftrightarrow> \<not> sc_ingress_open (ls_shared s)) \<and>
     (\<forall>f. ls_parked s = Some f \<and> \<not> ls_space_freed s \<and> payload_len f \<le> unat MAX_FRAME_PAYLOAD \<and>
        \<not> sc_writer_done (ls_shared s) \<longrightarrow> \<not> idle_buckets s)"

definition sched_inv :: "link_sched \<Rightarrow> bool" where
  "sched_inv s \<longleftrightarrow> sched_ok s \<and> flow_ok s \<and> live_ok s"

lemma sched_inv_spawn: "sched_inv (sched_spawn config)"
  by (auto simp: sched_inv_def sched_ok_def flow_ok_def live_ok_def sched_spawn_def acct_ok_def buckets_ok_def
      buckets_bytes_def pending_def pending_control_def queue_of_def Let_def chan_ok_def)

lemma classify_bulk_spec:
  assumes "sched_ok s" "ls_parked s = None" "is_bulk_ordered f"
  defines "s' \<equiv> classify_bulk f s"
  shows "sched_ok s'"
    "\<not> sc_writer_done (ls_shared s) \<Longrightarrow>
       queue_of t (sc_buckets (ls_shared s')) @ stream_frames t (opt_list (ls_parked s'))
     = queue_of t (sc_buckets (ls_shared s)) @ stream_frames t [f]"
    "sc_priority (ls_shared s') = sc_priority (ls_shared s)" "sc_writer_done (ls_shared s') = sc_writer_done (ls_shared s)"
    "sc_ingress_open (ls_shared s') = sc_ingress_open (ls_shared s)" "ls_bulk s' = ls_bulk s" "ls_control s' = ls_control s"
    "ls_sent s' = ls_sent s" "ls_written s' = ls_written s" "ls_writer s' = ls_writer s"
    "ls_consumer_done s' = ls_consumer_done s" "ls_work_available s \<Longrightarrow> ls_work_available s'"
    "\<not> sc_writer_done (ls_shared s) \<Longrightarrow> ls_parked s' = None \<Longrightarrow> ls_work_available s'"
    "\<not> sc_writer_done (ls_shared s) \<Longrightarrow> ls_parked s' = Some g \<Longrightarrow> g = f \<and>
       (\<forall>t. queue_of t (sc_buckets (ls_shared s')) = queue_of t (sc_buckets (ls_shared s))) \<and>
       (payload_len f \<le> unat MAX_FRAME_PAYLOAD \<longrightarrow> \<not> idle_buckets s)"
proof -
  have acct: "acct_ok (ls_bucket_capacity s) (ls_link_budget s) (ls_shared s)"
    and caps: "unat MAX_FRAME_PAYLOAD \<le> ls_bucket_capacity s" "ls_bucket_capacity s \<le> ls_link_budget s"
    using assms(1) by (simp_all add: sched_ok_def)
  have all: "sched_ok s' \<and> (\<not> sc_writer_done (ls_shared s) \<longrightarrow>
       (\<forall>t. queue_of t (sc_buckets (ls_shared s')) @ stream_frames t (opt_list (ls_parked s'))
     = queue_of t (sc_buckets (ls_shared s)) @ stream_frames t [f])) \<and>
    sc_priority (ls_shared s') = sc_priority (ls_shared s) \<and> sc_writer_done (ls_shared s') = sc_writer_done (ls_shared s) \<and>
    sc_ingress_open (ls_shared s') = sc_ingress_open (ls_shared s) \<and>
    (ls_work_available s \<longrightarrow> ls_work_available s') \<and>
    (\<not> sc_writer_done (ls_shared s) \<longrightarrow> ls_parked s' = None \<longrightarrow> ls_work_available s') \<and>
    (\<not> sc_writer_done (ls_shared s) \<longrightarrow> ls_parked s' = Some g \<longrightarrow> g = f \<and>
       (\<forall>t. queue_of t (sc_buckets (ls_shared s')) = queue_of t (sc_buckets (ls_shared s))) \<and>
       (payload_len f \<le> unat MAX_FRAME_PAYLOAD \<longrightarrow> \<not> idle_buckets s))"
    using acct assms(3)
  proof (cases rule: enqueue_cases)
    case Dropped
    then show ?thesis using assms(1,2) by (simp add: s'_def classify_bulk_def sched_ok_def)
  next
    case (Fits sh')
    then show ?thesis using assms(1,2) by (simp add: s'_def classify_bulk_def sched_ok_def)
  next
    case (Park sh')
    have ne: "\<exists>t. queue_of t (sc_buckets (ls_shared s)) \<noteq> []" if "payload_len f \<le> unat MAX_FRAME_PAYLOAD"
      using Park(8) that caps by simp
    have eq: "s' = s\<lparr>ls_shared := sh', ls_parked := Some f\<rparr>"
      using Park(2) by (simp add: s'_def classify_bulk_def)
    show ?thesis using Park(1,3-7) ne assms(1-3) unfolding eq by (simp add: sched_ok_def)
  qed
  show "ls_bulk s' = ls_bulk s" "ls_control s' = ls_control s" "ls_sent s' = ls_sent s" "ls_written s' = ls_written s"
    "ls_writer s' = ls_writer s" "ls_consumer_done s' = ls_consumer_done s"
    by (simp_all add: s'_def classify_bulk_def split: prod.split bucket_enqueue.split)
  from all show "sched_ok s'"
    "\<not> sc_writer_done (ls_shared s) \<Longrightarrow>
       queue_of t (sc_buckets (ls_shared s')) @ stream_frames t (opt_list (ls_parked s'))
     = queue_of t (sc_buckets (ls_shared s)) @ stream_frames t [f]"
    "sc_priority (ls_shared s') = sc_priority (ls_shared s)" "sc_writer_done (ls_shared s') = sc_writer_done (ls_shared s)"
    "sc_ingress_open (ls_shared s') = sc_ingress_open (ls_shared s)" "ls_work_available s \<Longrightarrow> ls_work_available s'"
    "\<not> sc_writer_done (ls_shared s) \<Longrightarrow> ls_parked s' = None \<Longrightarrow> ls_work_available s'"
    "\<not> sc_writer_done (ls_shared s) \<Longrightarrow> ls_parked s' = Some g \<Longrightarrow> g = f \<and>
       (\<forall>t. queue_of t (sc_buckets (ls_shared s')) = queue_of t (sc_buckets (ls_shared s))) \<and>
       (payload_len f \<le> unat MAX_FRAME_PAYLOAD \<longrightarrow> \<not> idle_buckets s)"
    by blast+
qed

section \<open>Preservation\<close>

lemma sched_ok_shared:
  "sched_ok s \<Longrightarrow> ls_parked s = None \<Longrightarrow> chan_recv (ls_bulk s) = Some (f, q) \<Longrightarrow> sched_ok (s\<lparr>ls_bulk := q\<rparr>) \<and> is_bulk_ordered f"
  "sched_ok s \<Longrightarrow> chan_recv (ls_control s) = Some (f, q) \<Longrightarrow> sched_ok (s\<lparr>ls_control := q\<rparr>) \<and> \<not> is_bulk_ordered f"
  by (auto simp: sched_ok_def chan_recv_def chan_ok_def split: list.splits)

lemma chan_recv_queue: "chan_recv c = Some (x, c') \<Longrightarrow> chan_queue c = x # chan_queue c'"
  by (auto simp: chan_recv_def split: list.splits)

text \<open>Classifying a frame that was next in its stream's order.\<close>

lemma classify_bulk_inv:
  assumes ok: "sched_ok s" and none: "ls_parked s = None" and f: "is_bulk_ordered f"
    and flow: "flow_ok s0" and live: "live_ok s0"
    and pend: "\<And>t. pending t s0 = queue_of t (sc_buckets (ls_shared s)) @ stream_frames t (f # chan_queue (ls_bulk s))"
    and same: "ls_shared s0 = ls_shared s" "ls_control s0 = ls_control s" "ls_sent s0 = ls_sent s" "ls_written s0 = ls_written s"
      "ls_writer s0 = ls_writer s" "ls_consumer_done s0 = ls_consumer_done s" "ls_work_available s0 = ls_work_available s"
  shows "sched_inv (classify_bulk f s)"
proof -
  note spec = classify_bulk_spec [OF ok none f]
  have p: "pending t (classify_bulk f s) = pending t s0" if "\<not> sc_writer_done (ls_shared s)" for t
    using spec(2) [OF that, of t] by (simp add: pend) (simp add: pending_def spec(6))
  have c: "pending_control (classify_bulk f s) = pending_control s0"
    by (simp add: pending_control_def spec(3,7) same)
  have "flow_ok (classify_bulk f s)"
    using flow p c by (simp add: flow_ok_def spec same)
  moreover have "live_ok (classify_bulk f s)"
    unfolding live_ok_def
  proof (intro conjI allI impI; (elim conjE)?)
    assume w: "ls_writer (classify_bulk f s) = WParked" "\<not> ls_work_available (classify_bulk f s)"
    then have "\<not> ls_work_available s" using spec(12) by blast
    then have idle: "sc_priority (ls_shared s) = []" "idle_buckets s" "\<not> ls_consumer_done s"
      using live w(1) by (simp_all add: live_ok_def same spec(10))
    then show "sc_priority (ls_shared (classify_bulk f s)) = []" "\<not> ls_consumer_done (classify_bulk f s)"
      by (simp_all add: spec(3,11))
    have "\<not> sc_writer_done (ls_shared s)" using ok w(1) spec(10) by (simp add: sched_ok_def)
    then obtain g where "ls_parked (classify_bulk f s) = Some g" using spec(13) w(2) by blast
    then show "queue_of t (sc_buckets (ls_shared (classify_bulk f s))) = []" for t
      using spec(14) [OF \<open>\<not> sc_writer_done (ls_shared s)\<close>] idle(2) by simp
  next
    fix e assume "ls_writer (classify_bulk f s) = WPass e" "sc_priority (ls_shared (classify_bulk f s)) \<noteq> []"
    then show "ls_work_available (classify_bulk f s)"
      using live spec(12) by (simp add: live_ok_def same spec(3,10))
  next
    show "ls_consumer_done (classify_bulk f s) = (\<not> sc_ingress_open (ls_shared (classify_bulk f s)))"
      using live by (simp add: live_ok_def same spec(5,11))
  next
    fix g assume "ls_parked (classify_bulk f s) = Some g" "payload_len g \<le> unat MAX_FRAME_PAYLOAD"
      "\<not> sc_writer_done (ls_shared (classify_bulk f s))"
    then show "\<not> idle_buckets (classify_bulk f s)" using spec(14) [of g] spec(4) by simp
  qed
  ultimately show ?thesis using spec(1) by (simp add: sched_inv_def)
qed

lemma record_emission_fields [simp]:
  "sc_priority (fold record_emission fs sh) = sc_priority sh" "sc_buckets (fold record_emission fs sh) = sc_buckets sh"
  "sc_total_bucket_bytes (fold record_emission fs sh) = sc_total_bucket_bytes sh"
  "sc_ingress_open (fold record_emission fs sh) = sc_ingress_open sh"
  "sc_writer_done (fold record_emission fs sh) = sc_writer_done sh"
  by (induction fs arbitrary: sh) (simp_all add: record_emission_def)

lemma acct_ok_fields [simp]:
  "acct_ok cap budget (sh\<lparr>sc_priority := p\<rparr>) = acct_ok cap budget sh"
  "acct_ok cap budget (sh\<lparr>sc_classified_frames := n\<rparr>) = acct_ok cap budget sh"
  "acct_ok cap budget (sh\<lparr>sc_ingress_open := i\<rparr>) = acct_ok cap budget sh"
  "acct_ok cap budget (sh\<lparr>sc_writer_done := w\<rparr>) = acct_ok cap budget sh"
  by (simp_all add: acct_ok_def)

lemma acct_ok_record [simp]: "acct_ok cap budget (fold record_emission fs sh) = acct_ok cap budget sh"
  by (simp add: acct_ok_def)

lemma classify_priority_inv:
  assumes "sched_inv s" "chan_recv (ls_control s) = Some (f, q)"
  shows "sched_inv (classify_priority f (s\<lparr>ls_control := q\<rparr>))"
proof -
  have f: "\<not> is_bulk_ordered f" and ok: "sched_ok (s\<lparr>ls_control := q\<rparr>)"
    using sched_ok_shared(2) [OF _ assms(2)] assms(1) by (auto simp: sched_inv_def)
  have q: "chan_queue (ls_control s) = f # chan_queue q" using chan_recv_queue [OF assms(2)] .
  have "sched_ok (classify_priority f (s\<lparr>ls_control := q\<rparr>))"
    using ok f by (auto simp: classify_priority_def sched_ok_def)
  moreover have "flow_ok (classify_priority f (s\<lparr>ls_control := q\<rparr>))"
    using assms(1) q by (simp add: sched_inv_def flow_ok_def classify_priority_def pending_def pending_control_def)
  moreover have "live_ok (classify_priority f (s\<lparr>ls_control := q\<rparr>))"
    using assms(1) by (simp add: sched_inv_def live_ok_def classify_priority_def)
  ultimately show ?thesis by (simp add: sched_inv_def)
qed

lemma flow_ok_cong:
  assumes "flow_ok s" "sc_writer_done (ls_shared s') = sc_writer_done (ls_shared s)" "ls_sent s' = ls_sent s"
    "ls_written s' = ls_written s" "\<And>t. pending t s' = pending t s" "pending_control s' = pending_control s"
  shows "flow_ok s'"
  using assms by (simp add: flow_ok_def)

lemma sched_inv_fields [simp]:
  "sched_inv (s\<lparr>ls_control_closed := b\<rparr>) = sched_inv s" "sched_inv (s\<lparr>ls_bulk_closed := b\<rparr>) = sched_inv s"
  "sched_inv (s\<lparr>ls_senders := b\<rparr>) = sched_inv s"
  by (simp_all add: sched_inv_def sched_ok_def flow_ok_def live_ok_def pending_def pending_control_def)

lemma live_ok_fields [simp]:
  "live_ok (s\<lparr>ls_bulk := q\<rparr>) = live_ok s" "live_ok (s\<lparr>ls_control := q\<rparr>) = live_ok s"
  "live_ok (s\<lparr>ls_sent := fs\<rparr>) = live_ok s" "live_ok (s\<lparr>ls_written := fs\<rparr>) = live_ok s"
  by (simp_all add: live_ok_def)

lemma consumer_arms_inv:
  assumes inv: "sched_inv s"
  shows "retry_arm s = Some s' \<Longrightarrow> sched_inv s'" "control_arm s = Some s' \<Longrightarrow> sched_inv s'"
    "bulk_arm s = Some s' \<Longrightarrow> sched_inv s'"
proof -
  have ok: "sched_ok s" and flow: "flow_ok s" and live: "live_ok s" using inv by (simp_all add: sched_inv_def)
  {
    assume "retry_arm s = Some s'"
    then obtain f where f: "ls_parked s = Some f" and s': "s' = classify_bulk f (s\<lparr>ls_space_freed := False, ls_parked := None\<rparr>)"
      by (auto simp: retry_arm_def split: option.splits if_splits)
    have "sched_ok (s\<lparr>ls_space_freed := False, ls_parked := None\<rparr>)" "is_bulk_ordered f"
      using ok f by (auto simp: sched_ok_def)
    then show "sched_inv s'"
      unfolding s' by - (rule classify_bulk_inv [where ?s0.0 = s], use flow live in \<open>simp_all add: pending_def f\<close>)
  next
    assume "control_arm s = Some s'"
    then show "sched_inv s'"
    proof (cases "chan_recv (ls_control s)")
      case None
      then have "s' = s\<lparr>ls_control_closed := True\<rparr>"
        using \<open>control_arm s = Some s'\<close> by (auto simp: control_arm_def split: if_splits)
      then show ?thesis using inv by simp
    next
      case (Some p)
      obtain f q where p: "p = (f, q)" by (cases p)
      have "s' = classify_priority f (s\<lparr>ls_control := q\<rparr>)"
        using \<open>control_arm s = Some s'\<close> Some p by (auto simp: control_arm_def split: if_splits)
      then show ?thesis using classify_priority_inv [OF inv] Some p by simp
    qed
  next
    assume b: "bulk_arm s = Some s'"
    then have none: "ls_parked s = None" by (auto simp: bulk_arm_def split: if_splits)
    show "sched_inv s'"
    proof (cases "chan_recv (ls_bulk s)")
      case None
      then have "s' = s\<lparr>ls_bulk_closed := True\<rparr>" using b by (auto simp: bulk_arm_def split: if_splits)
      then show ?thesis using inv by simp
    next
      case (Some p)
      obtain f q where p: "p = (f, q)" by (cases p)
      have f: "sched_ok (s\<lparr>ls_bulk := q\<rparr>)" "is_bulk_ordered f"
        using sched_ok_shared(1) [OF ok none, of f q] Some p by auto
      then have s': "s' = classify_bulk f (s\<lparr>ls_bulk := q\<rparr>)"
        using b Some p by (auto simp: bulk_arm_def split: if_splits)
      have q: "chan_queue (ls_bulk s) = f # chan_queue q" using chan_recv_queue Some p by auto
      show ?thesis unfolding s'
        by (rule classify_bulk_inv [where ?s0.0 = s]) (use flow live f in \<open>simp_all add: pending_def none q\<close>)
    qed
  }
qed

lemma consumer_turn_inv: "sched_inv s \<Longrightarrow> sched_inv (consumer_turn s)"
proof -
  assume inv: "sched_inv s"
  have "sched_inv (consumer_exit s)"
    using inv by (simp add: consumer_exit_def sched_inv_def sched_ok_def flow_ok_def live_ok_def pending_def pending_control_def
        chan_ok_def)
  then show ?thesis
    using inv consumer_arms_inv [OF inv] by (auto simp: consumer_turn_def split: option.split)
qed

lemma flow_ok_extend:
  assumes flow: "flow_ok s" and same: "ls_sent s' = ls_sent s @ [f]" "ls_written s' = ls_written s"
      "sc_writer_done (ls_shared s') = sc_writer_done (ls_shared s)"
    and pend: "\<And>t. pending t s' = pending t s @ stream_frames t [f]" "pending_control s' = pending_control s @ control_frames [f]"
  shows "flow_ok s'"
proof -
  have "\<exists>z. stream_frames t (ls_sent s') = stream_frames t (ls_written s') @ z" for t
  proof -
    obtain z where "stream_frames t (ls_sent s) = stream_frames t (ls_written s) @ z" using flow by (auto simp: flow_ok_def)
    then show ?thesis by (simp add: same del: stream_frames_simps(3))
  qed
  moreover have "\<exists>z. control_frames (ls_sent s') = control_frames (ls_written s') @ z"
  proof -
    obtain z where "control_frames (ls_sent s) = control_frames (ls_written s) @ z" using flow by (auto simp: flow_ok_def)
    then show ?thesis by (simp add: same del: control_frames_simps(3))
  qed
  ultimately show ?thesis using flow by (simp add: flow_ok_def same pend)
qed

lemma ingress_inv: "sched_inv s \<Longrightarrow> sched_inv (fst (ingress_try_send f s))"
proof -
  assume inv: "sched_inv s"
  have "sched_inv (s\<lparr>ls_bulk := (ls_bulk s)\<lparr>chan_queue := chan_queue (ls_bulk s) @ [f]\<rparr>, ls_sent := ls_sent s @ [f]\<rparr>)"
    if "is_bulk_ordered f" "length (chan_queue (ls_bulk s)) < chan_cap (ls_bulk s)"
  proof -
    have "flow_ok (s\<lparr>ls_bulk := (ls_bulk s)\<lparr>chan_queue := chan_queue (ls_bulk s) @ [f]\<rparr>, ls_sent := ls_sent s @ [f]\<rparr>)"
      by (rule flow_ok_extend [where s = s])
        (use inv that in \<open>auto simp: sched_inv_def pending_def pending_control_def\<close>)
    then show ?thesis
      using inv that by (simp add: sched_inv_def sched_ok_def chan_ok_def)
  qed
  moreover have "sched_inv (s\<lparr>ls_control := (ls_control s)\<lparr>chan_queue := chan_queue (ls_control s) @ [f]\<rparr>, ls_sent := ls_sent s @ [f]\<rparr>)"
    if "\<not> is_bulk_ordered f" "length (chan_queue (ls_control s)) < chan_cap (ls_control s)"
  proof -
    have "flow_ok (s\<lparr>ls_control := (ls_control s)\<lparr>chan_queue := chan_queue (ls_control s) @ [f]\<rparr>, ls_sent := ls_sent s @ [f]\<rparr>)"
      by (rule flow_ok_extend [where s = s])
        (use inv that in \<open>auto simp: sched_inv_def pending_def pending_control_def\<close>)
    then show ?thesis
      using inv that by (simp add: sched_inv_def sched_ok_def chan_ok_def)
  qed
  ultimately show ?thesis
    using inv
    by (cases rule: chan_try_send_cases [of "ls_bulk s" f]; cases rule: chan_try_send_cases [of "ls_control s" f])
      (simp_all add: ingress_try_send_def)
qed

lemma writer_exit_inv:
  assumes ok: "sched_ok s" and pre: "\<And>t. \<exists>z. stream_frames t (ls_sent s) = stream_frames t (ls_written s) @ z"
      "\<exists>z. control_frames (ls_sent s) = control_frames (ls_written s) @ z"
    and open': "ls_consumer_done s \<longleftrightarrow> \<not> sc_ingress_open (ls_shared s)"
  shows "sched_inv (writer_exit s)"
  using assms by (simp add: sched_inv_def sched_ok_def flow_ok_def live_ok_def writer_exit_def)

lemma write_batch_prefix: "write_batch failure batch = (out, ok) \<Longrightarrow> \<exists>z. batch = out @ z \<and> (ok \<longrightarrow> z = [])"
  by (auto simp: write_batch_def split: option.splits if_splits) (metis append_take_drop_id)

lemma control_only: "\<forall>f \<in> set fs. \<not> is_bulk_ordered f \<Longrightarrow> control_frames fs = fs \<and> stream_frames t fs = []"
  by (induction fs) auto

lemma writer_priority_inv:
  assumes inv: "sched_inv s" and w: "ls_writer s = WPriority"
  shows "sched_inv (writer_priority failure s)"
proof -
  define batch where "batch = sc_priority (ls_shared s)"
  define sh where "sh = fold record_emission batch ((ls_shared s)\<lparr>sc_priority := []\<rparr>)"
  obtain out ok where wb: "write_batch failure batch = (out, ok)" by (cases "write_batch failure batch")
  then obtain z where z: "batch = out @ z" "ok \<longrightarrow> z = []" using write_batch_prefix by blast
  define s1 where "s1 = s\<lparr>ls_shared := sh, ls_written := ls_written s @ out\<rparr>"
  have alive: "\<not> sc_writer_done (ls_shared s)" using inv w by (simp add: sched_inv_def sched_ok_def)
  have prio: "\<forall>f \<in> set batch. \<not> is_bulk_ordered f" using inv by (simp add: sched_inv_def sched_ok_def batch_def)
  have ok1: "sched_ok s1" using inv by (simp add: sched_inv_def sched_ok_def s1_def sh_def)
  have str: "stream_frames t (ls_sent s) = stream_frames t (ls_written s1) @ pending t s1" for t
    using inv alive prio control_only [of out t]
    by (simp add: sched_inv_def flow_ok_def s1_def sh_def pending_def z(1))
  have ctl: "control_frames (ls_sent s) = control_frames (ls_written s1) @ z @ chan_queue (ls_control s)"
    using inv alive prio control_only [of out] z(1)
    by (simp add: sched_inv_def flow_ok_def s1_def pending_control_def batch_def [symmetric])
  have sent: "ls_sent s1 = ls_sent s" by (simp add: s1_def)
  show ?thesis
  proof (cases ok)
    case True
    then have eq: "writer_priority failure s = s1\<lparr>ls_writer := WPass (batch = [])\<rparr>"
      using wb by (simp add: writer_priority_def batch_def [symmetric] sh_def [symmetric] s1_def Let_def)
    have "flow_ok (s1\<lparr>ls_writer := WPass (batch = [])\<rparr>)"
      using str ctl True z(2) by (auto simp: flow_ok_def sent pending_def pending_control_def s1_def sh_def)
    moreover have "live_ok (s1\<lparr>ls_writer := WPass (batch = [])\<rparr>)"
      using inv by (simp add: sched_inv_def live_ok_def s1_def sh_def)
    moreover have "sched_ok (s1\<lparr>ls_writer := WPass (batch = [])\<rparr>)"
      using ok1 alive by (simp add: sched_ok_def s1_def sh_def)
    ultimately show ?thesis by (simp add: eq sched_inv_def)
  next
    case False
    then have eq: "writer_priority failure s = writer_exit s1"
      using wb by (simp add: writer_priority_def batch_def [symmetric] sh_def [symmetric] s1_def Let_def)
    have "ls_consumer_done s1 \<longleftrightarrow> \<not> sc_ingress_open (ls_shared s1)"
      using inv by (simp add: sched_inv_def live_ok_def s1_def sh_def)
    then show ?thesis
      unfolding eq by (intro writer_exit_inv) (use ok1 str ctl sent in auto)
  qed
qed

lemma drr_pass_shrinks:
  "drr_pass r bs = (batch, bs') \<Longrightarrow> buckets_ok bs \<Longrightarrow> (t, b') \<in> set bs' \<Longrightarrow>
    \<exists>b. (t, b) \<in> set bs \<and> bk_queued_bytes b' \<le> bk_queued_bytes b"
proof (induction r bs arbitrary: batch bs' rule: drr_pass.induct)
  case (2 r sid b bs)
  obtain own c where sb: "serve_bucket r b = (own, c)" by (cases "serve_bucket r b")
  obtain rest bs1 where dp: "drr_pass r bs = (rest, bs1)" by (cases "drr_pass r bs")
  have ok: "bucket_ok sid b" "buckets_ok bs" using "2.prems"(2) by (auto simp: buckets_ok_def)
  have "bs' = (sid, c) # bs1" using "2.prems"(1) sb dp by auto
  then consider "t = sid" "b' = c" | "(t, b') \<in> set bs1" using "2.prems"(3) by auto
  then show ?case
  proof cases
    case 1
    then show ?thesis using serve_bucket_spec(4) [OF sb ok(1)] by auto
  next
    case 2
    then show ?thesis using "2.IH" [OF sb [symmetric] dp ok(2)] by auto
  qed
qed auto

text \<open>The state after a pass, before its batch is written.\<close>

definition after_pass :: "link_sched \<Rightarrow> frame list \<times> sched_shared" where
  "after_pass s =
     (case drr_pass (ls_round_budget s) (sc_buckets (ls_shared s)) of (batch, bs) \<Rightarrow>
        (batch, fold record_emission batch
           ((ls_shared s)\<lparr>sc_buckets := reap bs,
              sc_total_bucket_bytes := sc_total_bucket_bytes (ls_shared s) - frames_bytes batch\<rparr>)))"

lemma after_pass_spec:
  assumes ok: "sched_ok s" and ap: "after_pass s = (batch, sh)"
  shows "acct_ok (ls_bucket_capacity s) (ls_link_budget s) sh"
    "queue_of t (sc_buckets (ls_shared s)) = stream_frames t batch @ queue_of t (sc_buckets sh)"
    "control_frames batch = []" "batch = [] \<Longrightarrow> idle_buckets s"
    "sc_priority sh = sc_priority (ls_shared s)" "sc_ingress_open sh = sc_ingress_open (ls_shared s)"
    "sc_writer_done sh = sc_writer_done (ls_shared s)"
    "frames_bytes batch \<le> sc_total_bucket_bytes (ls_shared s)"
proof -
  obtain bs where dp: "drr_pass (ls_round_budget s) (sc_buckets (ls_shared s)) = (batch, bs)"
    and sh: "sh = fold record_emission batch ((ls_shared s)\<lparr>sc_buckets := reap bs,
              sc_total_bucket_bytes := sc_total_bucket_bytes (ls_shared s) - frames_bytes batch\<rparr>)"
    using ap by (auto simp: after_pass_def split: prod.splits)
  have acct: "acct_ok (ls_bucket_capacity s) (ls_link_budget s) (ls_shared s)" using ok by (simp add: sched_ok_def)
  then have bok: "buckets_ok (sc_buckets (ls_shared s))" by (simp add: acct_ok_def)
  have sp: "buckets_ok bs" "buckets_bytes (sc_buckets (ls_shared s)) = frames_bytes batch + buckets_bytes bs"
    "control_frames batch = []"
    and q: "\<And>t. queue_of t (sc_buckets (ls_shared s)) = stream_frames t batch @ queue_of t bs"
    and ne: "\<And>t. queue_of t (sc_buckets (ls_shared s)) \<noteq> [] \<Longrightarrow> stream_frames t batch \<noteq> []"
    using drr_pass_spec [OF dp bok] by blast+
  have "\<forall>(t, b') \<in> set (reap bs). bk_queued_bytes b' \<le> ls_bucket_capacity s"
    using drr_pass_shrinks [OF dp bok] reap_spec(4) [OF sp(1)] acct by (fastforce simp: acct_ok_def)
  then show "acct_ok (ls_bucket_capacity s) (ls_link_budget s) sh"
    using acct sp(2) reap_spec(1,2) [OF sp(1)] by (simp add: sh acct_ok_def)
  show "queue_of t (sc_buckets (ls_shared s)) = stream_frames t batch @ queue_of t (sc_buckets sh)"
    using q reap_spec(3) [OF sp(1)] by (simp add: sh)
  show "control_frames batch = []" using sp(3) .
  show "batch = [] \<Longrightarrow> idle_buckets s" using ne by auto
  show "sc_priority sh = sc_priority (ls_shared s)" "sc_ingress_open sh = sc_ingress_open (ls_shared s)"
    "sc_writer_done sh = sc_writer_done (ls_shared s)" by (simp_all add: sh)
  show "frames_bytes batch \<le> sc_total_bucket_bytes (ls_shared s)"
    using acct sp(2) by (simp add: acct_ok_def)
qed

lemma bucket_pending:
  assumes "acct_ok cap budget sh"
  shows "(\<exists>(_, b) \<in> set (sc_buckets sh). bk_queue b \<noteq> []) \<longleftrightarrow> (\<exists>t. queue_of t (sc_buckets sh) \<noteq> [])"
proof -
  have "keys_distinct (sc_buckets sh)" using assms by (simp add: acct_ok_def buckets_ok_def)
  then have "(t, b) \<in> set (sc_buckets sh) \<longleftrightarrow> map_of (sc_buckets sh) t = Some b" for t b by simp
  then show ?thesis by (fastforce simp: queue_of_def split: option.splits)
qed

lemma stream_prefix: "fs = out @ z \<Longrightarrow> stream_frames t fs = stream_frames t out @ stream_frames t z"
  by simp

lemma writer_pass_eq:
  assumes "after_pass s = (batch, sh)" "write_batch failure batch = (out, good)"
  defines "s1 \<equiv> s\<lparr>ls_shared := sh, ls_space_freed := (ls_space_freed s \<or> batch \<noteq> []), ls_written := ls_written s @ out\<rparr>"
  defines "work_left \<equiv> sc_priority sh \<noteq> [] \<or> (\<exists>(_, b) \<in> set (sc_buckets sh). bk_queue b \<noteq> []) \<or> sc_ingress_open sh"
  shows "writer_pass failure e s =
     (if \<not> good then writer_exit s1 else if \<not> work_left \<and> batch = [] then writer_exit s1
      else if work_left \<and> batch = [] \<and> e then s1\<lparr>ls_writer := WParked\<rparr> else s1\<lparr>ls_writer := WPriority\<rparr>)"
proof -
  obtain bs where dp: "drr_pass (ls_round_budget s) (sc_buckets (ls_shared s)) = (batch, bs)"
    and sh: "sh = fold record_emission batch ((ls_shared s)\<lparr>sc_buckets := reap bs,
              sc_total_bucket_bytes := sc_total_bucket_bytes (ls_shared s) - frames_bytes batch\<rparr>)"
    using assms(1) by (auto simp: after_pass_def split: prod.splits)
  show ?thesis
    unfolding writer_pass_def Let_def dp prod.case sh [symmetric] assms(2) s1_def [symmetric] work_left_def by (rule refl)
qed

lemma writer_pass_inv:
  assumes inv: "sched_inv s" and w: "ls_writer s = WPass e"
  shows "sched_inv (writer_pass failure e s)"
proof -
  have ok: "sched_ok s" and flow: "flow_ok s" and live: "live_ok s" using inv by (simp_all add: sched_inv_def)
  obtain batch sh where ap: "after_pass s = (batch, sh)" by (cases "after_pass s")
  note sp = after_pass_spec [OF ok ap]
  obtain out good where wb: "write_batch failure batch = (out, good)" by (cases "write_batch failure batch")
  then obtain z where z: "batch = out @ z" "good \<longrightarrow> z = []" using write_batch_prefix by blast
  define s1 where "s1 = s\<lparr>ls_shared := sh, ls_space_freed := (ls_space_freed s \<or> batch \<noteq> []), ls_written := ls_written s @ out\<rparr>"
  define work_left where "work_left \<longleftrightarrow> sc_priority sh \<noteq> [] \<or> (\<exists>(_, b) \<in> set (sc_buckets sh). bk_queue b \<noteq> []) \<or> sc_ingress_open sh"
  have eq: "writer_pass failure e s =
     (if \<not> good then writer_exit s1 else if \<not> work_left \<and> batch = [] then writer_exit s1
      else if work_left \<and> batch = [] \<and> e then s1\<lparr>ls_writer := WParked\<rparr> else s1\<lparr>ls_writer := WPriority\<rparr>)"
    unfolding s1_def work_left_def by (rule writer_pass_eq [OF ap wb])
  have alive: "\<not> sc_writer_done (ls_shared s)" using ok w by (simp add: sched_ok_def)
  have ok1: "sched_ok s1" using ok sp(1,5,7) by (simp add: sched_ok_def s1_def)
  have str: "stream_frames t (ls_sent s) = stream_frames t (ls_written s1) @ stream_frames t z @ pending t s1" for t
  proof -
    have "stream_frames t (ls_sent s) = stream_frames t (ls_written s) @ pending t s"
      using flow alive by (simp add: flow_ok_def)
    moreover have "pending t s = stream_frames t batch @ pending t s1"
      using sp(2) [of t] by (simp add: pending_def s1_def)
    ultimately show ?thesis by (simp add: s1_def stream_prefix [OF z(1)])
  qed
  have "control_frames out = []" using sp(3) z(1) by simp
  then have ctl: "control_frames (ls_sent s) = control_frames (ls_written s1) @ pending_control s1"
    using flow alive sp(5) by (simp add: flow_ok_def s1_def pending_control_def)
  have same: "ls_sent s1 = ls_sent s" "sc_writer_done (ls_shared s1) = sc_writer_done (ls_shared s)" using sp(7) by (simp_all add: s1_def)
  have done': "ls_consumer_done s1 \<longleftrightarrow> \<not> sc_ingress_open (ls_shared s1)"
    using live sp(6) by (simp add: live_ok_def s1_def)
  have exit: "sched_inv (writer_exit s1)"
    by (intro writer_exit_inv) (use ok1 str ctl same done' in auto)
  have flow1: "flow_ok (s1\<lparr>ls_writer := x\<rparr>)" if good for x
    using str ctl that z(2) same unfolding flow_ok_def by (auto simp: pending_def pending_control_def)
  have ok2: "sched_ok (s1\<lparr>ls_writer := x\<rparr>)" if "x \<noteq> WDone" for x
    using ok1 alive same that by (simp add: sched_ok_def)
  have prio: "sc_priority (ls_shared s1) \<noteq> [] \<Longrightarrow> ls_work_available s1"
    using live w sp(5) by (simp add: live_ok_def s1_def)
  have idle: "idle_buckets s1" if "batch = []" using sp(4) [OF that] sp(2) that by (simp add: s1_def)
  have parked: "\<not> idle_buckets s1" if "ls_parked s1 = Some f" "\<not> ls_space_freed s1" "payload_len f \<le> unat MAX_FRAME_PAYLOAD" for f
  proof -
    have "\<not> idle_buckets s" "batch = []" using that live alive by (auto simp: live_ok_def s1_def)
    then show ?thesis using sp(4) by blast
  qed
  have live1: "live_ok (s1\<lparr>ls_writer := WPriority\<rparr>)"
    using done' parked unfolding live_ok_def by simp
  have live2: "live_ok (s1\<lparr>ls_writer := WParked\<rparr>)" if "batch = []" work_left
  proof -
    have "\<not> ls_consumer_done s1" if "\<not> ls_work_available s1"
      using that \<open>work_left\<close> prio idle [OF \<open>batch = []\<close>] done' bucket_pending [OF sp(1)] by (auto simp: work_left_def s1_def)
    then show ?thesis using done' parked prio idle [OF that(1)] unfolding live_ok_def by auto
  qed
  show ?thesis
    unfolding eq using exit flow1 ok2 live1 live2 by (simp add: sched_inv_def)
qed

lemma writer_turn_inv: "sched_inv s \<Longrightarrow> sched_inv (link_writer_turn failure s)"
proof (cases "ls_writer s")
  case WParked
  assume "sched_inv s"
  then have "sched_ok (s\<lparr>ls_work_available := False, ls_writer := WPriority\<rparr>)" "flow_ok (s\<lparr>ls_work_available := False, ls_writer := WPriority\<rparr>)"
    "live_ok (s\<lparr>ls_work_available := False, ls_writer := WPriority\<rparr>)"
    using WParked by (simp_all add: sched_inv_def sched_ok_def flow_ok_def live_ok_def pending_def pending_control_def)
  then show ?thesis using \<open>sched_inv s\<close> by (simp add: link_writer_turn_def WParked sched_inv_def)
qed (simp_all add: link_writer_turn_def writer_priority_inv writer_pass_inv)

text \<open>A closed receiver has nothing left, and the consumer stops only with both closed and nothing parked.\<close>

definition closed_ok :: "link_sched \<Rightarrow> bool" where
  "closed_ok s \<longleftrightarrow>
     (ls_bulk_closed s \<longrightarrow> \<not> ls_senders s \<and> chan_queue (ls_bulk s) = []) \<and>
     (ls_control_closed s \<longrightarrow> \<not> ls_senders s \<and> chan_queue (ls_control s) = []) \<and>
     (ls_consumer_done s \<longrightarrow> ls_bulk_closed s \<and> ls_control_closed s \<and> ls_parked s = None)"

lemma classify_closed [simp]:
  "ls_bulk_closed (classify_bulk f s) = ls_bulk_closed s" "ls_control_closed (classify_bulk f s) = ls_control_closed s"
  "ls_senders (classify_bulk f s) = ls_senders s" "ls_bulk (classify_bulk f s) = ls_bulk s"
  "ls_control (classify_bulk f s) = ls_control s" "ls_consumer_done (classify_bulk f s) = ls_consumer_done s"
  "ls_bulk_closed (classify_priority f s) = ls_bulk_closed s" "ls_control_closed (classify_priority f s) = ls_control_closed s"
  "ls_senders (classify_priority f s) = ls_senders s" "ls_bulk (classify_priority f s) = ls_bulk s"
  "ls_control (classify_priority f s) = ls_control s" "ls_consumer_done (classify_priority f s) = ls_consumer_done s"
  "ls_parked (classify_priority f s) = ls_parked s"
  by (simp_all add: classify_bulk_def classify_priority_def split: prod.split bucket_enqueue.split)

lemma consumer_closed:
  assumes "closed_ok s"
  shows "closed_ok (consumer_turn s)"
proof (cases "ls_consumer_done s")
  case True
  then show ?thesis using assms by (simp add: consumer_turn_def)
next
  case False
  have "closed_ok s'" if "retry_arm s = Some s'" for s'
    using that assms False by (auto simp: retry_arm_def closed_ok_def split: option.splits if_splits)
  moreover have "closed_ok s'" if "control_arm s = Some s'" for s'
    using that assms False
    by (auto simp: control_arm_def closed_ok_def chan_recv_def split: option.splits if_splits list.splits)
  moreover have "closed_ok s'" if "bulk_arm s = Some s'" for s'
    using that assms False
    by (auto simp: bulk_arm_def closed_ok_def chan_recv_def split: option.splits if_splits list.splits)
  moreover have "closed_ok (consumer_exit s)" if "ls_bulk_closed s" "ls_control_closed s" "ls_parked s = None"
    using that assms by (simp add: closed_ok_def consumer_exit_def)
  ultimately show ?thesis using assms False by (auto simp: consumer_turn_def split: option.split)
qed

lemma writer_fields [simp]:
  "ls_bulk (link_writer_turn fl s) = ls_bulk s" "ls_control (link_writer_turn fl s) = ls_control s"
  "ls_parked (link_writer_turn fl s) = ls_parked s" "ls_senders (link_writer_turn fl s) = ls_senders s"
  "ls_bulk_closed (link_writer_turn fl s) = ls_bulk_closed s" "ls_control_closed (link_writer_turn fl s) = ls_control_closed s"
  "ls_consumer_done (link_writer_turn fl s) = ls_consumer_done s" "ls_sent (link_writer_turn fl s) = ls_sent s"
  by (simp_all add: link_writer_turn_def writer_priority_def writer_pass_def writer_exit_def Let_def
      split: writer_phase.split prod.split)

lemma sched_reach_inv: "sched_reach config s \<Longrightarrow> sched_inv s \<and> closed_ok s"
proof (induction rule: sched_reach.induct)
  case start
  show ?case by (simp add: sched_inv_spawn) (simp add: closed_ok_def sched_spawn_def Let_def)
next
  case (step s s')
  from step.hyps(2) step.IH show ?case
  proof (induction rule: sched_step.induct)
    case (ingress s f)
    then have "closed_ok (fst (ingress_try_send f s))"
      by (auto simp: closed_ok_def ingress_try_send_def split: prod.split send_result.split)
    then show ?case using ingress ingress_inv by blast
  next
    case (drop_senders s)
    then show ?case by (simp add: closed_ok_def)
  next
    case (consumer s)
    then show ?case using consumer_turn_inv consumer_closed by blast
  next
    case (writer s failure)
    then show ?case using writer_turn_inv by (auto simp: closed_ok_def)
  qed
qed

lemma sched_params:
  "sched_reach config s \<Longrightarrow> ls_bucket_capacity s = max (bucket_capacity_bytes config) (unat MAX_FRAME_PAYLOAD) \<and>
     ls_link_budget s = max (link_budget_bytes config) (max (bucket_capacity_bytes config) (unat MAX_FRAME_PAYLOAD)) \<and>
     ls_round_budget s = max (round_budget_bytes config) 1"
proof (induction rule: sched_reach.induct)
  case start
  show ?case by (simp add: sched_spawn_def Let_def)
next
  case (step s s')
  from step.hyps(2) step.IH show ?case
    by (induction rule: sched_step.induct)
      (auto simp: ingress_try_send_def consumer_turn_def retry_arm_def control_arm_def bulk_arm_def consumer_exit_def
        classify_bulk_def classify_priority_def link_writer_turn_def writer_priority_def writer_pass_def writer_exit_def Let_def
        split: prod.splits send_result.splits option.splits bucket_enqueue.splits writer_phase.splits if_splits)
qed

end
