(* ===== verification/Scheduler_Props.thy ===== *)
theory Scheduler_Props
  imports Scheduler
begin

text \<open>
  What the egress scheduler guarantees (\<^verbatim>\<open>src/infra/relay_scheduler.rs\<close>): bounded queues, per-stream
  order, freedom from lost wake-ups, fairness of a pass, the flush on shutdown.
\<close>

section \<open>Properties\<close>

text \<open>
  C17: byte accounting. In every reachable scheduler, under every interleaving of producers, consumer and
  writer, a bucket's byte count is the sum of its frames, which all belong to its stream, and stays
  within the bucket capacity; the link total is the sum over the buckets and stays within the link
  budget; and the next pass never frees more bytes than the total, so the unsigned subtractions
  do not underflow.
\<close>

theorem scheduler_bytes_bounded:
  assumes "sched_reach config s"
  defines "cap \<equiv> max (bucket_capacity_bytes config) (unat MAX_FRAME_PAYLOAD)"
  shows "(\<forall>(sid, b) \<in> set (sc_buckets (ls_shared s)).
       bk_queued_bytes b = frames_bytes (bk_queue b) \<and> bk_queued_bytes b \<le> cap \<and>
       (\<forall>f \<in> set (bk_queue b). frame_stream_id f = sid \<and> is_bulk_ordered f)) \<and>
     sc_total_bucket_bytes (ls_shared s) = (\<Sum>(sid, b) \<leftarrow> sc_buckets (ls_shared s). bk_queued_bytes b) \<and>
     sc_total_bucket_bytes (ls_shared s) \<le> max (link_budget_bytes config) cap \<and>
     frames_bytes (fst (drr_pass (ls_round_budget s) (sc_buckets (ls_shared s)))) \<le> sc_total_bucket_bytes (ls_shared s)"
proof -
  have ok: "sched_ok s" using sched_reach_inv [OF assms(1)] by (simp add: sched_inv_def)
  note par = sched_params [OF assms(1)]
  have "frames_bytes (fst (drr_pass (ls_round_budget s) (sc_buckets (ls_shared s)))) \<le> sc_total_bucket_bytes (ls_shared s)"
    using after_pass_spec(8) [OF ok, of "fst (after_pass s)" "snd (after_pass s)"]
    by (simp add: after_pass_def split: prod.splits)
  moreover have "acct_ok cap (max (link_budget_bytes config) cap) (ls_shared s)"
    using ok par by (simp add: sched_ok_def cap_def)
  moreover have "buckets_bytes bs = (\<Sum>(sid, b) \<leftarrow> bs. bk_queued_bytes b)" for bs
    by (simp add: buckets_bytes_def comp_def case_prod_unfold)
  ultimately show ?thesis by (auto simp: acct_ok_def buckets_ok_def bucket_ok_def)
qed

definition one_queued :: link_sched where
  "one_queued = consumer_turn (fst (ingress_try_send (Data 7 [1, 2, 3]) (sched_spawn default_config)))"

lemma one_queued:
  "sched_reach default_config one_queued"
  "sc_buckets (ls_shared one_queued) = [(7, \<lparr>bk_queue = [Data 7 [1, 2, 3]], bk_queued_bytes = 3, bk_deficit = 0, bk_idle_passes = 0\<rparr>)]"
  "ls_parked one_queued = None" "\<not> sc_writer_done (ls_shared one_queued)" "ls_sent one_queued = [Data 7 [1, 2, 3]]"
  "ls_written one_queued = []" "ls_writer one_queued = WPriority" "ls_round_budget one_queued = 65536"
proof -
  have "ls_senders (sched_spawn default_config)" by (simp add: sched_spawn_def Let_def)
  from sched_reach.step [OF sched_reach.step [OF sched_reach.start sched_step.ingress [OF this]] sched_step.consumer]
  show "sched_reach default_config one_queued" unfolding one_queued_def .
qed (simp_all add: one_queued_def sched_spawn_def default_config_def ingress_try_send_def chan_try_send_def
      LINK_OUTBOUND_QUEUE_def consumer_turn_def retry_arm_def control_arm_def bulk_arm_def chan_recv_def classify_bulk_def
      enqueue_bucket_def entry_bucket_def bucket_new_def Let_def MAX_FRAME_PAYLOAD_def)

theorem scheduler_bytes_bounded_witness:
  "sched_reach default_config one_queued \<and> sc_total_bucket_bytes (ls_shared one_queued) = 3"
  using scheduler_bytes_bounded [OF one_queued(1)] one_queued(1,2) by simp

text \<open>
  C18: no loss, no duplication, no reordering within a stream. While the writer runs, for every stream the
  bulk frames accepted by the ingress are the ones written to the socket followed by the ones queued in its bucket,
  parked, and waiting in the ingress queue, in this order; likewise the control frames. After the
  writer stopped, what was written is still a prefix of what was accepted, in order.
\<close>

theorem scheduler_fifo:
  assumes "sched_reach config s"
  shows "(\<not> sc_writer_done (ls_shared s) \<longrightarrow>
       (\<forall>t. stream_frames t (ls_sent s) = stream_frames t (ls_written s) @ queue_of t (sc_buckets (ls_shared s)) @
              stream_frames t (opt_list (ls_parked s)) @ stream_frames t (chan_queue (ls_bulk s))) \<and>
       control_frames (ls_sent s) = control_frames (ls_written s) @ sc_priority (ls_shared s) @ chan_queue (ls_control s)) \<and>
     (\<forall>t. \<exists>rest. stream_frames t (ls_sent s) = stream_frames t (ls_written s) @ rest) \<and>
     (\<exists>rest. control_frames (ls_sent s) = control_frames (ls_written s) @ rest)"
  using sched_reach_inv [OF assms] by (simp add: sched_inv_def flow_ok_def pending_def pending_control_def)

theorem scheduler_fifo_witness:
  "stream_frames 7 (ls_sent one_queued) = queue_of 7 (sc_buckets (ls_shared one_queued)) @ stream_frames 7 (chan_queue (ls_bulk one_queued))"
  using scheduler_fifo [OF one_queued(1)] one_queued(3,4,6) by simp

text \<open>
  C19: the scheduler is never stuck. In every reachable state whose writer is running, if a frame is
  in the priority queue or in a bucket, or a bulk frame of legal size is parked with the
  consumer, then the writer is not asleep without a wake-up permit, or the consumer has the permit
  to retry its parked frame.
\<close>

theorem scheduler_never_stuck:
  assumes "sched_reach config s" "\<not> sc_writer_done (ls_shared s)"
    and "sc_priority (ls_shared s) \<noteq> [] \<or> queue_of t (sc_buckets (ls_shared s)) \<noteq> [] \<or>
      (\<exists>f. ls_parked s = Some f \<and> payload_len f \<le> unat MAX_FRAME_PAYLOAD)"
  shows "(ls_writer s = WParked \<longrightarrow> ls_work_available s) \<or> (ls_parked s \<noteq> None \<and> ls_space_freed s)"
  using sched_reach_inv [OF assms(1)] assms(2,3) unfolding sched_inv_def live_ok_def by blast

theorem scheduler_never_stuck_witness:
  "queue_of 7 (sc_buckets (ls_shared one_queued)) \<noteq> [] \<and> \<not> (ls_writer one_queued = WParked \<and> \<not> ls_work_available one_queued)"
  using scheduler_never_stuck [OF one_queued(1,4), of 7] one_queued(2,3) by (simp add: queue_of_def)

section \<open>Fairness\<close>

lemma drr_pass_own:
  assumes "drr_pass r bs = (batch, bs')" "buckets_ok bs" "map_of bs sid = Some b" "serve_bucket r b = (own, b')"
  shows "stream_frames sid batch = own \<and> map_of bs' sid = Some b'"
  using assms
proof (induction r bs arbitrary: batch bs' rule: drr_pass.induct)
  case (2 r t c bs)
  obtain own1 c' where sb: "serve_bucket r c = (own1, c')" by (cases "serve_bucket r c")
  obtain rest bs1 where dp: "drr_pass r bs = (rest, bs1)" by (cases "drr_pass r bs")
  have eqs: "batch = own1 @ rest" "bs' = (t, c') # bs1" using "2.prems"(1) sb dp by auto
  have ok: "bucket_ok t c" "buckets_ok bs" "t \<notin> set (map fst bs)" using "2.prems"(2) by (auto simp: buckets_ok_def)
  have "\<forall>f \<in> set own1. frame_stream_id f = t \<and> is_bulk_ordered f"
    using ok(1) serve_bucket_spec(1) [OF sb ok(1)] unfolding bucket_ok_def by simp
  then have own1: "stream_frames sid own1 = (if sid = t then own1 else [])" by (rule stream_frames_own)
  show ?case
  proof (cases "sid = t")
    case True
    have "queue_of t bs = []" using queue_of_absent [OF ok(3)] .
    then have "stream_frames t rest = []" using drr_pass_spec [OF dp ok(2)] by (metis append_is_Nil_conv)
    moreover have "own = own1" "b' = c'" using "2.prems"(3,4) True sb by auto
    ultimately show ?thesis using own1 True by (simp add: eqs)
  next
    case False
    then show ?thesis
      using "2.IH" [OF sb [symmetric] dp ok(2)] "2.prems"(3,4) own1 by (simp add: eqs)
  qed
qed simp

text \<open>
  C20: one round-robin pass is fair per visit. Every stream with backlog sends at least one frame; it sends
  no more bytes than its carried deficit plus the round budget (or one frame, if that frame alone is larger),
  and its deficit afterwards is the carried one plus the budget minus what it sent.
\<close>

theorem pass_serves_every_backlog:
  assumes "sched_reach config s" "map_of (sc_buckets (ls_shared s)) sid = Some b" "bk_queue b \<noteq> []"
    and "drr_pass (ls_round_budget s) (sc_buckets (ls_shared s)) = (batch, bs')"
  shows "\<exists>b'. map_of bs' sid = Some b' \<and> stream_frames sid batch \<noteq> [] \<and> bk_queue b = stream_frames sid batch @ bk_queue b' \<and>
     frames_bytes (stream_frames sid batch) \<le> max (nat (bk_deficit b + int (ls_round_budget s))) (payload_len (hd (bk_queue b))) \<and>
     bk_deficit b' = bk_deficit b + int (ls_round_budget s) - int (frames_bytes (stream_frames sid batch))"
proof -
  have ok: "buckets_ok (sc_buckets (ls_shared s))"
    using sched_reach_inv [OF assms(1)] by (simp add: sched_inv_def sched_ok_def acct_ok_def)
  then have "bucket_ok sid b" using assms(2) by (auto simp: buckets_ok_def dest!: map_of_SomeD)
  obtain own b' where sb: "serve_bucket (ls_round_budget s) b = (own, b')" by (cases "serve_bucket (ls_round_budget s) b")
  note own = drr_pass_own [OF assms(4) ok assms(2) sb]
  note sp = serve_bucket_spec [OF sb \<open>bucket_ok sid b\<close>]
  show ?thesis
    using own sp(1,6) sp(3,5) [OF assms(3)] by auto
qed

theorem pass_serves_every_backlog_witness:
  "stream_frames 7 (fst (drr_pass (ls_round_budget one_queued) (sc_buckets (ls_shared one_queued)))) \<noteq> []"
proof -
  obtain batch bs' where dp: "drr_pass (ls_round_budget one_queued) (sc_buckets (ls_shared one_queued)) = (batch, bs')"
    by fastforce
  show ?thesis using pass_serves_every_backlog [OF one_queued(1) _ _ dp, of 7] one_queued(2) dp by auto
qed

section \<open>Flush on shutdown\<close>

definition bucket_frames :: "link_sched \<Rightarrow> nat" where
  "bucket_frames s = (\<Sum>(sid, b) \<leftarrow> sc_buckets (ls_shared s). length (bk_queue b))"

text \<open>A rank that every turn of a running writer lowers once the ingress is closed.\<close>

definition flush_rank :: "link_sched \<Rightarrow> nat" where
  "flush_rank s = 5 * bucket_frames s +
     (case ls_writer s of
        WDone \<Rightarrow> 0
      | WPass _ \<Rightarrow> if sc_priority (ls_shared s) = [] then 1 else 4
      | WPriority \<Rightarrow> 2
      | WParked \<Rightarrow> 3)"

lemma drr_pass_frames:
  "drr_pass r bs = (batch, bs') \<Longrightarrow> buckets_ok bs \<Longrightarrow>
     (\<Sum>(sid, b) \<leftarrow> bs. length (bk_queue b)) = length batch + (\<Sum>(sid, b) \<leftarrow> bs'. length (bk_queue b))"
proof (induction r bs arbitrary: batch bs' rule: drr_pass.induct)
  case (2 r sid b bs)
  obtain own b' where sb: "serve_bucket r b = (own, b')" by (cases "serve_bucket r b")
  obtain rest bs1 where dp: "drr_pass r bs = (rest, bs1)" by (cases "drr_pass r bs")
  have ok: "bucket_ok sid b" "buckets_ok bs" using "2.prems"(2) by (auto simp: buckets_ok_def)
  have "batch = own @ rest" "bs' = (sid, b') # bs1" using "2.prems"(1) sb dp by auto
  then show ?case using "2.IH" [OF sb [symmetric] dp ok(2)] serve_bucket_spec(1) [OF sb ok(1)] by simp
qed simp

lemma reap_frames: "(\<Sum>(sid, b) \<leftarrow> reap bs. length (bk_queue b)) = (\<Sum>(sid, b) \<leftarrow> bs. length (bk_queue b))"
  by (induction bs) (auto simp: reap_def)

lemma flush_pass:
  assumes inv: "sched_inv s" and w: "ls_writer s = WPass e" and closed: "ls_consumer_done s"
  shows "flush_rank (writer_pass None e s) < flush_rank s"
    "ls_writer (writer_pass None e s) = WDone \<Longrightarrow> idle_buckets s \<and> sc_priority (ls_shared s) = [] \<and> ls_written (writer_pass None e s) = ls_written s"
proof -
  have ok: "sched_ok s" and live: "live_ok s" using inv by (simp_all add: sched_inv_def)
  obtain batch sh where ap: "after_pass s = (batch, sh)" by (cases "after_pass s")
  note sp = after_pass_spec [OF ok ap]
  obtain bs where dp: "drr_pass (ls_round_budget s) (sc_buckets (ls_shared s)) = (batch, bs)" and sh: "sc_buckets sh = reap bs"
    using ap by (auto simp: after_pass_def split: prod.splits)
  have frames: "bucket_frames s = length batch + (\<Sum>(sid, b) \<leftarrow> sc_buckets sh. length (bk_queue b))"
    using drr_pass_frames [OF dp] ok by (simp add: bucket_frames_def sh reap_frames sched_ok_def acct_ok_def)
  have wb: "write_batch None batch = (batch, True)" by (simp add: write_batch_def)
  have shut: "\<not> sc_ingress_open sh" using live closed sp(6) by (simp add: live_ok_def)
  define left where "left \<longleftrightarrow> (\<exists>(_, b) \<in> set (sc_buckets sh). bk_queue b \<noteq> [])"
  have idle: "\<not> left" if "batch = []"
    using sp(4) [OF that] sp(2) that bucket_pending [OF sp(1)] by (simp add: left_def)
  note eq = writer_pass_eq [OF ap wb, of e]
  show "flush_rank (writer_pass None e s) < flush_rank s"
    unfolding eq using frames shut idle sp(5) w
    by (cases batch) (auto simp: flush_rank_def bucket_frames_def writer_exit_def left_def [symmetric])
  show "idle_buckets s \<and> sc_priority (ls_shared s) = [] \<and> ls_written (writer_pass None e s) = ls_written s"
    if "ls_writer (writer_pass None e s) = WDone"
    using that sp(4,5) unfolding eq by (auto simp: writer_exit_def split: if_splits)
qed

lemma flush_turn:
  assumes inv: "sched_inv s" "closed_ok s" and closed: "ls_consumer_done s" and running: "ls_writer s \<noteq> WDone"
  shows "flush_rank (link_writer_turn None s) < flush_rank s"
    "ls_writer (link_writer_turn None s) = WDone \<Longrightarrow>
       stream_frames t (ls_written (link_writer_turn None s)) = stream_frames t (ls_sent s) \<and>
       control_frames (ls_written (link_writer_turn None s)) = control_frames (ls_sent s)"
proof -
  show "flush_rank (link_writer_turn None s) < flush_rank s"
  proof (cases "ls_writer s")
    case WPriority
    then show ?thesis
      by (simp add: link_writer_turn_def writer_priority_def write_batch_def Let_def flush_rank_def bucket_frames_def)
  next
    case (WPass e)
    then show ?thesis using flush_pass(1) [OF inv(1) WPass closed] by (simp add: link_writer_turn_def)
  next
    case WParked
    then have "ls_work_available s" using inv(1) closed by (auto simp: sched_inv_def live_ok_def)
    then show ?thesis using WParked by (simp add: link_writer_turn_def flush_rank_def bucket_frames_def)
  qed (use running in simp)
  assume done': "ls_writer (link_writer_turn None s) = WDone"
  have "\<exists>e. ls_writer s = WPass e"
    using done' running
    by (auto simp: link_writer_turn_def writer_priority_def write_batch_def Let_def split: writer_phase.splits if_splits)
  then obtain e where w: "ls_writer s = WPass e" by blast
  then have "idle_buckets s" "sc_priority (ls_shared s) = []" "ls_written (link_writer_turn None s) = ls_written s"
    using flush_pass(2) [OF inv(1) w closed] done' by (simp_all add: link_writer_turn_def)
  moreover have "ls_parked s = None" "chan_queue (ls_bulk s) = []" "chan_queue (ls_control s) = []"
    using inv(2) closed by (auto simp: closed_ok_def)
  moreover have "\<not> sc_writer_done (ls_shared s)" using inv(1) w by (simp add: sched_inv_def sched_ok_def)
  ultimately show "stream_frames t (ls_written (link_writer_turn None s)) = stream_frames t (ls_sent s) \<and>
       control_frames (ls_written (link_writer_turn None s)) = control_frames (ls_sent s)"
    using inv(1) by (simp add: sched_inv_def flow_ok_def pending_def pending_control_def)
qed

lemma flush_run:
  assumes "sched_inv s" "closed_ok s" "ls_consumer_done s" "ls_writer s \<noteq> WDone"
  shows "\<exists>n \<le> flush_rank s. ls_writer ((link_writer_turn None ^^ n) s) = WDone \<and>
     (\<forall>t. stream_frames t (ls_written ((link_writer_turn None ^^ n) s)) = stream_frames t (ls_sent s)) \<and>
     control_frames (ls_written ((link_writer_turn None ^^ n) s)) = control_frames (ls_sent s)"
  using assms
proof (induction "flush_rank s" arbitrary: s rule: less_induct)
  case less
  define s1 where "s1 = link_writer_turn None s"
  note ft = flush_turn [OF less.prems]
  show ?case
  proof (cases "ls_writer s1 = WDone")
    case True
    have "0 < flush_rank s" using ft(1) by simp
    then show ?thesis
      using True ft(2) unfolding s1_def by (intro exI [of _ 1]) (simp add: Suc_leI)
  next
    case False
    have "sched_inv s1" "closed_ok s1" "ls_consumer_done s1" "ls_sent s1 = ls_sent s"
      using less.prems writer_turn_inv by (simp_all add: s1_def closed_ok_def)
    then obtain n where n: "n \<le> flush_rank s1" "ls_writer ((link_writer_turn None ^^ n) s1) = WDone"
      "\<forall>t. stream_frames t (ls_written ((link_writer_turn None ^^ n) s1)) = stream_frames t (ls_sent s)"
      "control_frames (ls_written ((link_writer_turn None ^^ n) s1)) = control_frames (ls_sent s)"
      using less.hyps [of s1] ft(1) False by (auto simp: s1_def)
    then show ?thesis
      using ft(1) by (intro exI [of _ "Suc n"]) (simp add: s1_def funpow_swap1 [symmetric])
  qed
qed

text \<open>
  C21: shutdown flushes. Once the consumer has finished (every producer is gone), the writer terminates
  by itself if the socket accepts its writes, within a number of turns bounded by the queued frames,
  and by then every frame ever accepted has been written, each stream's in order.
\<close>

theorem shutdown_flushes:
  assumes "sched_reach config s" "ls_consumer_done s" "ls_writer s \<noteq> WDone"
  shows "\<exists>n \<le> 5 * (\<Sum>(sid, b) \<leftarrow> sc_buckets (ls_shared s). length (bk_queue b)) + 4.
     ls_writer ((link_writer_turn None ^^ n) s) = WDone \<and>
     (\<forall>t. stream_frames t (ls_written ((link_writer_turn None ^^ n) s)) = stream_frames t (ls_sent s)) \<and>
     control_frames (ls_written ((link_writer_turn None ^^ n) s)) = control_frames (ls_sent s)"
proof -
  have "flush_rank s \<le> 5 * (\<Sum>(sid, b) \<leftarrow> sc_buckets (ls_shared s). length (bk_queue b)) + 4"
    by (simp add: flush_rank_def bucket_frames_def split: writer_phase.split)
  then show ?thesis
    using flush_run [of s] sched_reach_inv [OF assms(1)] assms(2,3) by (meson le_trans)
qed

definition one_closing :: link_sched where
  "one_closing = consumer_turn (consumer_turn (consumer_turn (one_queued\<lparr>ls_senders := False\<rparr>)))"

lemma one_closing: "sched_reach default_config one_closing" "ls_consumer_done one_closing" "ls_writer one_closing = WPriority"
  "ls_sent one_closing = [Data 7 [1, 2, 3]]"
proof -
  have "sched_reach default_config (one_queued\<lparr>ls_senders := False\<rparr>)"
    by (rule sched_reach.step [OF one_queued(1) sched_step.drop_senders])
  then show "sched_reach default_config one_closing"
    unfolding one_closing_def by (blast intro: sched_reach.step sched_step.consumer)
qed (simp_all add: one_closing_def one_queued_def sched_spawn_def default_config_def ingress_try_send_def chan_try_send_def
      LINK_OUTBOUND_QUEUE_def consumer_turn_def retry_arm_def control_arm_def bulk_arm_def chan_recv_def classify_bulk_def consumer_exit_def
      enqueue_bucket_def entry_bucket_def bucket_new_def Let_def MAX_FRAME_PAYLOAD_def)

theorem shutdown_flushes_witness:
  "\<exists>n. ls_writer ((link_writer_turn None ^^ n) one_closing) = WDone \<and>
     stream_frames 7 (ls_written ((link_writer_turn None ^^ n) one_closing)) = [Data 7 [1, 2, 3]]"
  using shutdown_flushes [OF one_closing(1,2)] one_closing(3,4) by auto

section \<open>Carried deficit\<close>

text \<open>
  A link that has carried one stream: its bucket holds \<open>q\<close> with deficit \<open>d\<close>, everything else is at rest.
\<close>

definition lone :: "frame list \<Rightarrow> int \<Rightarrow> link_sched \<Rightarrow> bool" where
  "lone q d s \<longleftrightarrow>
     sched_reach default_config s \<and>
     sc_buckets (ls_shared s) = [(1, \<lparr>bk_queue = q, bk_queued_bytes = frames_bytes q, bk_deficit = d, bk_idle_passes = 0\<rparr>)] \<and>
     sc_total_bucket_bytes (ls_shared s) = frames_bytes q \<and> sc_priority (ls_shared s) = [] \<and> \<not> sc_writer_done (ls_shared s) \<and>
     ls_bulk s = chan_new LINK_OUTBOUND_QUEUE \<and> ls_control s = chan_new LINK_OUTBOUND_QUEUE \<and> ls_senders s \<and>
     ls_parked s = None \<and> \<not> ls_bulk_closed s \<and> \<not> ls_control_closed s \<and> \<not> ls_consumer_done s \<and> ls_writer s = WPriority"

lemma default_params:
  assumes "sched_reach default_config s"
  shows "ls_bucket_capacity s = 1048576" "ls_link_budget s = 67108864" "ls_round_budget s = 65536"
  using sched_params [OF assms] by (simp_all add: default_config_def MAX_FRAME_PAYLOAD_def)

text \<open>A frame sent through an idle ingress reaches its bucket in one turn of the consumer.\<close>

lemma feed_step:
  assumes "ls_bulk s = chan_new LINK_OUTBOUND_QUEUE" "ls_control s = chan_new LINK_OUTBOUND_QUEUE" "ls_senders s"
    "ls_parked s = None" "\<not> ls_bulk_closed s" "\<not> ls_control_closed s" "\<not> ls_consumer_done s" "is_bulk_ordered f"
  shows "consumer_turn (fst (ingress_try_send f s)) = classify_bulk f (s\<lparr>ls_sent := ls_sent s @ [f], ls_bulk := chan_new LINK_OUTBOUND_QUEUE\<rparr>)"
proof -
  have q: "(chan_new LINK_OUTBOUND_QUEUE)\<lparr>chan_queue := []\<rparr> = chan_new LINK_OUTBOUND_QUEUE" by (simp add: chan_new_def)
  show ?thesis
    using assms
    by (simp add: ingress_try_send_def chan_try_send_def consumer_turn_def retry_arm_def control_arm_def bulk_arm_def
        chan_recv_def q) (simp add: LINK_OUTBOUND_QUEUE_def)
qed

lemma feed_reach:
  assumes "sched_reach config s" "ls_senders s"
  shows "sched_reach config (consumer_turn (fst (ingress_try_send f s)))"
  by (rule sched_reach.step [OF sched_reach.step [OF assms(1) sched_step.ingress [OF assms(2)]] sched_step.consumer])

lemma feed_steps: "ls_senders s \<Longrightarrow> sched_step\<^sup>*\<^sup>* s (consumer_turn (fst (ingress_try_send f s)))"
  by (rule rtranclp_trans [OF r_into_rtranclp [of sched_step, OF sched_step.ingress] r_into_rtranclp [of sched_step, OF sched_step.consumer]])

lemma writer_steps: "sched_step\<^sup>*\<^sup>* s (link_writer_turn None (link_writer_turn None s))"
  by (rule rtranclp_trans [OF r_into_rtranclp [of sched_step, OF sched_step.writer] r_into_rtranclp [of sched_step, OF sched_step.writer]])

lemma steps_reach: "sched_step\<^sup>*\<^sup>* s s' \<Longrightarrow> sched_reach config s \<Longrightarrow> sched_reach config s'"
  by (induction rule: rtranclp_induct) (auto intro: sched_reach.step)

lemma lone_feed:
  assumes l: "lone q d s" and f: "is_bulk_ordered f" "frame_stream_id f = 1" "frames_bytes q + payload_len f \<le> 1048576"
  shows "\<exists>s'. sched_step\<^sup>*\<^sup>* s s' \<and> lone (q @ [f]) d s'"
proof -
  note d = l [unfolded lone_def]
  define s' where "s' = consumer_turn (fst (ingress_try_send f s))"
  have t: "sched_step\<^sup>*\<^sup>* s s'" unfolding s'_def using feed_steps d by blast
  have "s' = classify_bulk f (s\<lparr>ls_sent := ls_sent s @ [f], ls_bulk := chan_new LINK_OUTBOUND_QUEUE\<rparr>)"
    unfolding s'_def by (rule feed_step) (use d f in auto)
  then have "lone (q @ [f]) d s'"
    using d f steps_reach [OF t, of default_config] default_params [of s]
    by (simp add: lone_def classify_bulk_def enqueue_bucket_def entry_bucket_def Let_def add.commute)
  then show ?thesis using t by blast
qed

lemma lone_tick:
  assumes l: "lone q d s" and q: "q \<noteq> []" "int (frames_bytes q) \<le> d + 65536"
  shows "\<exists>s'. lone [] (d + 65536 - int (frames_bytes q)) s'"
proof -
  note d = l [unfolded lone_def]
  define s1 where "s1 = link_writer_turn None s"
  define s2 where "s2 = link_writer_turn None s1"
  have r: "sched_reach default_config s2"
    unfolding s1_def s2_def using d by (blast intro: sched_reach.step sched_step.writer)
  have s1: "s1 = s\<lparr>ls_shared := (ls_shared s)\<lparr>sc_priority := []\<rparr>, ls_writer := WPass True\<rparr>"
    using d by (simp add: s1_def link_writer_turn_def writer_priority_def write_batch_def Let_def)
  have sb: "serve_bucket 65536 \<lparr>bk_queue = q, bk_queued_bytes = frames_bytes q, bk_deficit = d, bk_idle_passes = 0\<rparr>
      = (q, \<lparr>bk_queue = [], bk_queued_bytes = 0, bk_deficit = d + 65536 - int (frames_bytes q), bk_idle_passes = 0\<rparr>)"
    using q drr_take_all [OF q(2)] by (cases q) (simp_all add: serve_bucket_def)
  have "lone [] (d + 65536 - int (frames_bytes q)) s2"
    using d q r default_params [of s]
    by (simp add: lone_def s2_def s1 link_writer_turn_def writer_pass_def sb write_batch_def Let_def reap_def IDLE_REAP_PASSES_def)
  then show ?thesis by blast
qed

lemma lone_start: "\<exists>s. lone [Window 1 0] 0 s"
proof -
  define s where "s = consumer_turn (fst (ingress_try_send (Window 1 0) (sched_spawn default_config)))"
  have r: "sched_reach default_config s"
    unfolding s_def by (rule feed_reach [OF sched_reach.start]) (simp add: sched_spawn_def Let_def)
  have "lone [Window 1 0] 0 s"
    unfolding lone_def using r
    by (simp add: s_def sched_spawn_def default_config_def ingress_try_send_def chan_try_send_def
      LINK_OUTBOUND_QUEUE_def consumer_turn_def retry_arm_def control_arm_def bulk_arm_def chan_recv_def classify_bulk_def
      enqueue_bucket_def entry_bucket_def bucket_new_def Let_def MAX_FRAME_PAYLOAD_def chan_new_def)
  then show ?thesis by blast
qed

lemma lone_saves: "\<exists>s. lone [] (65528 * (1 + int n)) s"
proof (induction n)
  case 0
  obtain s where "lone [Window 1 0] 0 s" using lone_start by blast
  from lone_tick [OF this] show ?case by simp
next
  case (Suc n)
  then obtain s where "lone [] (65528 * (1 + int n)) s" by blast
  then obtain s' where "lone [Window 1 0] (65528 * (1 + int n)) s'"
    using lone_feed [of "[]" _ s "Window 1 0"] by auto
  from lone_tick [OF this] show ?case by (simp add: algebra_simps)
qed

lemma frames_bytes_replicate: "frames_bytes (replicate k f) = k * payload_len f"
  by (induction k) auto

lemma lone_open: "lone q d s \<Longrightarrow> sc_ingress_open (ls_shared s)"
  using sched_reach_inv [of default_config s] by (auto simp: lone_def sched_inv_def live_ok_def)

text \<open>A pass over the empty bucket leaves its deficit, and the writer parks until the next frame arrives.\<close>

definition sat_out :: "int \<Rightarrow> link_sched \<Rightarrow> bool" where
  "sat_out d s \<longleftrightarrow>
     sched_reach default_config s \<and>
     sc_buckets (ls_shared s) = [(1, \<lparr>bk_queue = [], bk_queued_bytes = 0, bk_deficit = d, bk_idle_passes = 1\<rparr>)]"

lemma lone_idle:
  assumes l: "lone [] d s" and f: "is_bulk_ordered f" "frame_stream_id f = 1" "payload_len f \<le> 1048576"
  shows "\<exists>s1 s'. sat_out d s1 \<and> sched_step\<^sup>*\<^sup>* s1 s' \<and> lone [f] d s'"
proof -
  note d = l [unfolded lone_def]
  define s1 where "s1 = link_writer_turn None (link_writer_turn None s)"
  define s2 where "s2 = consumer_turn (fst (ingress_try_send f s1))"
  define s3 where "s3 = link_writer_turn None s2"
  have r1: "sched_reach default_config s1" unfolding s1_def using steps_reach [OF writer_steps] d by blast
  have s1: "s1 = s\<lparr>ls_shared := (ls_shared s)\<lparr>sc_priority := [], sc_buckets :=
      [(1, \<lparr>bk_queue = [], bk_queued_bytes = 0, bk_deficit = d, bk_idle_passes = 1\<rparr>)]\<rparr>, ls_writer := WParked\<rparr>"
    using d by (simp add: s1_def link_writer_turn_def writer_priority_def writer_pass_def write_batch_def Let_def reap_def
        IDLE_REAP_PASSES_def serve_bucket_def lone_open [OF l])
  have "sched_step\<^sup>*\<^sup>* s1 s2" unfolding s2_def using feed_steps d by (simp add: s1)
  then have t: "sched_step\<^sup>*\<^sup>* s1 s3" unfolding s3_def using sched_step.writer by (rule rtranclp.rtrancl_into_rtrancl)
  have "s2 = classify_bulk f (s1\<lparr>ls_sent := ls_sent s1 @ [f], ls_bulk := chan_new LINK_OUTBOUND_QUEUE\<rparr>)"
    unfolding s2_def by (rule feed_step) (use d f in \<open>auto simp: s1\<close>)
  then have "lone [f] d s3"
    using d f steps_reach [OF t r1] default_params [of s]
    by (simp add: lone_def s3_def s1 classify_bulk_def enqueue_bucket_def entry_bucket_def Let_def link_writer_turn_def)
  moreover have "sat_out d s1" using r1 by (simp add: sat_out_def s1)
  ultimately show ?thesis using t by blast
qed

lemma lone_fill:
  assumes "lone q d s" "is_bulk_ordered f" "frame_stream_id f = 1" "frames_bytes q + k * payload_len f \<le> 1048576"
  shows "\<exists>s'. sched_step\<^sup>*\<^sup>* s s' \<and> lone (q @ replicate k f) d s'"
  using assms(4)
proof (induction k)
  case 0
  then show ?case using assms(1) by auto
next
  case (Suc k)
  then obtain s1 where s1: "sched_step\<^sup>*\<^sup>* s s1" "lone (q @ replicate k f) d s1" by auto
  then obtain s2 where "sched_step\<^sup>*\<^sup>* s1 s2" "lone ((q @ replicate k f) @ [f]) d s2"
    using lone_feed [OF s1(2) assms(2,3)] Suc.prems by (auto simp: frames_bytes_replicate)
  then have "lone (q @ replicate (Suc k) f) d s2" "sched_step\<^sup>*\<^sup>* s s2"
    using s1(1) by (auto simp: replicate_append_same intro: rtranclp_trans)
  then show ?case by blast
qed

text \<open>
  C22: the deficit a stream saves up is not bounded by one round, and it keeps it while it has nothing to send. A stream that
  sends one 8-byte window grant per pass keeps nearly the whole round budget each time; after 16 such passes and one more
  pass in which it is idle it still has more than 15 round budgets, and a later pass sends a full bucket of 1 MiB of it, sixteen round budgets, ahead of another stream
  that has backlog and sends one byte.
\<close>

theorem carried_deficit_bursts:
  "\<exists>s0 b s batch bs'. sched_reach default_config s0 \<and> map_of (sc_buckets (ls_shared s0)) 1 = Some b \<and>
     bk_queue b = [] \<and> bk_idle_passes b = 1 \<and> 15 * int (ls_round_budget s0) < bk_deficit b \<and> sched_step\<^sup>*\<^sup>* s0 s \<and>
     queue_of 3 (sc_buckets (ls_shared s)) = [Data 3 [0]] \<and>
     drr_pass (ls_round_budget s) (sc_buckets (ls_shared s)) = (batch, bs') \<and>
     batch = stream_frames 1 batch @ [Data 3 [0]] \<and>
     frames_bytes (stream_frames 1 batch) = 16 * ls_round_budget s"
proof -
  obtain p :: bytes where p: "length p = 16384" by (rule that [OF length_replicate])
  obtain s0 where "lone [] (65528 * (1 + int 15)) s0" using lone_saves by blast
  then have s0: "lone [] 1048448 s0" by simp
  obtain k :: nat where k: "k = 63" by simp
  define q where "q = replicate (Suc k) (Data 1 p)"
  obtain si s1 where si: "sat_out 1048448 si" "sched_step\<^sup>*\<^sup>* si s1" "lone [Data 1 p] 1048448 s1"
    using lone_idle [OF s0, of "Data 1 p"] p by auto
  obtain s where s': "sched_step\<^sup>*\<^sup>* s1 s" and s: "lone q 1048448 s"
    using lone_fill [OF si(3), of "Data 1 p" k] p k unfolding q_def replicate_Suc by auto
  have bytes: "frames_bytes q = 1048576" unfolding q_def frames_bytes_replicate by (simp add: p k)
  note d = s [unfolded lone_def]
  define s' where "s' = consumer_turn (fst (ingress_try_send (Data 3 [0]) s))"
  have r: "sched_reach default_config s'" unfolding s'_def using feed_reach d by blast
  have "s' = classify_bulk (Data 3 [0]) (s\<lparr>ls_sent := ls_sent s @ [Data 3 [0]], ls_bulk := chan_new LINK_OUTBOUND_QUEUE\<rparr>)"
    unfolding s'_def by (rule feed_step) (use d in auto)
  then have b: "sc_buckets (ls_shared s') =
     [(1, \<lparr>bk_queue = q, bk_queued_bytes = 1048576, bk_deficit = 1048448, bk_idle_passes = 0\<rparr>),
      (3, \<lparr>bk_queue = [Data 3 [0]], bk_queued_bytes = 1, bk_deficit = 0, bk_idle_passes = 0\<rparr>)]"
    using d bytes default_params [of s]
    by (simp add: classify_bulk_def enqueue_bucket_def entry_bucket_def bucket_new_def Let_def)
  have "drr_take q (1048448 + 65536) = (q, [], 65408)" using drr_take_all [of q "1048448 + 65536"] bytes by simp
  then have sb: "serve_bucket 65536 \<lparr>bk_queue = q, bk_queued_bytes = 1048576, bk_deficit = 1048448, bk_idle_passes = 0\<rparr>
      = (q, \<lparr>bk_queue = [], bk_queued_bytes = 0, bk_deficit = 65408, bk_idle_passes = 0\<rparr>)"
    using bytes by (cases q) (simp_all add: serve_bucket_def)
  have sb3: "serve_bucket 65536 \<lparr>bk_queue = [Data 3 [0]], bk_queued_bytes = 1, bk_deficit = 0, bk_idle_passes = 0\<rparr>
      = ([Data 3 [0]], \<lparr>bk_queue = [], bk_queued_bytes = 0, bk_deficit = 65535, bk_idle_passes = 0\<rparr>)"
    by (simp add: serve_bucket_def)
  have own: "stream_frames 1 q = q" by (simp add: q_def stream_frames_def)
  have "\<exists>bs'. drr_pass (ls_round_budget s') (sc_buckets (ls_shared s')) = (q @ [Data 3 [0]], bs')"
    using default_params(3) [OF r] by (simp add: b sb sb3 del: One_nat_def)
  moreover have "queue_of 3 (sc_buckets (ls_shared s')) = [Data 3 [0]]" by (simp add: b queue_of_def)
  moreover have "sched_step\<^sup>*\<^sup>* si s'" unfolding s'_def using si(2) \<open>sched_step\<^sup>*\<^sup>* s1 s\<close> feed_steps [of s] d by (meson rtranclp_trans)
  ultimately show ?thesis using si(1) own bytes default_params(3) [OF r] default_params(3) [of si]
    by (intro exI [of _ si]) (auto simp: sat_out_def intro!: exI [of _ s'])
qed

end
