(* ===== verification/Capacity.thy ===== *)
theory Capacity
  imports Frame
begin

text \<open>
  Capacity model and admission control, \<^verbatim>\<open>src/infra/relay_capacity.rs\<close>. Time is in milliseconds; a call
  of the meter is one step.
\<close>

section \<open>Configuration\<close>

definition DEFAULT_MAX_NODES :: nat where "DEFAULT_MAX_NODES = 1024"
definition DEFAULT_MAX_STREAMS :: nat where "DEFAULT_MAX_STREAMS = 4096"
definition DEFAULT_MAX_THROUGHPUT_BYTES_PER_SEC :: u64 where "DEFAULT_MAX_THROUGHPUT_BYTES_PER_SEC = 64 * 1024 * 1024"

record capacity_config =
  max_nodes :: nat
  max_streams :: nat
  max_throughput_bytes_per_sec :: u64

definition default_capacity :: capacity_config where
  "default_capacity = \<lparr>max_nodes = DEFAULT_MAX_NODES, max_streams = DEFAULT_MAX_STREAMS,
     max_throughput_bytes_per_sec = DEFAULT_MAX_THROUGHPUT_BYTES_PER_SEC\<rparr>"

record relay_usage =
  registered_nodes :: nat
  active_streams :: nat
  forwarded_bytes_per_sec :: u64

section \<open>The meter\<close>

record usage_meter =
  um_bytes :: u64
  um_window_started :: nat

definition meter_new :: "nat \<Rightarrow> usage_meter" where
  "meter_new now = \<lparr>um_bytes = 0, um_window_started = now\<rparr>"

definition refresh_window :: "nat \<Rightarrow> usage_meter \<Rightarrow> usage_meter" where
  "refresh_window now m =
     (if 1000 \<le> now - um_window_started m then m\<lparr>um_window_started := now, um_bytes := 0\<rparr> else m)"

definition meter_record :: "nat \<Rightarrow> nat \<Rightarrow> usage_meter \<Rightarrow> usage_meter" where
  "meter_record now n m = (let m' = refresh_window now m in m'\<lparr>um_bytes := um_bytes m' + word_of_nat n\<rparr>)"

definition bytes_this_window :: "nat \<Rightarrow> usage_meter \<Rightarrow> u64 \<times> usage_meter" where
  "bytes_this_window now m = (let m' = refresh_window now m in (um_bytes m', m'))"

section \<open>Admission\<close>

datatype open_admission = OpenAllow | OpenStreamsFull | OpenThroughputExceeded

definition admit_open :: "capacity_config \<Rightarrow> nat \<Rightarrow> nat \<Rightarrow> usage_meter \<Rightarrow> open_admission \<times> usage_meter" where
  "admit_open capacity active now m =
     (if max_streams capacity \<le> active then (OpenStreamsFull, m)
      else let (n, m') = bytes_this_window now m
           in if max_throughput_bytes_per_sec capacity \<le> n then (OpenThroughputExceeded, m') else (OpenAllow, m'))"

definition admit_register :: "capacity_config \<Rightarrow> nat \<Rightarrow> bool" where
  "admit_register capacity nodes \<longleftrightarrow> nodes < max_nodes capacity"

section \<open>Properties\<close>

text \<open>The meter after a sequence of records, each a time and a number of bytes.\<close>

definition metered :: "nat \<Rightarrow> (nat \<times> nat) list \<Rightarrow> usage_meter" where
  "metered start evs = fold (\<lambda>(at, n). meter_record at n) evs (meter_new start)"

definition bytes_of :: "(nat \<times> nat) list \<Rightarrow> nat" where
  "bytes_of evs = sum_list (map snd evs)"

lemma metered_snoc: "metered start (evs @ [(at, n)]) = meter_record at n (metered start evs)"
  by (simp add: metered_def)

text \<open>
  The counter holds the bytes of a suffix of the records, all made since the window began; it is the whole
  sequence as long as the first window lasts.
\<close>

lemma metered_suffix:
  assumes "bytes_of evs < 2 ^ 64" "sorted (start # map fst evs)"
  shows "\<exists>pre suf. evs = pre @ suf \<and> unat (um_bytes (metered start evs)) = bytes_of suf \<and>
     um_window_started (metered start evs) \<in> set (start # map fst evs) \<and>
     (\<forall>(at, n) \<in> set suf. um_window_started (metered start evs) \<le> at) \<and>
     (list_all (\<lambda>(at, n). at < start + 1000) evs \<longrightarrow> pre = [] \<and> um_window_started (metered start evs) = start)"
  using assms
proof (induction evs rule: rev_induct)
  case Nil
  show ?case by (simp add: metered_def meter_new_def bytes_of_def)
next
  case (snoc ev evs)
  obtain at n where ev: "ev = (at, n)" by (cases ev)
  define m where "m = metered start evs"
  have small: "bytes_of evs < 2 ^ 64" "bytes_of evs + n < 2 ^ 64" using snoc.prems by (simp_all add: ev bytes_of_def)
  have srt: "sorted (start # map fst evs)" "\<forall>t \<in> set (start # map fst evs). t \<le> at"
    using snoc.prems(2) by (auto simp: ev sorted_append)
  obtain pre suf where IH: "evs = pre @ suf" "unat (um_bytes m) = bytes_of suf" "um_window_started m \<in> set (start # map fst evs)"
    "\<forall>(at, n) \<in> set suf. um_window_started m \<le> at"
    "list_all (\<lambda>(at, n). at < start + 1000) evs \<longrightarrow> pre = [] \<and> um_window_started m = start"
    using snoc.IH [OF small(1) srt(1)] unfolding m_def by blast
  have le: "bytes_of suf \<le> bytes_of evs" by (simp add: IH(1) bytes_of_def)
  have n: "unat (word_of_nat n :: u64) = n" using small(2) by (simp add: unat_of_nat)
  define m' where "m' = metered start (evs @ [ev])"
  have m': "m' = meter_record at n m" by (simp add: ev metered_snoc m_def m'_def)
  show ?case unfolding m'_def [symmetric]
  proof (cases "1000 \<le> at - um_window_started m")
    case True
    then have "unat (um_bytes m') = bytes_of [ev]" "um_window_started m' = at"
      using n by (simp_all add: m' meter_record_def refresh_window_def Let_def bytes_of_def ev)
    moreover have "\<not> list_all (\<lambda>(at, n). at < start + 1000) (evs @ [ev])" using True IH(5) by (auto simp: ev)
    ultimately show "\<exists>pre suf. evs @ [ev] = pre @ suf \<and> unat (um_bytes m') = bytes_of suf \<and>
       um_window_started m' \<in> set (start # map fst (evs @ [ev])) \<and> (\<forall>(at, n) \<in> set suf. um_window_started m' \<le> at) \<and>
       (list_all (\<lambda>(at, n). at < start + 1000) (evs @ [ev]) \<longrightarrow> pre = [] \<and> um_window_started m' = start)"
      by - (rule exI [of _ evs], rule exI [of _ "[ev]"], auto simp: ev)
  next
    case False
    then have w: "um_window_started m' = um_window_started m" and b: "um_bytes m' = um_bytes m + word_of_nat n"
      by (simp_all add: m' meter_record_def refresh_window_def Let_def)
    have "unat (um_bytes m + word_of_nat n) = bytes_of suf + n"
      using small(2) le n IH(2) by (simp add: unat_word_ariths)
    then have "unat (um_bytes m') = bytes_of (suf @ [ev])" by (simp add: b ev bytes_of_def)
    moreover have "um_window_started m \<le> at" using srt(2) IH(3) by blast
    ultimately show "\<exists>pre suf. evs @ [ev] = pre @ suf \<and> unat (um_bytes m') = bytes_of suf \<and>
       um_window_started m' \<in> set (start # map fst (evs @ [ev])) \<and> (\<forall>(at, n) \<in> set suf. um_window_started m' \<le> at) \<and>
       (list_all (\<lambda>(at, n). at < start + 1000) (evs @ [ev]) \<longrightarrow> pre = [] \<and> um_window_started m' = start)"
      using IH w by - (rule exI [of _ pre], rule exI [of _ "suf @ [ev]"], auto simp: ev)
  qed
qed

text \<open>
  C30: the throughput valve only counts recent traffic. For records made in time order, of less than \<open>2\<^sup>6\<^sup>4\<close> bytes in all,
  the count an admission sees never exceeds the bytes forwarded during the last second, and within the
  first second it is exactly all bytes forwarded; so an open is refused for throughput only when at least the
  threshold was forwarded in the last second.
\<close>

theorem meter_counts_last_second:
  assumes "bytes_of evs < 2 ^ 64" "sorted (start # map fst evs @ [now])"
  shows "unat (fst (bytes_this_window now (metered start evs))) \<le> bytes_of (filter (\<lambda>(at, n). now < at + 1000) evs) \<and>
     (now < start + 1000 \<longrightarrow> unat (fst (bytes_this_window now (metered start evs))) = bytes_of evs) \<and>
     (fst (admit_open capacity active now (metered start evs)) = OpenThroughputExceeded \<longrightarrow>
        unat (max_throughput_bytes_per_sec capacity) \<le> bytes_of (filter (\<lambda>(at, n). now < at + 1000) evs))"
proof -
  let ?recent = "\<lambda>(at, n :: nat). now < at + 1000"
  define m where "m = metered start evs"
  have srt: "sorted (start # map fst evs)" "\<forall>t \<in> set (start # map fst evs). t \<le> now"
    using assms(2) by (auto simp: sorted_append)
  obtain pre suf where sp: "evs = pre @ suf" "unat (um_bytes m) = bytes_of suf"
    "\<forall>(at, n) \<in> set suf. um_window_started m \<le> at"
    "list_all (\<lambda>(at, n). at < start + 1000) evs \<longrightarrow> pre = [] \<and> um_window_started m = start"
    using metered_suffix [OF assms(1) srt(1)] unfolding m_def by blast
  have bound: "unat (fst (bytes_this_window now m)) \<le> bytes_of (filter ?recent evs)"
  proof (cases "1000 \<le> now - um_window_started m")
    case False
    then have "filter ?recent suf = suf" using sp(3) by (intro filter_True) auto
    then have "bytes_of suf \<le> bytes_of (filter ?recent evs)" by (simp add: sp(1) bytes_of_def)
    then show ?thesis using False sp(2) by (simp add: bytes_this_window_def refresh_window_def Let_def)
  qed (simp add: bytes_this_window_def refresh_window_def Let_def)
  have "unat (fst (bytes_this_window now m)) = bytes_of evs" if "now < start + 1000"
  proof -
    have "list_all (\<lambda>(at, n). at < start + 1000) evs" using srt(2) that by (fastforce simp: list_all_iff)
    then show ?thesis using sp that by (auto simp: bytes_this_window_def refresh_window_def Let_def)
  qed
  moreover have "max_throughput_bytes_per_sec capacity \<le> fst (bytes_this_window now m)"
    if "fst (admit_open capacity active now m) = OpenThroughputExceeded"
    using that by (auto simp: admit_open_def Let_def split: if_splits prod.splits)
  ultimately show ?thesis using bound unfolding m_def [symmetric] by (auto simp: word_le_nat_alt)
qed

theorem meter_counts_last_second_witness:
  "unat (fst (bytes_this_window 600 (metered 0 [(100, 5), (500, 7)]))) = 12"
  using meter_counts_last_second [of "[(100, 5), (500, 7)]" 0 600 default_capacity 0] by (simp add: bytes_of_def)

end
