(* ===== verification/Text_Ops.thy ===== *)
theory Text_Ops
  imports Frame "HOL-Library.Sublist"
begin

text \<open>
  Text operations of the standard library that the relay uses on node ids and host labels: trimming,
  lower case, splitting at dots and the textual form of IP addresses. Lower case is the ASCII mapping on ASCII text;
  for other text it is the argument \<open>uni\<close>, which stands for the Unicode case tables.
\<close>

section \<open>Case and white space\<close>

definition is_ascii :: "string \<Rightarrow> bool" where
  "is_ascii s \<longleftrightarrow> list_all (\<lambda>c. of_char c < (128 :: nat)) s"

definition to_lowercase :: "(string \<Rightarrow> string) \<Rightarrow> string \<Rightarrow> string" where
  "to_lowercase uni s = (if is_ascii s then map ascii_lower s else uni s)"

text \<open>The characters with the property \<^verbatim>\<open>White_Space\<close>, as their UTF-8 bytes.\<close>

definition white_space :: "string list" where
  "white_space = map (map char_of)
     ([[9], [10], [11], [12], [13], [32], [0xC2, 0x85], [0xC2, 0xA0], [0xE1, 0x9A, 0x80],
       [0xE2, 0x80, 0xA8], [0xE2, 0x80, 0xA9], [0xE2, 0x80, 0xAF], [0xE2, 0x81, 0x9F], [0xE3, 0x80, 0x80]] @
      map (\<lambda>n. [0xE2, 0x80, n]) [0x80 ..< 0x8B :: nat])"

definition starts_with :: "string \<Rightarrow> string \<Rightarrow> bool" where
  "starts_with s p \<longleftrightarrow> take (length p) s = p"

function strip_front :: "string list \<Rightarrow> string \<Rightarrow> string" where
  "strip_front ws s =
     (case find (\<lambda>w. w \<noteq> [] \<and> starts_with s w) ws of
        None \<Rightarrow> s
      | Some w \<Rightarrow> strip_front ws (drop (length w) s))"
  by pat_completeness auto
termination
proof (relation "measure (length \<circ> snd)", goal_cases)
  case (2 ws s w)
  then have "w \<noteq> []" "take (length w) s = w" by (auto simp: find_Some_iff starts_with_def)
  then show ?case by (cases s) auto
qed simp

declare strip_front.simps [simp del]

definition trim :: "string \<Rightarrow> string" where
  "trim s = rev (strip_front (map rev white_space) (rev (strip_front white_space s)))"

lemma starts_with_iff: "starts_with s p \<longleftrightarrow> (\<exists>r. s = p @ r)"
  unfolding starts_with_def by (metis append_eq_conv_conj append_take_drop_id)

text \<open>White space starts and ends outside the visible ASCII characters, so trimming keeps text that begins and ends with one.\<close>

lemma white_space_ends:
  "w \<in> set white_space \<Longrightarrow>
     w \<noteq> [] \<and> (of_char (hd w) < (33 :: nat) \<or> 127 \<le> (of_char (hd w) :: nat)) \<and> (of_char (last w) < (33 :: nat) \<or> 127 \<le> (of_char (last w) :: nat))"
  by (auto simp: white_space_def)

definition graphic :: "char \<Rightarrow> bool" where
  "graphic c \<longleftrightarrow> 33 \<le> (of_char c :: nat) \<and> of_char c < (127 :: nat)"

lemma strip_front_id:
  assumes "\<And>w. w \<in> set ws \<Longrightarrow> w \<noteq> [] \<Longrightarrow> \<not> graphic (hd w)" "s \<noteq> []" "graphic (hd s)"
  shows "strip_front ws s = s"
proof -
  have "\<not> (w \<noteq> [] \<and> starts_with s w)" if "w \<in> set ws" for w
    using assms(1) [OF that] assms(2,3) by (auto simp: starts_with_iff)
  then have "find (\<lambda>w. w \<noteq> [] \<and> starts_with s w) ws = None" by (simp add: find_None_iff)
  then show ?thesis by (simp add: strip_front.simps)
qed

lemma trim_id:
  assumes "s \<noteq> []" "graphic (hd s)" "graphic (last s)"
  shows "trim s = s"
proof -
  have ws: "\<not> graphic (hd w)" "\<not> graphic (hd (rev w))" if "w \<in> set white_space" "w \<noteq> []" for w
    using white_space_ends [OF that(1)] that(2) by (auto simp: graphic_def hd_rev)
  have "strip_front white_space s = s" using ws(1) assms by (intro strip_front_id) auto
  moreover have "strip_front (map rev white_space) (rev s) = rev s" using ws(2) assms by (intro strip_front_id) (auto simp: hd_rev)
  ultimately show ?thesis by (simp add: trim_def)
qed
section \<open>Host labels at dots\<close>

fun split_dots :: "string \<Rightarrow> string list" where
  "split_dots [] = [[]]"
| "split_dots (c # s) =
     (if c = CHR ''.'' then [] # split_dots s
      else case split_dots s of [] \<Rightarrow> [[c]] | w # ws \<Rightarrow> (c # w) # ws)"

fun join_dots :: "string list \<Rightarrow> string" where
  "join_dots [] = []"
| "join_dots [w] = w"
| "join_dots (w # ws) = w @ CHR ''.'' # join_dots ws"

lemma split_dots_ne [simp]: "split_dots s \<noteq> []"
  by (cases s) (auto split: list.splits)

lemma join_dots_Cons: "ws \<noteq> [] \<Longrightarrow> join_dots (w # ws) = w @ CHR ''.'' # join_dots ws"
  by (cases ws) auto

lemma join_split [simp]: "join_dots (split_dots s) = s"
proof (induction s)
  case (Cons c s)
  obtain w ws where "split_dots s = w # ws" by (meson split_dots_ne list.exhaust)
  then show ?case using Cons by (cases ws) (auto simp: join_dots_Cons)
qed simp

lemma split_dots_append: "split_dots (s @ CHR ''.'' # t) = split_dots s @ split_dots t"
proof (induction s)
  case (Cons c s)
  obtain w ws where "split_dots s = w # ws" by (meson split_dots_ne list.exhaust)
  then show ?case using Cons by auto
qed simp

lemma join_dots_append: "us \<noteq> [] \<Longrightarrow> vs \<noteq> [] \<Longrightarrow> join_dots (us @ vs) = join_dots us @ CHR ''.'' # join_dots vs"
proof (induction us)
  case (Cons u us)
  then show ?case by (cases us) (auto simp: join_dots_Cons)
qed simp

text \<open>A host name extends another one at a dot iff its labels begin with the labels of the other.\<close>

lemma dotted_extension: "starts_with s (p @ ''.'') \<longleftrightarrow> strict_prefix (split_dots p) (split_dots s)"
proof
  assume "starts_with s (p @ ''.'')"
  then obtain r where "s = p @ CHR ''.'' # r" by (auto simp: starts_with_iff)
  then show "strict_prefix (split_dots p) (split_dots s)"
    by (simp add: split_dots_append strict_prefix_def)
next
  assume "strict_prefix (split_dots p) (split_dots s)"
  then obtain vs where vs: "split_dots s = split_dots p @ vs" "vs \<noteq> []" by (auto simp: strict_prefix_def prefix_def)
  then have "join_dots (split_dots s) = join_dots (split_dots p) @ CHR ''.'' # join_dots vs"
    by (simp add: join_dots_append)
  then show "starts_with s (p @ ''.'')" by (simp add: starts_with_iff)
qed

section \<open>IP addresses\<close>

text \<open>
  \<^verbatim>\<open>str::parse::<IpAddr>\<close> as a recogniser: each reader returns the rest of the input on success. A number has
  between one and \<open>max_digits\<close> digits, no more; a decimal octet has no leading zero and stays below 256.
\<close>

definition digit_value :: "nat \<Rightarrow> char \<Rightarrow> nat option" where
  "digit_value radix c =
     (let n = of_char c :: nat;
          v = (if 48 \<le> n \<and> n \<le> 57 then n - 48
               else if 97 \<le> n \<and> n \<le> 122 then n - 87
               else if 65 \<le> n \<and> n \<le> 90 then n - 55 else 99)
      in if v < radix then Some v else None)"

definition is_digit :: "nat \<Rightarrow> char \<Rightarrow> bool" where
  "is_digit radix c = (digit_value radix c \<noteq> None)"

definition number_value :: "nat \<Rightarrow> string \<Rightarrow> nat" where
  "number_value radix ds = foldl (\<lambda>a c. a * radix + (case digit_value radix c of Some v \<Rightarrow> v | None \<Rightarrow> 0)) 0 ds"

definition read_number :: "nat \<Rightarrow> nat \<Rightarrow> bool \<Rightarrow> nat \<Rightarrow> string \<Rightarrow> string option" where
  "read_number radix max_digits allow_zero_prefix bound s =
     (let ds = takeWhile (is_digit radix) s in
      if ds = [] \<or> max_digits < length ds \<or> bound \<le> number_value radix ds \<or>
         (\<not> allow_zero_prefix \<and> hd ds = CHR ''0'' \<and> 1 < length ds)
      then None else Some (drop (length ds) s))"

definition read_separator :: "char \<Rightarrow> nat \<Rightarrow> (string \<Rightarrow> string option) \<Rightarrow> string \<Rightarrow> string option" where
  "read_separator sep i rd s =
     (if i = 0 then rd s else case s of c # r \<Rightarrow> if c = sep then rd r else None | [] \<Rightarrow> None)"

definition read_octet :: "string \<Rightarrow> string option" where
  "read_octet = read_number 10 3 False 256"

definition read_ipv4 :: "string \<Rightarrow> string option" where
  "read_ipv4 s =
     (case read_separator CHR ''.'' 0 read_octet s of None \<Rightarrow> None | Some s \<Rightarrow>
      (case read_separator CHR ''.'' 1 read_octet s of None \<Rightarrow> None | Some s \<Rightarrow>
       (case read_separator CHR ''.'' 2 read_octet s of None \<Rightarrow> None | Some s \<Rightarrow>
        read_separator CHR ''.'' 3 read_octet s)))"

text \<open>\<^verbatim>\<open>read_groups\<close>: the number of groups read, whether it ended in an IPv4 tail, and the rest.\<close>

fun read_groups :: "nat \<Rightarrow> nat \<Rightarrow> nat \<Rightarrow> string \<Rightarrow> nat \<times> bool \<times> string" where
  "read_groups 0 limit i s = (limit, False, s)"
| "read_groups (Suc n) limit i s =
     (case (if i + 1 < limit then read_separator CHR '':'' i read_ipv4 s else None) of
        Some r \<Rightarrow> (i + 2, True, r)
      | None \<Rightarrow>
          (case read_separator CHR '':'' i (read_number 16 4 True 65536) s of
             Some r \<Rightarrow> read_groups n limit (i + 1) r
           | None \<Rightarrow> (i, False, s)))"

definition read_ipv6 :: "string \<Rightarrow> string option" where
  "read_ipv6 s =
     (case read_groups 8 8 0 s of
        (head_size, head_ipv4, r) \<Rightarrow>
          if head_size = 8 then Some r
          else if head_ipv4 then None
          else if \<not> starts_with r ''::'' then None
          else let limit = 8 - (head_size + 1) in
               (case read_groups limit limit 0 (drop 2 r) of (_, _, r') \<Rightarrow> Some r'))"

definition parses_ip :: "string \<Rightarrow> bool" where
  "parses_ip s = (read_ipv4 s = Some [] \<or> (read_ipv4 s = None \<and> read_ipv6 s = Some []))"

lemma read_groups_numeral [simp]:
  "read_groups (numeral k) limit i s =
     (case (if i + 1 < limit then read_separator CHR '':'' i read_ipv4 s else None) of
        Some r \<Rightarrow> (i + 2, True, r)
      | None \<Rightarrow>
          (case read_separator CHR '':'' i (read_number 16 4 True 65536) s of
             Some r \<Rightarrow> read_groups (pred_numeral k) limit (i + 1) r
           | None \<Rightarrow> (i, False, s)))"
  by (simp add: numeral_eq_Suc)

lemmas parses_ip_simps = parses_ip_def read_ipv4_def read_ipv6_def read_octet_def read_separator_def read_number_def
  is_digit_def digit_value_def number_value_def Let_def starts_with_def

lemma parses_ip_examples:
  "parses_ip ''192.168.1.5''" "parses_ip ''::1''" "parses_ip ''fe80::1''" "\<not> parses_ip ''nas.local''" "\<not> parses_ip ''010.1.1.1''"
  by (simp_all add: parses_ip_simps)

end
