(* ===== verification/Routing.thy ===== *)
theory Routing
  imports Frame
begin

text \<open>
  Relay stream routing, \<^verbatim>\<open>src/infra/relay_routing.rs\<close>: the error codes of the relay protocol and the table of
  route legs, two per routed stream. A handle to a link's egress (\<^verbatim>\<open>SchedulerIngress\<close>) is the number of the
  link.
\<close>

section \<open>Error codes\<close>

datatype relay_error_code =
    TargetUnknown | StreamUnknown | StreamClosedCode | NodeCapacity | StreamCapacity | ThroughputExceeded
  | TokenInvalid | TokenExpired | NodeRevoked | HeartbeatLost | QuotaExceeded

definition ALL_CODES :: "relay_error_code list" where
  "ALL_CODES = [TargetUnknown, StreamUnknown, StreamClosedCode, NodeCapacity, StreamCapacity, ThroughputExceeded,
     TokenInvalid, TokenExpired, NodeRevoked, HeartbeatLost, QuotaExceeded]"

fun code_wire_value :: "relay_error_code \<Rightarrow> u16" where
  "code_wire_value TargetUnknown = 0x0001"
| "code_wire_value StreamUnknown = 0x0002"
| "code_wire_value StreamClosedCode = 0x0003"
| "code_wire_value NodeCapacity = 0x0004"
| "code_wire_value StreamCapacity = 0x0005"
| "code_wire_value ThroughputExceeded = 0x0006"
| "code_wire_value TokenInvalid = 0x0007"
| "code_wire_value TokenExpired = 0x0008"
| "code_wire_value NodeRevoked = 0x0009"
| "code_wire_value HeartbeatLost = 0x000a"
| "code_wire_value QuotaExceeded = 0x000b"

definition code_from_wire :: "u16 \<Rightarrow> relay_error_code option" where
  "code_from_wire code = find (\<lambda>assigned. code_wire_value assigned = code) ALL_CODES"

fun code_message :: "relay_error_code \<Rightarrow> string" where
  "code_message TargetUnknown = ''target node is unknown or offline''"
| "code_message StreamUnknown = ''stream is unknown on this link''"
| "code_message StreamClosedCode = ''stream direction is already closed''"
| "code_message NodeCapacity = ''relay node capacity reached''"
| "code_message StreamCapacity = ''relay stream capacity reached''"
| "code_message ThroughputExceeded = ''relay throughput limit exceeded''"
| "code_message TokenInvalid = ''enrollment token is invalid or already used''"
| "code_message TokenExpired = ''enrollment token has expired''"
| "code_message NodeRevoked = ''node access revoked by the relay operator''"
| "code_message HeartbeatLost = ''relay heartbeat timed out; the link was evicted''"
| "code_message QuotaExceeded = ''quota exceeded''"

lemma code_round_trip [simp]: "code_from_wire (code_wire_value c) = Some c"
  by (cases c) (simp_all add: code_from_wire_def ALL_CODES_def)

lemma code_from_wire_Some: "code_from_wire w = Some c \<longleftrightarrow> w = code_wire_value c"
proof
  assume "code_from_wire w = Some c"
  then show "w = code_wire_value c" by (auto simp: code_from_wire_def find_Some_iff)
qed simp

section \<open>The table\<close>

type_synonym ingress = nat

record route_key =
  rk_connection :: u64
  rk_stream :: u32

record route_leg =
  leg_peer :: route_key
  leg_outbound :: ingress
  leg_closed :: bool

datatype route_lookup_result = LookupOpen route_leg | LookupClosed | LookupUnknown

datatype close_outcome = CloseForward route_leg | CloseSwallow | CloseUnknown

type_synonym routing_table = "(route_key \<times> route_leg) list"

definition route_open :: "route_key \<Rightarrow> u64 \<Rightarrow> u32 \<Rightarrow> ingress \<Rightarrow> ingress \<Rightarrow> routing_table \<Rightarrow> route_leg \<times> routing_table" where
  "route_open from target_connection target_stream target_outbound from_outbound legs =
     (let to = \<lparr>rk_connection = target_connection, rk_stream = target_stream\<rparr>;
          forward = \<lparr>leg_peer = to, leg_outbound = target_outbound, leg_closed = False\<rparr>;
          backward = \<lparr>leg_peer = from, leg_outbound = from_outbound, leg_closed = False\<rparr>
      in (forward, AList.update to backward (AList.update from forward legs)))"

definition route_lookup :: "route_key \<Rightarrow> routing_table \<Rightarrow> route_lookup_result" where
  "route_lookup key legs =
     (case map_of legs key of
        Some leg \<Rightarrow> if leg_closed leg then LookupClosed else LookupOpen leg
      | None \<Rightarrow> LookupUnknown)"

definition close_leg :: "route_key \<Rightarrow> routing_table \<Rightarrow> close_outcome \<times> routing_table" where
  "close_leg key legs =
     (case map_of legs key of
        None \<Rightarrow> (CloseUnknown, legs)
      | Some leg \<Rightarrow>
          if leg_closed leg then (CloseSwallow, legs)
          else
            let forward = leg\<lparr>leg_closed := True\<rparr>;
                legs1 = AList.update key forward legs;
                peer_closed = (case map_of legs1 (leg_peer leg) of Some peer \<Rightarrow> leg_closed peer | None \<Rightarrow> True)
            in (CloseForward forward,
                if peer_closed then AList.delete (leg_peer leg) (AList.delete key legs1) else legs1))"

definition teardown_pair :: "route_key \<Rightarrow> routing_table \<Rightarrow> route_leg option \<times> routing_table" where
  "teardown_pair key legs =
     (case map_of legs key of
        None \<Rightarrow> (None, legs)
      | Some leg \<Rightarrow> (Some leg, AList.delete (leg_peer leg) (AList.delete key legs)))"

definition stream_count :: "routing_table \<Rightarrow> nat" where
  "stream_count legs = length legs div 2"

fun teardown_keys :: "route_key list \<Rightarrow> routing_table \<Rightarrow> (ingress \<times> u32) list \<times> routing_table" where
  "teardown_keys [] legs = ([], legs)"
| "teardown_keys (key # keys) legs =
     (case map_of legs key of
        None \<Rightarrow> teardown_keys keys legs
      | Some leg \<Rightarrow>
          (case teardown_keys keys (AList.delete (leg_peer leg) (AList.delete key legs)) of
             (peers, legs') \<Rightarrow> ((leg_outbound leg, rk_stream (leg_peer leg)) # peers, legs')))"

definition teardown_connection :: "u64 \<Rightarrow> routing_table \<Rightarrow> (ingress \<times> u32) list \<times> routing_table" where
  "teardown_connection connection_id legs =
     teardown_keys (filter (\<lambda>key. rk_connection key = connection_id) (map fst legs)) legs"

section \<open>Pairing\<close>

text \<open>
  The legs come in pairs: the peer of a leg has a leg mir, at least one of the two is open, and no stream
  is routed to itself.
\<close>

definition paired :: "routing_table \<Rightarrow> bool" where
  "paired legs \<longleftrightarrow>
     keys_distinct legs \<and>
     (\<forall>k leg. map_of legs k = Some leg \<longrightarrow>
        leg_peer leg \<noteq> k \<and>
        (\<exists>mir. map_of legs (leg_peer leg) = Some mir \<and> leg_peer mir = k \<and> \<not> (leg_closed leg \<and> leg_closed mir)))"

lemma key_eta [simp]: "\<lparr>rk_connection = rk_connection k, rk_stream = rk_stream k\<rparr> = (k :: route_key)"
  by (cases k) simp

lemma paired_empty: "paired []"
  by (simp add: paired_def)

lemma pairedD:
  assumes "paired legs" "map_of legs k = Some leg"
  obtains mir where "map_of legs (leg_peer leg) = Some mir" "leg_peer mir = k" "leg_peer leg \<noteq> k"
    "\<not> (leg_closed leg \<and> leg_closed mir)"
  using assms unfolding paired_def by blast

lemma paired_peer_some: "paired legs \<Longrightarrow> map_of legs k = Some leg \<Longrightarrow> map_of legs (leg_peer leg) \<noteq> None"
  by (auto elim: pairedD)

lemma paired_peer_unique:
  assumes "paired legs" "map_of legs k = Some leg" "map_of legs k' = Some leg'" "leg_peer leg' = leg_peer leg"
  shows "k' = k"
  using assms by (metis option.inject pairedD)

text \<open>Removing a leg and its peer keeps the other pairs.\<close>

lemma paired_delete:
  assumes p: "paired legs" and k: "map_of legs k = Some leg"
  shows "paired (AList.delete (leg_peer leg) (AList.delete k legs))"
proof -
  let ?d = "AList.delete (leg_peer leg) (AList.delete k legs)"
  have map: "map_of ?d = (map_of legs)(k := None, leg_peer leg := None)" by simp
  have "leg_peer l \<noteq> q \<and> (\<exists>mir. map_of ?d (leg_peer l) = Some mir \<and> leg_peer mir = q \<and> \<not> (leg_closed l \<and> leg_closed mir))"
    if q: "map_of ?d q = Some l" for q l
  proof -
    have ql: "map_of legs q = Some l" "q \<noteq> k" "q \<noteq> leg_peer leg" using q unfolding map by (auto split: if_splits)
    obtain mir where b: "map_of legs (leg_peer l) = Some mir" "leg_peer mir = q" "leg_peer l \<noteq> q"
      "\<not> (leg_closed l \<and> leg_closed mir)"
      using pairedD [OF p ql(1)] .
    have "leg_peer l \<noteq> k" using b(1,2) k ql(3) by auto
    moreover have "leg_peer l \<noteq> leg_peer leg" using paired_peer_unique [OF p k ql(1)] ql(2) by auto
    ultimately show ?thesis unfolding map using b by simp
  qed
  moreover have "keys_distinct ?d" using p by (simp add: paired_def)
  ultimately show ?thesis unfolding paired_def by blast
qed

lemma paired_open:
  assumes p: "paired legs" and fresh: "map_of legs from = None" "map_of legs to = None" "from \<noteq> to"
    and op: "route_open from (rk_connection to) (rk_stream to) out back_out legs = (forward, legs')"
  shows "paired legs'"
proof -
  define f where "f = \<lparr>leg_peer = to, leg_outbound = out, leg_closed = False\<rparr>"
  define b where "b = \<lparr>leg_peer = from, leg_outbound = back_out, leg_closed = False\<rparr>"
  have legs': "legs' = AList.update to b (AList.update from f legs)"
    using arg_cong [OF op, of snd] by (simp add: route_open_def Let_def f_def b_def)
  have map: "map_of legs' = (map_of legs)(from \<mapsto> f, to \<mapsto> b)" by (simp add: legs')
  have "leg_peer l \<noteq> q \<and> (\<exists>mir. map_of legs' (leg_peer l) = Some mir \<and> leg_peer mir = q \<and> \<not> (leg_closed l \<and> leg_closed mir))"
    if q: "map_of legs' q = Some l" for q l
  proof -
    consider "q = to" "l = b" | "q = from" "l = f" | "map_of legs q = Some l" "q \<noteq> to" "q \<noteq> from"
      using q unfolding map fun_upd_apply by (metis option.inject)
    then show ?thesis
    proof cases
      case 3
      obtain mir where bk: "map_of legs (leg_peer l) = Some mir" "leg_peer mir = q" "leg_peer l \<noteq> q"
        "\<not> (leg_closed l \<and> leg_closed mir)"
        using pairedD [OF p 3(1)] .
      then have "leg_peer l \<noteq> from" "leg_peer l \<noteq> to" using fresh by auto
      then show ?thesis unfolding map using bk by simp
    next
      case 1
      then show ?thesis using fresh(3) by (simp add: map f_def b_def)
    next
      case 2
      then show ?thesis using fresh(3) by (simp add: map f_def b_def)
    qed
  qed
  moreover have "keys_distinct legs'" using p by (simp add: legs' paired_def)
  ultimately show ?thesis unfolding paired_def by blast
qed

lemma paired_cong:
  assumes "keys_distinct legs'" "map_of legs' = map_of legs" "paired legs"
  shows "paired legs'"
  using assms(1,3) unfolding paired_def assms(2) by blast

lemma paired_close:
  assumes p: "paired legs" and c: "close_leg key legs = (outcome, legs')"
  shows "paired legs'"
proof (cases "map_of legs key")
  case None
  then show ?thesis using p c by (simp add: close_leg_def)
next
  case (Some leg)
  obtain mir where m: "map_of legs (leg_peer leg) = Some mir" "leg_peer mir = key" "leg_peer leg \<noteq> key"
    "\<not> (leg_closed leg \<and> leg_closed mir)"
    using pairedD [OF p Some] .
  show ?thesis
  proof (cases "leg_closed leg")
    case True
    then show ?thesis using p c Some by (simp add: close_leg_def)
  next
    case open': False
    define fwd where "fwd = leg\<lparr>leg_closed := True\<rparr>"
    have legs': "legs' = (if leg_closed mir then AList.delete (leg_peer leg) (AList.delete key (AList.update key fwd legs))
                          else AList.update key fwd legs)"
      using c Some m open' by (auto simp: close_leg_def Let_def fwd_def)
    have dist: "keys_distinct legs" using p by (simp add: paired_def)
    show ?thesis
    proof (cases "leg_closed mir")
      case True
      have "map_of legs' = map_of (AList.delete (leg_peer leg) (AList.delete key legs))"
        using True by (simp add: legs')
      then show ?thesis using paired_cong [OF _ _ paired_delete [OF p Some]] dist True by (simp add: legs')
    next
      case False
      have map: "map_of legs' = (map_of legs)(key \<mapsto> fwd)" using False by (simp add: legs')
      have "leg_peer l \<noteq> q \<and> (\<exists>b. map_of legs' (leg_peer l) = Some b \<and> leg_peer b = q \<and> \<not> (leg_closed l \<and> leg_closed b))"
        if q: "map_of legs' q = Some l" for q l
      proof (cases "q = key")
        case True
        then have "l = fwd" using q by (simp add: map)
        then show ?thesis using True m False by (simp add: map fwd_def)
      next
        case other: False
        then have ql: "map_of legs q = Some l" using q by (simp add: map)
        obtain b where b: "map_of legs (leg_peer l) = Some b" "leg_peer b = q" "leg_peer l \<noteq> q" "\<not> (leg_closed l \<and> leg_closed b)"
          using pairedD [OF p ql] .
        show ?thesis
        proof (cases "leg_peer l = key")
          case True
          then have "q = leg_peer leg" "l = mir" using b(1,2) Some m ql by auto
          then show ?thesis using True m False other by (simp add: map fwd_def)
        next
          case False
          then show ?thesis using b by (simp add: map)
        qed
      qed
      moreover have "keys_distinct legs'" using dist False by (simp add: legs')
      ultimately show ?thesis unfolding paired_def by blast
    qed
  qed
qed

lemma paired_teardown_pair: "paired legs \<Longrightarrow> teardown_pair key legs = (r, legs') \<Longrightarrow> paired legs'"
  using paired_delete by (auto simp: teardown_pair_def split: option.splits)

lemma length_delete:
  "keys_distinct m \<Longrightarrow> map_of m k = Some v \<Longrightarrow> length m = Suc (length (AList.delete k m))"
proof (induction m)
  case (Cons p m)
  obtain a b where p: "p = (a, b)" by (cases p)
  show ?case
  proof (cases "a = k")
    case True
    then have "k \<notin> fst ` set m" using Cons.prems p by auto
    then show ?thesis using True by (simp add: p delete_id)
  next
    case False
    then show ?thesis using Cons by (simp add: p)
  qed
qed simp

lemma length_delete_pair:
  assumes p: "paired legs" and k: "map_of legs k = Some leg"
  shows "length legs = Suc (Suc (length (AList.delete (leg_peer leg) (AList.delete k legs))))"
proof -
  have d: "keys_distinct legs" using p by (simp add: paired_def)
  obtain mir where "map_of legs (leg_peer leg) = Some mir" "leg_peer leg \<noteq> k" using pairedD [OF p k] .
  then have "map_of (AList.delete k legs) (leg_peer leg) = Some mir" by simp
  then show ?thesis using length_delete [OF d k] length_delete [of "AList.delete k legs"] d by simp
qed

text \<open>Tearing down a list of legs: each pair it touches goes, with one notice.\<close>

lemma teardown_keys_spec:
  assumes "paired legs" "teardown_keys keys legs = (peers, legs')"
  shows "paired legs' \<and>
     map_of legs' = (\<lambda>q. if q \<in> set keys \<or> (\<exists>leg. map_of legs q = Some leg \<and> leg_peer leg \<in> set keys) then None else map_of legs q) \<and>
     (\<forall>k leg. k \<in> set keys \<longrightarrow> map_of legs k = Some leg \<longrightarrow> leg_peer leg \<notin> set keys \<longrightarrow>
        (leg_outbound leg, rk_stream (leg_peer leg)) \<in> set peers) \<and>
     length legs = length legs' + 2 * length peers"
  using assms
proof (induction keys legs arbitrary: peers rule: teardown_keys.induct)
  case (1 legs)
  then show ?case by auto
next
  case (2 key keys legs)
  show ?case
  proof (cases "map_of legs key")
    case None
    have absent: "leg_peer leg \<noteq> key" if "map_of legs q = Some leg" for q leg
      using paired_peer_some [OF "2.prems"(1) that] None by auto
    have IH: "paired legs'"
      "map_of legs' = (\<lambda>q. if q \<in> set keys \<or> (\<exists>leg. map_of legs q = Some leg \<and> leg_peer leg \<in> set keys) then None else map_of legs q)"
      "\<forall>k leg. k \<in> set keys \<longrightarrow> map_of legs k = Some leg \<longrightarrow> leg_peer leg \<notin> set keys \<longrightarrow> (leg_outbound leg, rk_stream (leg_peer leg)) \<in> set peers"
      "length legs = length legs' + 2 * length peers"
      using "2.IH"(1) [OF None "2.prems"(1)] "2.prems"(2) None by auto
    have "map_of legs' = (\<lambda>q. if q \<in> set (key # keys) \<or> (\<exists>leg. map_of legs q = Some leg \<and> leg_peer leg \<in> set (key # keys)) then None else map_of legs q)"
    proof (rule ext)
      fix q
      show "map_of legs' q = (if q \<in> set (key # keys) \<or> (\<exists>leg. map_of legs q = Some leg \<and> leg_peer leg \<in> set (key # keys)) then None else map_of legs q)"
        unfolding IH(2) using None absent [of q] by (cases "map_of legs q") auto
    qed
    then show ?thesis using IH(1,3,4) None by simp
  next
    case (Some leg)
    define rest where "rest = AList.delete (leg_peer leg) (AList.delete key legs)"
    obtain mir where m: "map_of legs (leg_peer leg) = Some mir" "leg_peer mir = key" "leg_peer leg \<noteq> key"
      using pairedD [OF "2.prems"(1) Some] .
    obtain ps where ps: "teardown_keys keys rest = (ps, legs')" "peers = (leg_outbound leg, rk_stream (leg_peer leg)) # ps"
      using "2.prems"(2) Some by (auto simp: rest_def split: prod.splits)
    have pr: "paired rest" unfolding rest_def by (rule paired_delete [OF "2.prems"(1) Some])
    have IH: "paired legs'"
      "map_of legs' = (\<lambda>q. if q \<in> set keys \<or> (\<exists>leg. map_of rest q = Some leg \<and> leg_peer leg \<in> set keys) then None else map_of rest q)"
      "\<And>k l. k \<in> set keys \<Longrightarrow> map_of rest k = Some l \<Longrightarrow> leg_peer l \<notin> set keys \<Longrightarrow> (leg_outbound l, rk_stream (leg_peer l)) \<in> set ps"
      "length rest = length legs' + 2 * length ps"
      using "2.IH"(2) [OF Some, folded rest_def, OF pr ps(1)] by blast+
    have map: "map_of rest = (map_of legs)(key := None, leg_peer leg := None)" by (simp add: rest_def)
    have peer: "q = leg_peer leg \<longleftrightarrow> leg_peer l = key" if ql: "map_of legs q = Some l" for q l
    proof -
      obtain b where "map_of legs (leg_peer l) = Some b" "leg_peer b = q" using pairedD [OF "2.prems"(1) ql] .
      then show ?thesis using ql m(1,2) Some by auto
    qed
    have "map_of legs' = (\<lambda>q. if q \<in> set (key # keys) \<or> (\<exists>l. map_of legs q = Some l \<and> leg_peer l \<in> set (key # keys)) then None else map_of legs q)"
    proof (rule ext)
      fix q
      show "map_of legs' q = (if q \<in> set (key # keys) \<or> (\<exists>l. map_of legs q = Some l \<and> leg_peer l \<in> set (key # keys)) then None else map_of legs q)"
      proof (cases "q = key \<or> q = leg_peer leg")
        case True
        then show ?thesis unfolding IH(2) map using m(1,2) by auto
      next
        case False
        then show ?thesis unfolding IH(2) map using peer [of q] by (cases "map_of legs q") auto
      qed
    qed
    moreover have "(leg_outbound l, rk_stream (leg_peer l)) \<in> set peers"
      if "k \<in> set (key # keys)" "map_of legs k = Some l" "leg_peer l \<notin> set (key # keys)" for k l
    proof (cases "k = key")
      case True
      then show ?thesis using that Some ps(2) by simp
    next
      case False
      then have "map_of rest k = Some l" using that peer [OF that(2)] by (auto simp: map)
      then show ?thesis using IH(3) False that ps(2) by simp
    qed
    moreover have "length legs = length legs' + 2 * length peers"
      using length_delete_pair [OF "2.prems"(1) Some] IH(4) ps(2) by (simp add: rest_def)
    ultimately show ?thesis using IH(1) by blast
  qed
qed

lemma teardown_connection_paired:
  "paired legs \<Longrightarrow> teardown_connection c legs = (peers, legs') \<Longrightarrow> paired legs'"
  using teardown_keys_spec by (auto simp: teardown_connection_def)

lemma paired_even:
  assumes "paired legs"
  shows "2 * stream_count legs = length legs"
proof -
  obtain peers legs' where t: "teardown_keys (map fst legs) legs = (peers, legs')" by (cases "teardown_keys (map fst legs) legs")
  have "map_of legs' q = None" for q
    using teardown_keys_spec [OF assms t] by (auto simp: map_of_eq_None_iff)
  from this [of "fst (hd legs')"] have "legs' = []" by (cases legs') auto
  then show ?thesis using teardown_keys_spec [OF assms t] by (simp add: stream_count_def)
qed

section \<open>Properties\<close>

text \<open>The operations of the table; an open uses two endpoints that have no leg.\<close>

inductive route_reach :: "routing_table \<Rightarrow> bool" where
  fresh: "route_reach []"
| opened: "route_reach legs \<Longrightarrow> map_of legs from = None \<Longrightarrow> map_of legs to = None \<Longrightarrow> from \<noteq> to
    \<Longrightarrow> route_reach (snd (route_open from (rk_connection to) (rk_stream to) out back_out legs))"
| half_closed: "route_reach legs \<Longrightarrow> route_reach (snd (close_leg key legs))"
| torn: "route_reach legs \<Longrightarrow> route_reach (snd (teardown_pair key legs))"
| dropped: "route_reach legs \<Longrightarrow> route_reach (snd (teardown_connection c legs))"

lemma route_reach_paired: "route_reach legs \<Longrightarrow> paired legs"
proof (induction rule: route_reach.induct)
  case fresh
  show ?case by (rule paired_empty)
next
  case (opened legs src dst out back_out)
  show ?case by (rule paired_open [OF opened.IH opened.hyps(2-4) surjective_pairing])
next
  case (half_closed legs key)
  show ?case by (rule paired_close [OF half_closed.IH surjective_pairing])
next
  case (torn legs key)
  show ?case by (rule paired_teardown_pair [OF torn.IH surjective_pairing])
next
  case (dropped legs c)
  show ?case by (rule teardown_connection_paired [OF dropped.IH surjective_pairing])
qed

text \<open>
  Any sequence of operations, opens that reuse an endpoint included; in a clean one every open finds two different endpoints
  that have no leg.
\<close>

datatype table_op =
    OpOpen route_key route_key ingress ingress | OpHalfClose route_key | OpTeardown route_key | OpDrop u64

fun table_step :: "table_op \<Rightarrow> routing_table \<Rightarrow> routing_table" where
  "table_step (OpOpen src dst out back_out) legs = snd (route_open src (rk_connection dst) (rk_stream dst) out back_out legs)"
| "table_step (OpHalfClose k) legs = snd (close_leg k legs)"
| "table_step (OpTeardown k) legs = snd (teardown_pair k legs)"
| "table_step (OpDrop c) legs = snd (teardown_connection c legs)"

definition table_ops :: "table_op list \<Rightarrow> routing_table" where
  "table_ops ops = fold table_step ops []"

fun clean_op :: "table_op \<Rightarrow> routing_table \<Rightarrow> bool" where
  "clean_op (OpOpen src dst out back_out) legs \<longleftrightarrow> map_of legs src = None \<and> map_of legs dst = None \<and> src \<noteq> dst"
| "clean_op _ legs \<longleftrightarrow> True"

fun clean_from :: "table_op list \<Rightarrow> routing_table \<Rightarrow> bool" where
  "clean_from [] legs \<longleftrightarrow> True"
| "clean_from (op # ops) legs \<longleftrightarrow> clean_op op legs \<and> clean_from ops (table_step op legs)"

definition clean_ops :: "table_op list \<Rightarrow> bool" where
  "clean_ops ops \<longleftrightarrow> clean_from ops []"

lemma clean_step: "route_reach legs \<Longrightarrow> clean_op op legs \<Longrightarrow> route_reach (table_step op legs)"
  by (cases op) (simp_all add: route_reach.intros)

lemma clean_reach: "clean_ops ops \<Longrightarrow> route_reach (table_ops ops)"
proof -
  have "clean_from ops legs \<Longrightarrow> route_reach legs \<Longrightarrow> route_reach (fold table_step ops legs)" for legs
    by (induction ops arbitrary: legs) (auto intro: clean_step)
  then show "clean_ops ops \<Longrightarrow> route_reach (table_ops ops)"
    by (simp add: clean_ops_def table_ops_def route_reach.fresh)
qed

text \<open>What a teardown does whatever the table is.\<close>

lemma teardown_keys_distinct: "keys_distinct legs \<Longrightarrow> keys_distinct (snd (teardown_keys ks legs))"
  by (induction ks legs rule: teardown_keys.induct) (auto simp: case_prod_beta simp del: map_of_eq_Some_iff split: option.splits)

lemma teardown_keys_sub: "map_of (snd (teardown_keys ks legs)) q = Some l \<Longrightarrow> map_of legs q = Some l"
  by (induction ks legs rule: teardown_keys.induct) (auto split: option.splits prod.splits if_splits)

lemma teardown_keys_none: "map_of legs q = None \<Longrightarrow> map_of (snd (teardown_keys ks legs)) q = None"
  using teardown_keys_sub [of ks legs q] by (cases "map_of (snd (teardown_keys ks legs)) q") auto

lemma teardown_keys_gone: "k \<in> set ks \<Longrightarrow> map_of (snd (teardown_keys ks legs)) k = None"
proof (induction ks legs rule: teardown_keys.induct)
  case (2 key keys legs)
  show ?case
  proof (cases "k = key")
    case True
    have "map_of legs k = Some leg \<Longrightarrow> map_of (snd (teardown_keys keys (AList.delete (leg_peer leg) (AList.delete k legs)))) k = None" for leg
      by (rule teardown_keys_none) simp
    then show ?thesis using True by (auto intro: teardown_keys_none split: option.splits prod.splits)
  next
    case False
    then show ?thesis using 2 by (auto split: option.splits prod.splits)
  qed
qed simp

lemma teardown_keys_kept:
  "q \<notin> set ks \<Longrightarrow> (\<And>k leg. k \<in> set ks \<Longrightarrow> map_of legs k = Some leg \<Longrightarrow> leg_peer leg \<noteq> q)
    \<Longrightarrow> map_of (snd (teardown_keys ks legs)) q = map_of legs q"
proof (induction ks legs rule: teardown_keys.induct)
  case (2 key keys legs)
  show ?case
  proof (cases "map_of legs key")
    case None
    then show ?thesis using "2.IH"(1) [OF None] "2.prems" by auto
  next
    case (Some leg)
    let ?d = "AList.delete (leg_peer leg) (AList.delete key legs)"
    have "leg_peer l \<noteq> q" if "k \<in> set keys" "map_of ?d k = Some l" for k l
      using "2.prems"(2) [of k l] that by (auto split: if_splits)
    then have "map_of (snd (teardown_keys keys ?d)) q = map_of ?d q" using "2.IH"(2) [OF Some] "2.prems"(1) by auto
    moreover have "q \<noteq> leg_peer leg" "q \<noteq> key" using "2.prems"(2) [of key leg] "2.prems"(1) Some by auto
    ultimately show ?thesis using Some by (simp add: case_prod_beta)
  qed
qed simp

lemma teardown_keys_notice:
  "k \<in> set ks \<Longrightarrow> map_of legs k = Some leg \<Longrightarrow> (\<And>j l. j \<in> set ks \<Longrightarrow> map_of legs j = Some l \<Longrightarrow> leg_peer l = k \<Longrightarrow> j = k)
    \<Longrightarrow> map_of (snd (teardown_keys ks legs)) (leg_peer leg) = None \<and>
        (leg_outbound leg, rk_stream (leg_peer leg)) \<in> set (fst (teardown_keys ks legs))"
proof (induction ks legs rule: teardown_keys.induct)
  case (2 key keys legs)
  show ?case
  proof (cases "map_of legs key")
    case None
    then show ?thesis using 2 by auto
  next
    case (Some l)
    let ?d = "AList.delete (leg_peer l) (AList.delete key legs)"
    have cut: "map_of (snd (teardown_keys keys ?d)) (leg_peer l) = None" by (rule teardown_keys_none) simp
    show ?thesis
    proof (cases "k = key")
      case True
      then show ?thesis using Some "2.prems"(2) cut by (auto split: prod.splits)
    next
      case False
      then have k: "k \<in> set keys" "leg_peer l \<noteq> k" using "2.prems"(1,3) Some by auto
      then have "map_of ?d k = Some leg" using "2.prems"(2) False by auto
      moreover have "j = k" if "j \<in> set keys" "map_of ?d j = Some m" "leg_peer m = k" for j m
        using "2.prems"(3) [of j m] that by (auto split: if_splits)
      ultimately show ?thesis using "2.IH"(2) [OF Some k(1)] Some by (auto split: prod.splits)
    qed
  qed
qed simp

lemma table_ops_distinct: "keys_distinct (table_ops ops)"
proof -
  have "keys_distinct legs \<Longrightarrow> keys_distinct (table_step op legs)" for op legs
    by (cases op) (auto simp: route_open_def close_leg_def teardown_pair_def teardown_connection_def teardown_keys_distinct
      Let_def split: option.splits)
  then have "keys_distinct legs \<Longrightarrow> keys_distinct (fold table_step ops legs)" for legs
    by (induction ops arbitrary: legs) auto
  then show ?thesis by (simp add: table_ops_def)
qed

lemma conj_under: "A \<and> B \<and> C \<and> D \<Longrightarrow> (P \<Longrightarrow> E) \<Longrightarrow> A \<and> B \<and> C \<and> D \<and> (P \<longrightarrow> E)"
  by blast

lemma teardown_connection_any:
  assumes "teardown_connection c legs = (peers, legs')"
  shows "(\<forall>q. rk_connection q = c \<longrightarrow> map_of legs' q = None) \<and>
     (\<forall>q leg. map_of legs' q = Some leg \<longrightarrow> map_of legs q = Some leg) \<and>
     (\<forall>q. rk_connection q \<noteq> c \<and> (\<forall>k leg. map_of legs k = Some leg \<and> rk_connection k = c \<longrightarrow> leg_peer leg \<noteq> q) \<longrightarrow>
        map_of legs' q = map_of legs q) \<and>
     (\<forall>k leg. map_of legs k = Some leg \<and> rk_connection k = c \<and>
        (\<forall>j l. map_of legs j = Some l \<and> rk_connection j = c \<and> leg_peer l = k \<longrightarrow> j = k) \<longrightarrow>
        map_of legs' (leg_peer leg) = None \<and> (leg_outbound leg, rk_stream (leg_peer leg)) \<in> set peers)"
proof -
  define keys where "keys = filter (\<lambda>key. rk_connection key = c) (map fst legs)"
  have t: "fst (teardown_keys keys legs) = peers" "snd (teardown_keys keys legs) = legs'"
    using assms by (simp_all add: teardown_connection_def keys_def)
  have mem: "k \<in> set keys \<longleftrightarrow> rk_connection k = c" if "map_of legs k = Some leg" for k leg
    using that by (force simp: keys_def dest: map_of_SomeD)
  have on: "rk_connection k = c" if "k \<in> set keys" for k using that by (auto simp: keys_def)
  have "map_of legs' q = None" if "rk_connection q = c" for q
    using that mem [of q] teardown_keys_gone [of q keys legs] teardown_keys_none [of legs q keys] t
    by (cases "map_of legs q") auto
  moreover have "map_of legs q = Some leg" if "map_of legs' q = Some leg" for q leg
    using that teardown_keys_sub t(2) by blast
  moreover have "map_of legs' q = map_of legs q"
    if "rk_connection q \<noteq> c" "\<And>k leg. map_of legs k = Some leg \<and> rk_connection k = c \<Longrightarrow> leg_peer leg \<noteq> q" for q
    using teardown_keys_kept [of q keys legs] on that t(2) by blast
  moreover have "map_of legs' (leg_peer leg) = None \<and> (leg_outbound leg, rk_stream (leg_peer leg)) \<in> set peers"
    if "map_of legs k = Some leg" "rk_connection k = c"
      "\<And>j l. map_of legs j = Some l \<and> rk_connection j = c \<and> leg_peer l = k \<Longrightarrow> j = k" for k leg
    using teardown_keys_notice [of k keys legs leg, unfolded t] mem [OF that(1)] on that by blast
  ultimately show ?thesis by blast
qed

lemma teardown_connection_clean:
  assumes "route_reach legs" "teardown_connection c legs = (peers, legs')"
  shows "(\<forall>q. map_of legs' q =
       (if rk_connection q = c \<or> (\<exists>leg. map_of legs q = Some leg \<and> rk_connection (leg_peer leg) = c) then None else map_of legs q)) \<and>
     (\<forall>k leg. map_of legs k = Some leg \<and> rk_connection k = c \<and> rk_connection (leg_peer leg) \<noteq> c \<longrightarrow>
        (leg_outbound leg, rk_stream (leg_peer leg)) \<in> set peers) \<and>
     length legs = length legs' + 2 * length peers"
proof -
  have p: "paired legs" using route_reach_paired [OF assms(1)] .
  define keys where "keys = filter (\<lambda>key. rk_connection key = c) (map fst legs)"
  have t: "teardown_keys keys legs = (peers, legs')" using assms(2) by (simp add: teardown_connection_def keys_def)
  have mem: "k \<in> set keys \<longleftrightarrow> rk_connection k = c" if "map_of legs k \<noteq> None" for k
    using that by (force simp: keys_def dest: map_of_SomeD)
  have peer: "map_of legs (leg_peer leg) \<noteq> None" if "map_of legs q = Some leg" for q leg
    by (rule paired_peer_some [OF p that])
  have "map_of legs' q = (if rk_connection q = c \<or> (\<exists>leg. map_of legs q = Some leg \<and> rk_connection (leg_peer leg) = c) then None else map_of legs q)" for q
  proof (cases "map_of legs q")
    case None
    then show ?thesis using teardown_keys_spec [OF p t] by simp
  next
    case (Some leg)
    then show ?thesis using teardown_keys_spec [OF p t] mem [of q] mem [OF peer [OF Some]] by simp
  qed
  moreover have "(leg_outbound leg, rk_stream (leg_peer leg)) \<in> set peers"
    if "map_of legs k = Some leg" "rk_connection k = c" "rk_connection (leg_peer leg) \<noteq> c" for k leg
    using teardown_keys_spec [OF p t] that mem [of k] mem [OF peer [OF that(1)]] by simp
  ultimately show ?thesis using teardown_keys_spec [OF p t] by blast
qed

text \<open>
  C23: routes are symmetric. Whatever sequence of opens, half-closes and teardowns is run, an endpoint has at most one leg. If
  no open of the sequence reused an endpoint that still had a leg, then every leg's peer has a leg back to it, the two are
  different endpoints, a pair with both directions closed is gone, and the stream count is exactly the number of pairs. C25
  shows what an open that reuses an endpoint does.
\<close>

theorem routes_come_in_pairs:
  "keys_distinct (table_ops ops) \<and>
   (clean_ops ops \<longrightarrow>
     (\<forall>k leg. map_of (table_ops ops) k = Some leg \<longrightarrow> leg_peer leg \<noteq> k \<and>
       (\<exists>mir. map_of (table_ops ops) (leg_peer leg) = Some mir \<and> leg_peer mir = k \<and> \<not> (leg_closed leg \<and> leg_closed mir))) \<and>
     2 * stream_count (table_ops ops) = length (table_ops ops))"
proof -
  have "paired (table_ops ops)" if "clean_ops ops" using that by (intro route_reach_paired clean_reach)
  then show ?thesis using table_ops_distinct [of ops] paired_even [of "table_ops ops"] unfolding paired_def by blast
qed

definition rkey :: "u64 \<Rightarrow> u32 \<Rightarrow> route_key" where
  "rkey c s = \<lparr>rk_connection = c, rk_stream = s\<rparr>"

definition two_opens :: "table_op list" where
  "two_opens = [OpOpen (rkey 0 1) (rkey 1 2) 11 10, OpOpen (rkey 0 3) (rkey 2 2) 12 10]"

definition two_routes :: routing_table where
  "two_routes = table_ops two_opens"

lemma two_routes:
  "route_reach two_routes"
  "two_routes = [(rkey 0 1, \<lparr>leg_peer = rkey 1 2, leg_outbound = 11, leg_closed = False\<rparr>),
     (rkey 1 2, \<lparr>leg_peer = rkey 0 1, leg_outbound = 10, leg_closed = False\<rparr>),
     (rkey 0 3, \<lparr>leg_peer = rkey 2 2, leg_outbound = 12, leg_closed = False\<rparr>),
     (rkey 2 2, \<lparr>leg_peer = rkey 0 3, leg_outbound = 10, leg_closed = False\<rparr>)]"
  and two_opens_clean: "clean_ops two_opens"
proof -
  show "clean_ops two_opens" by (simp add: clean_ops_def two_opens_def route_open_def Let_def rkey_def)
  then show "route_reach two_routes" unfolding two_routes_def by (rule clean_reach)
  show "two_routes = [(rkey 0 1, \<lparr>leg_peer = rkey 1 2, leg_outbound = 11, leg_closed = False\<rparr>),
     (rkey 1 2, \<lparr>leg_peer = rkey 0 1, leg_outbound = 10, leg_closed = False\<rparr>),
     (rkey 0 3, \<lparr>leg_peer = rkey 2 2, leg_outbound = 12, leg_closed = False\<rparr>),
     (rkey 2 2, \<lparr>leg_peer = rkey 0 3, leg_outbound = 10, leg_closed = False\<rparr>)]"
    by (simp add: two_routes_def table_ops_def two_opens_def route_open_def Let_def rkey_def)
qed

theorem routes_come_in_pairs_witness:
  "clean_ops two_opens \<and> 2 * stream_count (table_ops two_opens) = 4"
proof -
  have "length (table_ops two_opens) = 4" using two_routes(2) by (simp add: two_routes_def)
  then show ?thesis using routes_come_in_pairs [of two_opens] two_opens_clean by presburger
qed



lemma length_update_in: "k \<in> fst ` set m \<Longrightarrow> length (AList.update k v m) = length m"
  by (induction m) auto

lemma length_update_new: "k \<notin> fst ` set m \<Longrightarrow> length (AList.update k v m) = Suc (length m)"
  by (induction m) auto

text \<open>
  C25: an endpoint that opens a stream id it already has in use is routed to the new target, but the old target
  keeps its leg: what the old target sends is still forwarded to that endpoint, into a stream that now
  belongs to another node, and the table holds an odd leg.
\<close>

theorem reopened_id_keeps_old_target:
  assumes "route_reach legs" "route_lookup src legs = LookupOpen old" "route_lookup (leg_peer old) legs = LookupOpen mir"
    "map_of legs dst = None"
    "route_open src (rk_connection dst) (rk_stream dst) out back_out legs = (forward, legs')"
  shows "route_lookup src legs' = LookupOpen forward \<and> leg_peer forward = dst \<and>
     route_lookup (leg_peer old) legs' = LookupOpen mir \<and> leg_peer mir = src \<and>
     2 * stream_count legs' \<noteq> length legs'"
proof -
  have p: "paired legs" using route_reach_paired [OF assms(1)] .
  have d: "keys_distinct legs" using p by (simp add: paired_def)
  have old: "map_of legs src = Some old" "map_of legs (leg_peer old) = Some mir" "\<not> leg_closed mir"
    using assms(2,3) by (auto simp: route_lookup_def split: option.splits if_splits)
  obtain m where "map_of legs (leg_peer old) = Some m" "leg_peer m = src" "leg_peer old \<noteq> src"
    using pairedD [OF p old(1)] .
  then have m: "leg_peer mir = src" "leg_peer old \<noteq> src" using old(2) by auto
  have ne: "dst \<noteq> src" "leg_peer old \<noteq> dst" using assms(4) old by auto
  define b where "b = \<lparr>leg_peer = src, leg_outbound = back_out, leg_closed = False\<rparr>"
  have fwd: "forward = \<lparr>leg_peer = dst, leg_outbound = out, leg_closed = False\<rparr>"
    using arg_cong [OF assms(5), of fst] by (simp add: route_open_def Let_def)
  have legs': "legs' = AList.update dst b (AList.update src forward legs)"
    using arg_cong [OF assms(5), of snd] by (simp add: route_open_def Let_def fwd b_def)
  have "src \<in> fst ` set legs" "dst \<notin> fst ` set legs"
    using old(1) assms(4) by (auto simp: map_of_eq_None_iff intro: rev_image_eqI dest: map_of_SomeD)
  moreover from this have "dst \<notin> fst ` set (AList.update src forward legs)"
    using ne(1) unfolding AList.dom_update by blast
  ultimately have "length legs' = Suc (length legs)"
    by (simp add: legs' length_update_in length_update_new)
  moreover have "even (length legs)" using paired_even [OF p] by presburger
  ultimately have "2 * stream_count legs' \<noteq> length legs'" by (simp add: stream_count_def)
  then show ?thesis using m ne old by (simp add: legs' route_lookup_def fwd)
qed
theorem reopened_id_keeps_old_target_witness:
  "case route_open (rkey 0 1) 5 2 15 10 two_routes of (forward, legs') \<Rightarrow>
     leg_peer forward = rkey 5 2 \<and> route_lookup (rkey 0 1) legs' = LookupOpen forward \<and>
     (\<exists>mir. route_lookup (rkey 1 2) legs' = LookupOpen mir \<and> leg_peer mir = rkey 0 1)"
proof -
  obtain forward legs' where op: "route_open (rkey 0 1) (rk_connection (rkey 5 2)) (rk_stream (rkey 5 2)) 15 10 two_routes = (forward, legs')"
    by fastforce
  define old where "old = \<lparr>leg_peer = rkey 1 2, leg_outbound = 11, leg_closed = False\<rparr>"
  define mir where "mir = \<lparr>leg_peer = rkey 0 1, leg_outbound = 10, leg_closed = False\<rparr>"
  have l: "route_lookup (rkey 0 1) two_routes = LookupOpen old" "route_lookup (leg_peer old) two_routes = LookupOpen mir"
    "map_of two_routes (rkey 5 2) = None"
    by (simp_all add: route_lookup_def two_routes(2) old_def mir_def rkey_def)
  show ?thesis using reopened_id_keeps_old_target [OF two_routes(1) l op] op by (simp add: old_def rkey_def)
qed

end
