(* ===== verification/Conn_Table.thy ===== *)
theory Conn_Table
  imports Text_Ops Routing
begin

text \<open>
  The relay's registry of live links, \<^verbatim>\<open>src/infra/relay_connection_table.rs\<close>. An \<^verbatim>\<open>Instant\<close> is a number of
  milliseconds and the current time is an argument. The allocator of relay-initiated stream ids is shared between an
  entry and the routing targets handed out for it, so the table keeps it per connection, where it
  outlives the entry. A connection is in \<open>ct_retired\<close> once its retire signal fired: the watch channel got a
  value, or its only sender was dropped with the entry.
\<close>

section \<open>State\<close>

definition DEFAULT_OFFLINE_AFTER :: nat where "DEFAULT_OFFLINE_AFTER = 30000"
definition DEFAULT_SWEEP_INTERVAL :: nat where "DEFAULT_SWEEP_INTERVAL = 1000"
definition DEFAULT_REGISTER_TIMEOUT :: nat where "DEFAULT_REGISTER_TIMEOUT = 10000"

record lifecycle_config =
  offline_after :: nat
  sweep_interval :: nat
  register_timeout :: nat

definition default_lifecycle :: lifecycle_config where
  "default_lifecycle = \<lparr>offline_after = DEFAULT_OFFLINE_AFTER, sweep_interval = DEFAULT_SWEEP_INTERVAL,
     register_timeout = DEFAULT_REGISTER_TIMEOUT\<rparr>"

datatype lifecycle_event = Registered string | Replaced string | Unregistered string | EvictedOffline string

record conn_entry =
  ce_connection_id :: u64
  ce_last_seen :: nat
  ce_outbound :: ingress
  ce_labels :: "string list"

datatype label_resolve = Unique string "string list" | Ambiguous nat | NoMatch

record routing_target =
  rt_connection_id :: u64
  rt_outbound :: ingress

record conn_table =
  ct_entries :: "(string \<times> conn_entry) list"
  ct_next_connection_id :: u64
  ct_next_relay_stream :: "(u64 \<times> u32) list"
  ct_retired :: "u64 list"

definition table_new :: conn_table where
  "table_new = \<lparr>ct_entries = [], ct_next_connection_id = 0, ct_next_relay_stream = [], ct_retired = []\<rparr>"

section \<open>Operations\<close>

definition table_len :: "conn_table \<Rightarrow> nat" where
  "table_len t = length (ct_entries t)"

definition register :: "nat \<Rightarrow> string \<Rightarrow> ingress \<Rightarrow> conn_table \<Rightarrow> u64 \<times> conn_entry option \<times> conn_table" where
  "register now node_id outbound t =
     (let connection_id = ct_next_connection_id t;
          entry = \<lparr>ce_connection_id = connection_id, ce_last_seen = now, ce_outbound = outbound, ce_labels = []\<rparr>
      in (connection_id, map_of (ct_entries t) node_id,
          t\<lparr>ct_entries := AList.update node_id entry (ct_entries t),
            ct_next_connection_id := connection_id + 1,
            ct_next_relay_stream := AList.update connection_id 2 (ct_next_relay_stream t)\<rparr>))"

definition table_lookup :: "string \<Rightarrow> conn_table \<Rightarrow> routing_target option" where
  "table_lookup node_id t =
     map_option (\<lambda>entry. \<lparr>rt_connection_id = ce_connection_id entry, rt_outbound = ce_outbound entry\<rparr>)
       (map_of (ct_entries t) node_id)"

text \<open>\<^verbatim>\<open>next_relay_stream.fetch_add(2)\<close> on the allocator of a connection.\<close>

definition fetch_relay_stream :: "u64 \<Rightarrow> conn_table \<Rightarrow> u32 \<times> conn_table" where
  "fetch_relay_stream connection_id t =
     (let sid = (case map_of (ct_next_relay_stream t) connection_id of Some n \<Rightarrow> n | None \<Rightarrow> 2)
      in (sid, t\<lparr>ct_next_relay_stream := AList.update connection_id (sid + 2) (ct_next_relay_stream t)\<rparr>))"

definition touch :: "nat \<Rightarrow> string \<Rightarrow> u64 \<Rightarrow> conn_table \<Rightarrow> conn_table" where
  "touch now node_id connection_id t =
     (case map_of (ct_entries t) node_id of
        None \<Rightarrow> t
      | Some entry \<Rightarrow>
          if ce_connection_id entry \<noteq> connection_id then t
          else t\<lparr>ct_entries := AList.update node_id (entry\<lparr>ce_last_seen := now\<rparr>) (ct_entries t)\<rparr>)"

definition retire :: "u64 \<Rightarrow> conn_table \<Rightarrow> conn_table" where
  "retire connection_id t = t\<lparr>ct_retired := connection_id # ct_retired t\<rparr>"

definition remove_if_current :: "string \<Rightarrow> u64 \<Rightarrow> conn_table \<Rightarrow> bool \<times> conn_table" where
  "remove_if_current node_id connection_id t =
     (case map_of (ct_entries t) node_id of
        Some entry \<Rightarrow>
          if ce_connection_id entry = connection_id
          then (True, retire connection_id (t\<lparr>ct_entries := AList.delete node_id (ct_entries t)\<rparr>))
          else (False, t)
      | None \<Rightarrow> (False, t))"

definition retire_notifying :: "string \<Rightarrow> relay_error_code \<Rightarrow> conn_table \<Rightarrow> (ingress \<times> frame) option \<times> conn_table" where
  "retire_notifying node_id code t =
     (case map_of (ct_entries t) node_id of
        Some entry \<Rightarrow>
          (Some (ce_outbound entry, Error 0 (code_wire_value code) (code_message code)),
           retire (ce_connection_id entry) (t\<lparr>ct_entries := AList.delete node_id (ct_entries t)\<rparr>))
      | None \<Rightarrow> (None, t))"

fun remove_nodes :: "string list \<Rightarrow> (string \<times> conn_entry) list \<Rightarrow> (string \<times> conn_entry) list \<times> (string \<times> conn_entry) list" where
  "remove_nodes [] es = ([], es)"
| "remove_nodes (n # ns) es =
     (case map_of es n of
        None \<Rightarrow> remove_nodes ns es
      | Some e \<Rightarrow> (case remove_nodes ns (AList.delete n es) of (out, es') \<Rightarrow> ((n, e) # out, es')))"

definition is_idle :: "nat \<Rightarrow> nat \<Rightarrow> conn_entry \<Rightarrow> bool" where
  "is_idle now max_idle entry \<longleftrightarrow> max_idle \<le> now - ce_last_seen entry"

definition evict_idle :: "nat \<Rightarrow> nat \<Rightarrow> conn_table \<Rightarrow> (string \<times> conn_entry) list \<times> conn_table" where
  "evict_idle now max_idle t =
     (let idle = map fst (filter (\<lambda>(_, entry). is_idle now max_idle entry) (ct_entries t));
          (out, es) = remove_nodes idle (ct_entries t)
      in (out, t\<lparr>ct_entries := es\<rparr>))"

definition set_labels :: "string \<Rightarrow> u64 \<Rightarrow> string list \<Rightarrow> conn_table \<Rightarrow> conn_table" where
  "set_labels node_id connection_id labels t =
     (case map_of (ct_entries t) node_id of
        Some entry \<Rightarrow>
          if ce_connection_id entry = connection_id
          then t\<lparr>ct_entries := AList.update node_id (entry\<lparr>ce_labels := labels\<rparr>) (ct_entries t)\<rparr>
          else t
      | None \<Rightarrow> t)"

definition normalize_label :: "(string \<Rightarrow> string) \<Rightarrow> string \<Rightarrow> string" where
  "normalize_label uni label =
     (let normalized = to_lowercase uni (trim label)
      in if 1 < length normalized \<and> last normalized = CHR ''.'' then butlast normalized else normalized)"

definition labels_match :: "(string \<Rightarrow> string) \<Rightarrow> string \<Rightarrow> string \<Rightarrow> bool" where
  "labels_match uni announced query =
     (let announced = normalize_label uni announced; query = normalize_label uni query in
      if announced = [] \<or> query = [] then False
      else if announced = query then True
      else if parses_ip announced \<or> parses_ip query then False
      else starts_with announced (query @ ''.'') \<or> starts_with query (announced @ ''.''))"

definition resolve_label :: "(string \<Rightarrow> string) \<Rightarrow> string \<Rightarrow> conn_table \<Rightarrow> label_resolve" where
  "resolve_label uni label t =
     (let matches = filter (\<lambda>(_, entry). \<exists>announced \<in> set (ce_labels entry). labels_match uni announced label) (ct_entries t)
      in case matches of
           [] \<Rightarrow> NoMatch
         | [(node_id, entry)] \<Rightarrow> Unique node_id (ce_labels entry)
         | _ \<Rightarrow> Ambiguous (length matches))"

definition snapshot :: "nat \<Rightarrow> conn_table \<Rightarrow> (string \<times> u64 \<times> nat) list" where
  "snapshot now t = map (\<lambda>(node_id, entry). (node_id, ce_connection_id entry, now - ce_last_seen entry)) (ct_entries t)"

section \<open>Invariant\<close>

text \<open>
  Connection ids are handed out in order and never twice, and a connection owns at most one entry. A new
  registration needs an id below \<open>2\<^sup>6\<^sup>4 - 1\<close>.
\<close>

definition table_ok :: "conn_table \<Rightarrow> bool" where
  "table_ok t \<longleftrightarrow>
     keys_distinct (ct_entries t) \<and>
     (\<forall>n e. map_of (ct_entries t) n = Some e \<longrightarrow> ce_connection_id e < ct_next_connection_id t) \<and>
     (\<forall>n m e f. map_of (ct_entries t) n = Some e \<longrightarrow> map_of (ct_entries t) m = Some f \<longrightarrow>
        ce_connection_id e = ce_connection_id f \<longrightarrow> n = m)"

inductive table_reach :: "conn_table \<Rightarrow> bool" where
  fresh: "table_reach table_new"
| registered: "table_reach t \<Longrightarrow> ct_next_connection_id t \<noteq> - 1 \<Longrightarrow> table_reach (snd (snd (register now n out t)))"
| allocated: "table_reach t \<Longrightarrow> table_reach (snd (fetch_relay_stream c t))"
| touched: "table_reach t \<Longrightarrow> table_reach (touch now n c t)"
| removed: "table_reach t \<Longrightarrow> table_reach (snd (remove_if_current n c t))"
| retired: "table_reach t \<Longrightarrow> table_reach (snd (retire_notifying n code t))"
| signalled: "table_reach t \<Longrightarrow> table_reach (retire c t)"
| evicted: "table_reach t \<Longrightarrow> table_reach (snd (evict_idle now d t))"
| labelled: "table_reach t \<Longrightarrow> table_reach (set_labels n c ls t)"

lemma table_ok_new: "table_ok table_new"
  by (simp add: table_ok_def table_new_def)

text \<open>An entry may be replaced by one of the same connection, and entries may go.\<close>

lemma table_ok_update:
  assumes "table_ok t" "map_of (ct_entries t) n = Some e" "ce_connection_id e' = ce_connection_id e"
  shows "table_ok (t\<lparr>ct_entries := AList.update n e' (ct_entries t)\<rparr>)"
  using assms unfolding table_ok_def by (auto split: if_splits)

lemma table_ok_sub:
  assumes "table_ok t" "keys_distinct es" "\<And>n e. map_of es n = Some e \<Longrightarrow> map_of (ct_entries t) n = Some e"
  shows "table_ok (t\<lparr>ct_entries := es\<rparr>)"
proof -
  have "ce_connection_id e < ct_next_connection_id t" if "map_of es n = Some e" for n e
    using assms(1) assms(3) [OF that] unfolding table_ok_def by blast
  moreover have "n = m" if "map_of es n = Some e" "map_of es m = Some f" "ce_connection_id e = ce_connection_id f" for n m e f
    using assms(1) assms(3) [OF that(1)] assms(3) [OF that(2)] that(3) unfolding table_ok_def by blast
  ultimately show ?thesis using assms(2) unfolding table_ok_def by simp
qed

lemma table_ok_retire [simp]: "table_ok (retire c t) = table_ok t"
  by (simp add: table_ok_def retire_def)

lemma table_ok_delete: "table_ok t \<Longrightarrow> table_ok (t\<lparr>ct_entries := AList.delete n (ct_entries t)\<rparr>)"
  by (rule table_ok_sub) (auto simp: table_ok_def split: if_splits)

lemma remove_nodes_spec:
  assumes "keys_distinct es" "remove_nodes ns es = (out, es')"
  shows "keys_distinct es' \<and> map_of es' = (\<lambda>n. if n \<in> set ns then None else map_of es n) \<and>
     keys_distinct out \<and> map_of out = (\<lambda>n. if n \<in> set ns then map_of es n else None)"
  using assms
proof (induction ns es arbitrary: out rule: remove_nodes.induct)
  case (2 n ns es)
  show ?case
  proof (cases "map_of es n")
    case None
    then show ?thesis using "2.IH"(1) [OF None "2.prems"(1)] "2.prems"(2) by (auto simp: fun_eq_iff)
  next
    case (Some e)
    obtain o1 where r: "remove_nodes ns (AList.delete n es) = (o1, es')" "out = (n, e) # o1"
      using "2.prems"(2) Some by (auto split: prod.splits)
    have IH: "keys_distinct es'" "map_of es' = (\<lambda>m. if m \<in> set ns then None else map_of (AList.delete n es) m)"
      "keys_distinct o1" "map_of o1 = (\<lambda>m. if m \<in> set ns then map_of (AList.delete n es) m else None)"
      using "2.IH"(2) [OF Some keys_distinct_delete [OF "2.prems"(1)] r(1)] by blast+
    have "map_of o1 n = None" by (simp add: IH(4))
    then have "keys_distinct out" using IH(3) r(2) by (simp add: map_of_eq_None_iff)
    then show ?thesis using IH r(2) Some by (auto simp: fun_eq_iff)
  qed
qed (auto simp: fun_eq_iff)

lemma evict_idle_spec:
  assumes "table_ok t" "evict_idle now d t = (out, t')"
  shows "table_ok t'" "keys_distinct out"
    "map_of (ct_entries t') n = (case map_of (ct_entries t) n of Some e \<Rightarrow> if is_idle now d e then None else Some e | None \<Rightarrow> None)"
    "map_of out n = (case map_of (ct_entries t) n of Some e \<Rightarrow> if is_idle now d e then Some e else None | None \<Rightarrow> None)"
    "ct_next_connection_id t' = ct_next_connection_id t" "ct_retired t' = ct_retired t"
proof -
  let ?idle = "map fst (filter (\<lambda>(_, entry). is_idle now d entry) (ct_entries t))"
  obtain es where r: "remove_nodes ?idle (ct_entries t) = (out, es)" "t' = t\<lparr>ct_entries := es\<rparr>"
    using assms(2) by (auto simp: evict_idle_def Let_def split: prod.splits)
  have d: "keys_distinct (ct_entries t)" using assms(1) by (simp add: table_ok_def)
  note sp = remove_nodes_spec [OF d r(1)]
  have mem: "m \<in> set ?idle \<longleftrightarrow> (\<exists>e. map_of (ct_entries t) m = Some e \<and> is_idle now d e)" for m
    unfolding map_of_eq_Some_iff [OF d] by force
  show "map_of (ct_entries t') n = (case map_of (ct_entries t) n of Some e \<Rightarrow> if is_idle now d e then None else Some e | None \<Rightarrow> None)"
    using sp r(2) mem [of n] by (auto split: option.splits)
  show "map_of out n = (case map_of (ct_entries t) n of Some e \<Rightarrow> if is_idle now d e then Some e else None | None \<Rightarrow> None)"
    using sp mem [of n] by (auto split: option.splits)
  show "table_ok t'" unfolding r(2) using sp by (intro table_ok_sub [OF assms(1)]) (auto split: if_splits)
  show "keys_distinct out" using sp by blast
qed (use assms(2) in \<open>auto simp: evict_idle_def Let_def split: prod.splits\<close>)

lemma register_ok:
  assumes "table_ok t" "ct_next_connection_id t \<noteq> - 1"
  shows "table_ok (snd (snd (register now n out t)))"
proof -
  have "1 + ct_next_connection_id t \<noteq> 0" using assms(2) by (simp add: add_eq_0_iff)
  then have "unat (1 + ct_next_connection_id t) = Suc (unat (ct_next_connection_id t))" by (rule unatSuc)
  then have less: "c < ct_next_connection_id t + 1 \<longleftrightarrow> c \<le> ct_next_connection_id t" for c
    by (simp add: word_less_nat_alt word_le_nat_alt add.commute less_Suc_eq_le)
  define t' where "t' = snd (snd (register now n out t))"
  have t': "keys_distinct (ct_entries t')" "ct_next_connection_id t' = ct_next_connection_id t + 1"
    "\<And>m. map_of (ct_entries t') m = (if m = n then Some \<lparr>ce_connection_id = ct_next_connection_id t, ce_last_seen = now,
        ce_outbound = out, ce_labels = []\<rparr> else map_of (ct_entries t) m)"
    using assms(1) by (simp_all add: t'_def register_def Let_def table_ok_def)
  have old: "ce_connection_id e < ct_next_connection_id t" if "map_of (ct_entries t) m = Some e" for m e
    using assms(1) that unfolding table_ok_def by blast
  have id: "ce_connection_id e = ct_next_connection_id t \<longleftrightarrow> m = n" if "map_of (ct_entries t') m = Some e" for m e
    using that old [of m e] by (auto simp: t' split: if_splits)
  have "ce_connection_id e < ct_next_connection_id t'" if "map_of (ct_entries t') m = Some e" for m e
    using that old [of m e] by (auto simp: t' less split: if_splits)
  moreover have "m = k" if me: "map_of (ct_entries t') m = Some e" "map_of (ct_entries t') k = Some f"
      "ce_connection_id e = ce_connection_id f" for m k e f
  proof (cases "m = n")
    case True
    then show ?thesis using id [OF me(1)] id [OF me(2)] me(3) by simp
  next
    case False
    then have "k \<noteq> n" using id [OF me(1)] id [OF me(2)] me(3) by simp
    then have "map_of (ct_entries t) m = Some e" "map_of (ct_entries t) k = Some f" using False me by (simp_all add: t')
    then show ?thesis using assms(1) me(3) unfolding table_ok_def by blast
  qed
  ultimately show ?thesis using t'(1) unfolding table_ok_def t'_def [symmetric] by blast
qed

lemma table_reach_ok: "table_reach t \<Longrightarrow> table_ok t"
proof (induction rule: table_reach.induct)
  case (evicted t now d)
  then show ?case using evict_idle_spec(1) surjective_pairing by blast
next
  case (allocated t c)
  then show ?case by (simp add: table_ok_def fetch_relay_stream_def Let_def)
qed (simp_all add: table_ok_new register_ok touch_def remove_if_current_def retire_notifying_def set_labels_def
    table_ok_delete table_ok_update split: option.splits)

section \<open>Ownership\<close>

text \<open>
  The contract between the registry and the link tasks: an operation a link performs under its own connection
  id leaves every entry of another connection as it is. It then holds for any sequence of such operations.
\<close>

locale guarded_registry =
  fixes get :: "'t \<Rightarrow> 'n \<Rightarrow> 'e option" and owner :: "'e \<Rightarrow> 'c" and act :: "'a \<Rightarrow> 'n \<Rightarrow> 'c \<Rightarrow> 't \<Rightarrow> 't"
  assumes foreign_act: "get t n = Some e \<Longrightarrow> owner e \<noteq> c \<Longrightarrow> get (act a m c t) n = Some e"
begin

lemma foreign_run:
  assumes "get t n = Some e" "\<forall>(a, m, c) \<in> set ops. c \<noteq> owner e"
  shows "get (fold (\<lambda>(a, m, c). act a m c) ops t) n = Some e"
  using assms
proof (induction ops arbitrary: t)
  case (Cons op ops)
  obtain a m c where op: "op = (a, m, c)" by (cases op)
  then have "get (act a m c t) n = Some e" using Cons.prems by (intro foreign_act) auto
  then show ?case using Cons by (simp add: op)
qed simp

end

datatype link_op = OpTouch nat | OpRemove | OpLabels "string list"

fun run_link_op :: "link_op \<Rightarrow> string \<Rightarrow> u64 \<Rightarrow> conn_table \<Rightarrow> conn_table" where
  "run_link_op (OpTouch now) n c t = touch now n c t"
| "run_link_op OpRemove n c t = snd (remove_if_current n c t)"
| "run_link_op (OpLabels ls) n c t = set_labels n c ls t"

interpretation links: guarded_registry "\<lambda>t :: conn_table. map_of (ct_entries t)" ce_connection_id run_link_op
proof
  fix t :: conn_table and n e c a m
  assume "map_of (ct_entries t) n = Some e" "ce_connection_id e \<noteq> c"
  then show "map_of (ct_entries (run_link_op a m c t)) n = Some e"
    by (cases a) (auto simp: touch_def remove_if_current_def set_labels_def retire_def split: option.splits)
qed

section \<open>Properties\<close>

text \<open>
  C26: a replaced link cannot harm its successor. A registration gets a connection id that no live entry and no
  earlier registration has; it reports the entry it replaces, if any; and whatever the links that
  registered before do afterwards under their own ids - heartbeats, removals and label announcements, for
  any node ids and in any order - the new entry stays in place unchanged.
\<close>

theorem successor_is_safe:
  assumes "table_reach t" "ct_next_connection_id t \<noteq> - 1" "register now node_id out t = (c, previous, t')"
    "\<forall>(a, m, c') \<in> set ops. c' < ct_next_connection_id t"
  shows "(\<forall>n e. map_of (ct_entries t) n = Some e \<longrightarrow> ce_connection_id e < c) \<and> c < ct_next_connection_id t' \<and>
     previous = map_of (ct_entries t) node_id \<and>
     map_of (ct_entries (fold (\<lambda>(a, m, c'). run_link_op a m c') ops t')) node_id =
       Some \<lparr>ce_connection_id = c, ce_last_seen = now, ce_outbound = out, ce_labels = []\<rparr>"
proof -
  define e where "e = \<lparr>ce_connection_id = c, ce_last_seen = now, ce_outbound = out, ce_labels = []\<rparr>"
  have r: "c = ct_next_connection_id t" "previous = map_of (ct_entries t) node_id" "map_of (ct_entries t') node_id = Some e"
    using assms(3) by (auto simp: register_def Let_def e_def)
  have "table_ok t'" using register_ok [OF table_reach_ok [OF assms(1)] assms(2), of now node_id out] assms(3) by simp
  then have "c < ct_next_connection_id t'" using r(3) by (force simp: table_ok_def e_def)
  moreover have "map_of (ct_entries (fold (\<lambda>(a, m, c'). run_link_op a m c') ops t')) node_id = Some e"
    using assms(4) by (intro links.foreign_run [OF r(3)]) (auto simp: r(1) e_def)
  ultimately show ?thesis using table_reach_ok [OF assms(1)] r(1,2) unfolding table_ok_def e_def by blast
qed

definition first_link :: conn_table where
  "first_link = snd (snd (register 5 ''n1'' 0 table_new))"

lemma first_link:
  "table_reach first_link" "ct_next_connection_id first_link = 1"
  "ct_entries first_link = [(''n1'', \<lparr>ce_connection_id = 0, ce_last_seen = 5, ce_outbound = 0, ce_labels = []\<rparr>)]"
proof -
  show "table_reach first_link"
    unfolding first_link_def by (rule table_reach.registered [OF table_reach.fresh]) (simp add: table_new_def)
qed (simp_all add: first_link_def table_new_def register_def Let_def)

theorem successor_is_safe_witness:
  "case register 9 ''n1'' 1 first_link of (c, previous, t') \<Rightarrow>
     c = 1 \<and> previous = map_of (ct_entries first_link) ''n1'' \<and>
     map_of (ct_entries (run_link_op OpRemove ''n1'' 0 (run_link_op (OpTouch 99) ''n1'' 0 t'))) ''n1'' =
       Some \<lparr>ce_connection_id = c, ce_last_seen = 9, ce_outbound = 1, ce_labels = []\<rparr>"
proof -
  obtain c previous t' where r: "register 9 ''n1'' 1 first_link = (c, previous, t')" by (cases "register 9 ''n1'' 1 first_link")
  have "c = 1" using r first_link(2) by (simp add: register_def Let_def)
  moreover have "\<forall>(a, m, c') \<in> set [(OpTouch 99, ''n1'', 0), (OpRemove, ''n1'', 0)]. c' < ct_next_connection_id first_link"
    by (simp add: first_link(2))
  moreover have "ct_next_connection_id first_link \<noteq> - 1" by (simp add: first_link(2))
  ultimately show ?thesis using successor_is_safe [OF first_link(1) _ r, of "[(OpTouch 99, ''n1'', 0), (OpRemove, ''n1'', 0)]"] r
    by simp
qed

text \<open>
  C27: a sweep evicts exactly the silent nodes. The entries it returns are those whose last activity is at least
  \<open>max_idle\<close> ago, each once; every other entry stays unchanged; so a link that sent a heartbeat less than
  \<open>max_idle\<close> ago is never evicted. The doc comments of \<^verbatim>\<open>evict_idle\<close> and \<^verbatim>\<open>offline_after\<close> say silent for longer
  than the limit; the code, and this theorem, include the limit itself.
\<close>

theorem eviction_exact:
  assumes "table_reach t" "evict_idle now max_idle t = (out, t')"
  shows "(\<forall>n e. (n, e) \<in> set out \<longleftrightarrow> map_of (ct_entries t) n = Some e \<and> ce_last_seen e + max_idle \<le> max now (ce_last_seen e)) \<and>
     (\<forall>n e. map_of (ct_entries t') n = Some e \<longleftrightarrow> map_of (ct_entries t) n = Some e \<and> max now (ce_last_seen e) < ce_last_seen e + max_idle) \<and>
     keys_distinct out"
proof -
  note sp = evict_idle_spec [OF table_reach_ok [OF assms(1)] assms(2)]
  have idle: "is_idle now max_idle e \<longleftrightarrow> ce_last_seen e + max_idle \<le> max now (ce_last_seen e)" for e
    by (auto simp: is_idle_def max_def)
  have "(n, e) \<in> set out \<longleftrightarrow> map_of out n = Some e" for n e
    using sp(2) by (simp add: map_of_eq_Some_iff)
  then show ?thesis using sp(2,3,4) idle by (auto split: option.splits if_splits simp: not_le)
qed

theorem eviction_exact_witness:
  "case evict_idle 31000 DEFAULT_OFFLINE_AFTER (touch 2000 ''n1'' 0 first_link) of (out, t') \<Rightarrow>
     out = [] \<and> map_of (ct_entries t') ''n1'' = Some \<lparr>ce_connection_id = 0, ce_last_seen = 2000, ce_outbound = 0, ce_labels = []\<rparr>"
proof -
  let ?t = "touch 2000 ''n1'' 0 first_link"
  obtain out t' where ev: "evict_idle 31000 DEFAULT_OFFLINE_AFTER ?t = (out, t')" by (cases "evict_idle 31000 DEFAULT_OFFLINE_AFTER ?t")
  have m: "map_of (ct_entries ?t) = [''n1'' \<mapsto> \<lparr>ce_connection_id = 0, ce_last_seen = 2000, ce_outbound = 0, ce_labels = []\<rparr>]"
    by (simp add: touch_def first_link(3) fun_eq_iff)
  have "(n, e) \<notin> set out" for n e
    using eviction_exact [OF table_reach.touched [OF first_link(1)] ev] by (auto simp: m DEFAULT_OFFLINE_AFTER_def)
  then have "out = []" by (cases out) auto
  then show ?thesis using eviction_exact [OF table_reach.touched [OF first_link(1)] ev] ev by (simp add: m DEFAULT_OFFLINE_AFTER_def)
qed

text \<open>
  C28: the label test is matching of dotted names. Two labels match iff their normal forms are not empty and
  are equal or, when neither is an IP address, the dot-separated parts of one begin with the parts of
  the other. In particular the test is symmetric, and \<open>nas\<close> does not answer \<open>nas2.local\<close>.
\<close>

theorem label_match_parts:
  "labels_match uni announced query \<longleftrightarrow>
     (let a = normalize_label uni announced; q = normalize_label uni query in
      a \<noteq> [] \<and> q \<noteq> [] \<and>
      (a = q \<or> \<not> parses_ip a \<and> \<not> parses_ip q \<and>
         (prefix (split_dots q) (split_dots a) \<or> prefix (split_dots a) (split_dots q))))"
proof -
  have "strict_prefix (split_dots p) (split_dots s) \<longleftrightarrow> prefix (split_dots p) (split_dots s) \<and> p \<noteq> s" for p s
    by (metis join_split strict_prefix_def)
  then show ?thesis by (auto simp: labels_match_def Let_def dotted_extension)
qed

text \<open>
  C29: resolving a label never guesses. The answer depends only on the set of registered nodes that announced a
  matching label: no such node gives no match, exactly one gives that node with its announced labels, and
  more than one gives their number.
\<close>

theorem resolve_label_exact:
  assumes "table_reach t"
  shows "resolve_label uni label t =
     (let nodes = {n. \<exists>e. map_of (ct_entries t) n = Some e \<and> (\<exists>a \<in> set (ce_labels e). labels_match uni a label)} in
      if nodes = {} then NoMatch
      else if card nodes = 1 then Unique (the_elem nodes) (ce_labels (the (map_of (ct_entries t) (the_elem nodes))))
      else Ambiguous (card nodes))"
proof -
  have d: "keys_distinct (ct_entries t)" using table_reach_ok [OF assms] by (simp add: table_ok_def)
  define ms where "ms = filter (\<lambda>(_, entry). \<exists>a \<in> set (ce_labels entry). labels_match uni a label) (ct_entries t)"
  define nodes where "nodes = {n. \<exists>e. map_of (ct_entries t) n = Some e \<and> (\<exists>a \<in> set (ce_labels e). labels_match uni a label)}"
  have nodes: "nodes = set (map fst ms)" unfolding nodes_def ms_def map_of_eq_Some_iff [OF d] by force
  have dm: "distinct (map fst ms)" unfolding ms_def using d by (rule keys_distinct_filter)
  have card: "card nodes = length ms" unfolding nodes using distinct_card [OF dm] by simp
  have res: "resolve_label uni label t =
      (case ms of [] \<Rightarrow> NoMatch | [(n, e)] \<Rightarrow> Unique n (ce_labels e) | _ \<Rightarrow> Ambiguous (length ms))"
    by (auto simp: resolve_label_def ms_def Let_def split: list.splits)
  consider "ms = []" | n e where "ms = [(n, e)]" | "1 < length ms"
    by (cases ms rule: list.exhaust; cases "tl ms") auto
  then show ?thesis
  proof cases
    case 2
    have "(n, e) \<in> set ms" by (simp add: 2)
    then have "(n, e) \<in> set (ct_entries t)" unfolding ms_def by simp
    then have "map_of (ct_entries t) n = Some e" using d by simp
    then show ?thesis using 2 res nodes by (simp add: Let_def nodes_def [symmetric])
  next
    case 3
    then have "nodes \<noteq> {}" "card nodes \<noteq> 1" using card nodes by auto
    moreover have "resolve_label uni label t = Ambiguous (length ms)" using 3 res by (auto split: list.splits)
    ultimately show ?thesis by (simp add: Let_def nodes_def [symmetric] card)
  qed (use res nodes in \<open>simp add: Let_def nodes_def [symmetric]\<close>)
qed

definition labelled_link :: conn_table where
  "labelled_link = set_labels ''n1'' 0 [''nas.local''] first_link"

theorem resolve_label_exact_witness:
  "resolve_label id ''NAS'' labelled_link = Unique ''n1'' [''nas.local'']"
proof -
  have r: "table_reach labelled_link" unfolding labelled_link_def by (rule table_reach.labelled [OF first_link(1)])
  have es: "ct_entries labelled_link = [(''n1'', \<lparr>ce_connection_id = 0, ce_last_seen = 5, ce_outbound = 0, ce_labels = [''nas.local'']\<rparr>)]"
    by (simp add: labelled_link_def set_labels_def first_link(3))
  have tr: "trim ''NAS'' = ''NAS''" "trim ''nas.local'' = ''nas.local''"
    by (rule trim_id; simp add: graphic_def)+
  have nm: "normalize_label id ''NAS'' = ''nas''" "normalize_label id ''nas.local'' = ''nas.local''"
    by (simp_all add: normalize_label_def tr to_lowercase_def is_ascii_def ascii_lower_def char_of_def bit_0)
  have ip: "\<not> parses_ip ''nas''" "\<not> parses_ip ''nas.local''" by (simp_all add: parses_ip_simps)
  have lm: "labels_match id ''nas.local'' ''NAS''"
    by (simp add: labels_match_def nm ip starts_with_def)
  have "{n. \<exists>e. map_of (ct_entries labelled_link) n = Some e \<and> (\<exists>a \<in> set (ce_labels e). labels_match id a ''NAS'')} = {''n1''}"
    using lm by (auto simp: es split: if_splits)
  then show ?thesis unfolding resolve_label_exact [OF r] by (simp add: es)
qed

end
