(* ===== verification/Presence_Hub.thy ===== *)
theory Presence_Hub
  imports Conn_Table
begin

text \<open>
  The presence hub, \<^verbatim>\<open>src/infra/relay_presence.rs\<close>: which connections watch which node. The operations
  return the frames the code hands to \<^verbatim>\<open>try_send\<close> after it has released the lock, each with its egress.
\<close>

section \<open>Operations\<close>

type_synonym presence_hub = "(string \<times> (u64 \<times> ingress) list) list"

definition hub_new :: presence_hub where
  "hub_new = []"

definition watch :: "(string \<Rightarrow> string) \<Rightarrow> u64 \<Rightarrow> string \<Rightarrow> ingress \<Rightarrow> bool \<Rightarrow> presence_hub \<Rightarrow> (ingress \<times> frame) list \<times> presence_hub" where
  "watch uni connection_id target outbound currently_online hub =
     (let target = to_lowercase uni target;
          interests = (case map_of hub target of Some ws \<Rightarrow> ws | None \<Rightarrow> [])
      in ([(outbound, Presence target currently_online)],
          AList.update target (AList.update connection_id outbound interests) hub))"

definition unwatch_connection :: "u64 \<Rightarrow> presence_hub \<Rightarrow> presence_hub" where
  "unwatch_connection connection_id hub =
     filter (\<lambda>(_, interests). interests \<noteq> []) (map (\<lambda>(target, interests). (target, AList.delete connection_id interests)) hub)"

definition publish :: "(string \<Rightarrow> string) \<Rightarrow> string \<Rightarrow> bool \<Rightarrow> presence_hub \<Rightarrow> (ingress \<times> frame) list" where
  "publish uni node_id online hub =
     (let senders = (case map_of hub (to_lowercase uni node_id) of Some interests \<Rightarrow> map snd interests | None \<Rightarrow> [])
      in map (\<lambda>sender. (sender, Presence (to_lowercase uni node_id) online)) senders)"

section \<open>Abstract watch relation\<close>

text \<open>
  What the hub stands for: for each pair of a node and a connection, the egress to notify. A hub is well formed when
  both levels have distinct keys and no node is kept without a watcher.
\<close>

definition watching :: "presence_hub \<Rightarrow> string \<times> u64 \<Rightarrow> ingress option" where
  "watching hub = (\<lambda>(target, c). case map_of hub target of Some ws \<Rightarrow> map_of ws c | None \<Rightarrow> None)"

definition hub_ok :: "presence_hub \<Rightarrow> bool" where
  "hub_ok hub \<longleftrightarrow> keys_distinct hub \<and> (\<forall>target ws. map_of hub target = Some ws \<longrightarrow> keys_distinct ws \<and> ws \<noteq> [])"

inductive hub_reach :: "(string \<Rightarrow> string) \<Rightarrow> presence_hub \<Rightarrow> bool" for uni where
  fresh: "hub_reach uni hub_new"
| watched: "hub_reach uni hub \<Longrightarrow> hub_reach uni (snd (watch uni c target out online hub))"
| purged: "hub_reach uni hub \<Longrightarrow> hub_reach uni (unwatch_connection c hub)"

lemma map_of_unwatch:
  "keys_distinct hub \<Longrightarrow> map_of (unwatch_connection c hub) t =
     (case map_of hub t of Some ws \<Rightarrow> if AList.delete c ws = [] then None else Some (AList.delete c ws) | None \<Rightarrow> None)"
proof (induction hub arbitrary: t)
  case (Cons p hub)
  obtain a ws where p: "p = (a, ws)" by (cases p)
  have "map_of (unwatch_connection c hub) a = None" using Cons.IH [of a] Cons.prems by (auto simp: p map_of_eq_None_iff [THEN iffD2])
  then show ?case using Cons by (auto simp: p unwatch_connection_def split: option.splits)
qed (simp add: unwatch_connection_def)

lemma unwatch_distinct: "keys_distinct hub \<Longrightarrow> keys_distinct (unwatch_connection c hub)"
  unfolding unwatch_connection_def by (intro keys_distinct_filter) (simp add: comp_def case_prod_unfold)

lemma hub_ok_watch: "hub_ok hub \<Longrightarrow> hub_ok (snd (watch uni c target out online hub))"
  by (auto simp: hub_ok_def watch_def Let_def split: option.splits if_splits)

lemma hub_ok_unwatch: "hub_ok hub \<Longrightarrow> hub_ok (unwatch_connection c hub)"
  by (auto simp: hub_ok_def map_of_unwatch unwatch_distinct split: option.splits if_splits)

lemma hub_ok_new: "hub_ok hub_new"
  by (simp add: hub_ok_def hub_new_def)

lemma hub_reach_ok: "hub_reach uni hub \<Longrightarrow> hub_ok hub"
  by (induction rule: hub_reach.induct) (simp_all add: hub_ok_watch hub_ok_unwatch hub_ok_new)

lemma watching_watch:
  "watch uni c target out online hub = (sent, hub') \<Longrightarrow>
     watching hub' = (watching hub)((to_lowercase uni target, c) \<mapsto> out) \<and> sent = [(out, Presence (to_lowercase uni target) online)]"
  by (auto simp: watch_def watching_def Let_def fun_eq_iff split: option.splits if_splits)

lemma watching_unwatch:
  assumes "hub_ok hub"
  shows "watching (unwatch_connection c hub) = (\<lambda>(t, d). if d = c then None else watching hub (t, d))"
proof (rule ext)
  fix td :: "string \<times> u64"
  obtain t d where td: "td = (t, d)" by (cases td)
  show "watching (unwatch_connection c hub) td = (\<lambda>(t, d). if d = c then None else watching hub (t, d)) td"
  proof (cases "map_of hub t")
    case (Some ws)
    have "map_of (AList.delete c ws) d = (if d = c then None else map_of ws d)" by simp
    then show ?thesis using Some assms by (auto simp: td watching_def map_of_unwatch hub_ok_def simp del: map_of_delete)
  qed (use assms in \<open>simp add: td watching_def map_of_unwatch hub_ok_def\<close>)
qed

lemma publish_watching:
  assumes "hub_ok hub"
  shows "\<exists>cs. distinct cs \<and> set cs = {d. watching hub (to_lowercase uni n, d) \<noteq> None} \<and>
     publish uni n online hub = map (\<lambda>d. (the (watching hub (to_lowercase uni n, d)), Presence (to_lowercase uni n) online)) cs"
proof (cases "map_of hub (to_lowercase uni n)")
  case None
  then show ?thesis by (simp add: watching_def publish_def)
next
  case (Some ws)
  then have d: "keys_distinct ws" using assms by (simp add: hub_ok_def)
  have "set (map fst ws) = {d. map_of ws d \<noteq> None}" by (auto simp: map_of_eq_None_iff)
  moreover have "map snd ws = map (\<lambda>d. the (map_of ws d)) (map fst ws)" using d by (auto simp: case_prod_unfold)
  ultimately show ?thesis using d Some
    by (intro exI [of _ "map fst ws"]) (simp add: watching_def publish_def comp_def)
qed

text \<open>
  C31: the hub implements a set of watch interests. Watching adds one interest and answers with one presence frame
  on the watcher's egress; ending a connection removes exactly its interests; and a transition sends one presence
  frame for every interest in the node, in whatever order the map yields them, to no one else.
\<close>

theorem presence_hub_refines:
  assumes "hub_reach uni hub"
  shows "(case watch uni c target out online hub of (sent, hub') \<Rightarrow>
       watching hub' = (watching hub)((to_lowercase uni target, c) \<mapsto> out) \<and> sent = [(out, Presence (to_lowercase uni target) online)]) \<and>
     watching (unwatch_connection c hub) = (\<lambda>(t, d). if d = c then None else watching hub (t, d)) \<and>
     (\<exists>cs. distinct cs \<and> set cs = {d. watching hub (to_lowercase uni n, d) \<noteq> None} \<and>
       publish uni n online hub = map (\<lambda>d. (the (watching hub (to_lowercase uni n, d)), Presence (to_lowercase uni n) online)) cs)"
  using watching_watch [of uni c target out online hub] watching_unwatch [OF hub_reach_ok [OF assms]]
    publish_watching [OF hub_reach_ok [OF assms]] by (auto split: prod.split)

definition one_watcher :: presence_hub where
  "one_watcher = snd (watch id 7 ''N1'' 3 False hub_new)"

theorem presence_hub_refines_witness:
  "hub_reach id one_watcher \<and> watching one_watcher (''n1'', 7) = Some 3 \<and> watching (unwatch_connection 7 one_watcher) (''n1'', 7) = None"
proof -
  have r: "hub_reach id one_watcher" unfolding one_watcher_def by (intro hub_reach.intros)
  have low: "to_lowercase id ''N1'' = ''n1''" by (simp add: to_lowercase_def is_ascii_def ascii_lower_def char_of_def bit_0)
  obtain sent hub' where w: "watch id 7 ''N1'' 3 False hub_new = (sent, hub')" by fastforce
  have "watching hub' (''n1'', 7) = Some 3"
    using presence_hub_refines [OF hub_reach.fresh, where uni = id and c = 7 and target = "''N1''" and out = 3 and online = False]
    by (simp add: w low)
  moreover have "watching (unwatch_connection 7 one_watcher) (''n1'', 7) = None"
    using presence_hub_refines [OF r, where c = 7] by simp
  ultimately show ?thesis using r by (simp add: one_watcher_def w)
qed

end
