(* ===== verification/Enrollment.thy ===== *)
theory Enrollment
  imports Conn_Table
begin

text \<open>
  Relay enrollment, \<^verbatim>\<open>src/infra/relay_enrollment.rs\<close>, and the whitelist it writes, with the readers of the
  whitelist in \<^verbatim>\<open>src/infra/relay_server.rs\<close>. Third-party code is an argument: \<open>digest\<close> is SHA-256, \<open>b64\<close> the base64
  encoder, \<open>json\<close> and \<open>parse\<close> the JSON encoder and decoder of a list of token records. The file
  system is the list of its files, a path and its text; \<open>fault\<close> is an I/O error that an operation meets, if any. Times
  are Unix seconds.
\<close>

section \<open>Tokens\<close>

definition DEFAULT_INVITE_TTL :: u64 where "DEFAULT_INVITE_TTL = 15 * 60"
definition DEFAULT_DEPLOY_TTL :: u64 where "DEFAULT_DEPLOY_TTL = 30 * 24 * 60 * 60"

record minted_token =
  mt_token :: string
  mt_expires_at_unix :: u64
  mt_one_time :: bool

datatype redeem_outcome = EnrollOk bool | RedeemInvalid | RedeemExpired

record token_record =
  tr_token :: string
  tr_expires_at_unix :: u64
  tr_one_time :: bool

type_synonym token_store = "(string \<times> token_record) list"

definition store_new :: token_store where
  "store_new = []"

definition hex_digit :: "nat \<Rightarrow> char" where
  "hex_digit n = (if n < 10 then char_of (48 + n) else char_of (87 + n))"

definition token_key :: "(bytes \<Rightarrow> bytes) \<Rightarrow> string \<Rightarrow> string" where
  "token_key digest token =
     concat (map (\<lambda>b. [hex_digit (unat b div 16), hex_digit (unat b mod 16)]) (digest (as_bytes token)))"

text \<open>\<open>random\<close> is the 32 bytes drawn from the operating system; the expiry is a sum of \<^verbatim>\<open>u64\<close>s.\<close>

definition mint :: "(bytes \<Rightarrow> bytes) \<Rightarrow> (bytes \<Rightarrow> string) \<Rightarrow> bytes \<Rightarrow> bool \<Rightarrow> u64 \<Rightarrow> u64 \<Rightarrow> token_store \<Rightarrow> minted_token \<times> token_store" where
  "mint digest b64 random one_time ttl now store =
     (let token = b64 random; expires = now + ttl in
      (\<lparr>mt_token = token, mt_expires_at_unix = expires, mt_one_time = one_time\<rparr>,
       AList.update (token_key digest token)
         \<lparr>tr_token = token, tr_expires_at_unix = expires, tr_one_time = one_time\<rparr> store))"

definition redeem :: "(bytes \<Rightarrow> bytes) \<Rightarrow> string \<Rightarrow> u64 \<Rightarrow> token_store \<Rightarrow> redeem_outcome \<times> token_store" where
  "redeem digest token now store =
     (let key = token_key digest token in
      case map_of store key of
        None \<Rightarrow> (RedeemInvalid, store)
      | Some r \<Rightarrow>
          let store1 = (if tr_one_time r then AList.delete key store else store) in
          if tr_expires_at_unix r \<le> now
          then (RedeemExpired, if \<not> tr_one_time r then AList.delete key store1 else store1)
          else (EnrollOk (tr_one_time r), store1))"

section \<open>Files\<close>

type_synonym files = "(string \<times> string) list"

text \<open>\<^verbatim>\<open>Path::join\<close>: an absolute second path replaces the first.\<close>

definition path_join :: "string \<Rightarrow> string \<Rightarrow> string" where
  "path_join dir name = (if starts_with name ''/'' then name else dir @ ''/'' @ name)"

definition persist :: "(token_record list \<Rightarrow> string) \<Rightarrow> string option \<Rightarrow> string \<Rightarrow> u64 \<Rightarrow> token_store \<Rightarrow> files \<Rightarrow> string option \<times> files" where
  "persist json fault path now store fs =
     (let records = filter (\<lambda>r. now < tr_expires_at_unix r) (map snd store) in
      case fault of
        Some e \<Rightarrow> (Some e, fs)
      | None \<Rightarrow> (None, AList.update path (json records) fs))"

definition load_insert :: "(bytes \<Rightarrow> bytes) \<Rightarrow> u64 \<Rightarrow> token_record \<Rightarrow> token_store \<Rightarrow> token_store" where
  "load_insert digest now r store =
     (if tr_expires_at_unix r \<le> now then store else AList.update (token_key digest (tr_token r)) r store)"

definition load_tokens :: "(bytes \<Rightarrow> bytes) \<Rightarrow> (string \<Rightarrow> string + token_record list) \<Rightarrow> string option \<Rightarrow> string \<Rightarrow> u64 \<Rightarrow> files \<Rightarrow> string + token_store" where
  "load_tokens digest parse fault path now fs =
     (case map_of fs path of
        None \<Rightarrow> Inr store_new
      | Some text \<Rightarrow>
          (case fault of
             Some e \<Rightarrow> Inl e
           | None \<Rightarrow> (case parse text of
                        Inl e \<Rightarrow> Inl e
                      | Inr records \<Rightarrow> Inr (fold (load_insert digest now) records store_new))))"

section \<open>The whitelist\<close>

definition add_authorized_node :: "(string \<Rightarrow> string) \<Rightarrow> string option \<Rightarrow> string \<Rightarrow> string \<Rightarrow> string \<Rightarrow> files \<Rightarrow> string option \<times> files" where
  "add_authorized_node uni fault dir fingerprint cert_pem fs =
     (case fault of
        Some e \<Rightarrow> (Some e, fs)
      | None \<Rightarrow> (None, AList.update (path_join dir (to_lowercase uni fingerprint)) cert_pem fs))"

definition remove_authorized_node :: "(string \<Rightarrow> string) \<Rightarrow> string option \<Rightarrow> string \<Rightarrow> string \<Rightarrow> files \<Rightarrow> (string + bool) \<times> files" where
  "remove_authorized_node uni fault dir fingerprint fs =
     (let path = path_join dir (to_lowercase uni fingerprint) in
      case map_of fs path of
        None \<Rightarrow> (Inr False, fs)
      | Some _ \<Rightarrow> (case fault of Some e \<Rightarrow> (Inl e, fs) | None \<Rightarrow> (Inr True, AList.delete path fs)))"

text \<open>The names of the files that lie directly in a directory.\<close>

definition dir_names :: "string \<Rightarrow> files \<Rightarrow> string list" where
  "dir_names dir fs =
     map (\<lambda>(p, _). drop (length dir + 1) p)
       (filter (\<lambda>(p, _). starts_with p (dir @ ''/'') \<and> CHR ''/'' \<notin> set (drop (length dir + 1) p)) fs)"

definition authorized_node_fingerprints :: "(string \<Rightarrow> string) \<Rightarrow> string option \<Rightarrow> string \<Rightarrow> files \<Rightarrow> string + string list" where
  "authorized_node_fingerprints uni fault dir fs =
     (case fault of
        Some e \<Rightarrow> Inl e
      | None \<Rightarrow> Inr (map (to_lowercase uni) (dir_names dir fs)))"

definition is_authorized :: "(string \<Rightarrow> string) \<Rightarrow> string option \<Rightarrow> string \<Rightarrow> string \<Rightarrow> files \<Rightarrow> string + bool" where
  "is_authorized uni fault dir fingerprint fs =
     (case authorized_node_fingerprints uni fault dir fs of
        Inl e \<Rightarrow> Inl e
      | Inr whitelisted \<Rightarrow> Inr (\<exists>entry \<in> set whitelisted. eq_ignore_ascii_case entry fingerprint))"

datatype tls_error = BadEncoding | GeneralError string | UnknownIssuer

text \<open>\<open>fp_of\<close> is the fingerprint of a certificate, \<open>None\<close> for one that does not parse.\<close>

definition verify_client_cert :: "(bytes \<Rightarrow> string option) \<Rightarrow> (string \<Rightarrow> string) \<Rightarrow> string option \<Rightarrow> string \<Rightarrow> bytes \<Rightarrow> files \<Rightarrow> tls_error option" where
  "verify_client_cert fp_of uni fault dir cert fs =
     (case fp_of cert of
        None \<Rightarrow> Some BadEncoding
      | Some fingerprint \<Rightarrow>
          (case is_authorized uni fault dir fingerprint fs of
             Inl e \<Rightarrow> Some (GeneralError e)
           | Inr ok \<Rightarrow> if ok then None else Some UnknownIssuer))"

definition verify_any_client_cert :: "(bytes \<Rightarrow> string option) \<Rightarrow> bytes \<Rightarrow> tls_error option" where
  "verify_any_client_cert fp_of cert = (case fp_of cert of None \<Rightarrow> Some BadEncoding | Some _ \<Rightarrow> None)"

section \<open>The enrollment session\<close>

fun chunks64 :: "nat \<Rightarrow> string \<Rightarrow> string list" where
  "chunks64 0 s = []"
| "chunks64 (Suc n) s = (if s = [] then [] else take 64 s # chunks64 n (drop 64 s))"

definition newline :: string where
  "newline = [char_of (10 :: nat)]"

definition pem_encode_cert :: "(bytes \<Rightarrow> string) \<Rightarrow> bytes \<Rightarrow> string" where
  "pem_encode_cert b64 cert_der =
     (let encoded = b64 cert_der in
      ''-----BEGIN CERTIFICATE-----'' @ newline @
      concat (map (\<lambda>chunk. chunk @ newline) (chunks64 (length encoded) encoded)) @
      ''-----END CERTIFICATE-----'' @ newline)"

definition handle_enrollment_frame ::
  "(bytes \<Rightarrow> bytes) \<Rightarrow> (string \<Rightarrow> string) \<Rightarrow> string option \<Rightarrow> frame \<Rightarrow> string \<Rightarrow> string \<Rightarrow> string \<Rightarrow> string \<Rightarrow> u64 \<Rightarrow>
   token_store \<times> files \<Rightarrow> frame option \<times> token_store \<times> files" where
  "handle_enrollment_frame digest uni fault f peer_fingerprint peer_cert_pem whitelist_dir relay_fingerprint now st =
     (case f of
        Enroll token \<Rightarrow>
          (case redeem digest token now (fst st) of
             (EnrollOk _, store) \<Rightarrow>
               (case add_authorized_node uni fault whitelist_dir peer_fingerprint peer_cert_pem (snd st) of
                  (Some _, fs) \<Rightarrow> (None, store, fs)
                | (None, fs) \<Rightarrow> (Some (EnrollResponse relay_fingerprint), store, fs))
           | (RedeemInvalid, store) \<Rightarrow>
               (Some (Error 0 (code_wire_value TokenInvalid) ''enrollment token is unknown or already used''), store, snd st)
           | (RedeemExpired, store) \<Rightarrow>
               (Some (Error 0 (code_wire_value TokenExpired) ''enrollment token has expired''), store, snd st))
      | _ \<Rightarrow> (Some (Error 0 (code_wire_value TokenInvalid) ''first frame must be Enroll''), fst st, snd st))"

text \<open>
  \<^verbatim>\<open>run_enrollment_connection\<close> after the handshake: the certificate the peer presented, if any, and what reading
  the first frame within the deadline gave (\<open>None\<close> when the deadline passed).
\<close>

definition run_enrollment_connection ::
  "(bytes \<Rightarrow> bytes) \<Rightarrow> (bytes \<Rightarrow> string) \<Rightarrow> (bytes \<Rightarrow> string option) \<Rightarrow> (string \<Rightarrow> string) \<Rightarrow> string option \<Rightarrow> bytes option \<Rightarrow>
   (mux_error + frame) option \<Rightarrow> string \<Rightarrow> string \<Rightarrow> u64 \<Rightarrow> token_store \<times> files \<Rightarrow> frame option \<times> token_store \<times> files" where
  "run_enrollment_connection digest b64 fp_of uni fault cert first whitelist_dir relay_fingerprint now st =
     (case cert of
        None \<Rightarrow> (None, st)
      | Some der \<Rightarrow>
          (case fp_of der of
             None \<Rightarrow> (None, st)
           | Some fingerprint \<Rightarrow>
               (case first of
                  Some (Inr f) \<Rightarrow>
                    handle_enrollment_frame digest uni fault f fingerprint (pem_encode_cert b64 der) whitelist_dir
                      relay_fingerprint now st
                | _ \<Rightarrow> (None, st))))"

section \<open>Store invariant\<close>

definition store_ok :: "(bytes \<Rightarrow> bytes) \<Rightarrow> token_store \<Rightarrow> bool" where
  "store_ok digest store \<longleftrightarrow>
     keys_distinct store \<and> (\<forall>k r. map_of store k = Some r \<longrightarrow> k = token_key digest (tr_token r))"

lemma store_ok_new: "store_ok digest store_new"
  by (simp add: store_ok_def store_new_def)

lemma store_ok_update: "store_ok digest store \<Longrightarrow> store_ok digest (AList.update (token_key digest (tr_token r)) r store)"
  unfolding store_ok_def by (auto simp del: map_of_eq_Some_iff split: if_splits)

lemma store_ok_mint: "store_ok digest store \<Longrightarrow> store_ok digest (snd (mint digest b64 random one_time ttl now store))"
  using store_ok_update [of digest store "\<lparr>tr_token = b64 random, tr_expires_at_unix = now + ttl, tr_one_time = one_time\<rparr>"]
  by (simp add: mint_def Let_def)

lemma store_ok_delete: "store_ok digest store \<Longrightarrow> store_ok digest (AList.delete k store)"
  by (auto simp: store_ok_def split: if_splits)

lemma store_ok_redeem: "store_ok digest store \<Longrightarrow> store_ok digest (snd (redeem digest token now store))"
  by (simp add: redeem_def Let_def store_ok_delete split: option.splits)

lemma store_ok_load_insert: "store_ok digest store \<Longrightarrow> store_ok digest (load_insert digest now r store)"
  by (simp add: load_insert_def store_ok_update)

lemma store_ok_load: "load_tokens digest parse fault path now fs = Inr store \<Longrightarrow> store_ok digest store"
proof -
  have "store_ok digest (fold (load_insert digest now) rs st)" if "store_ok digest st" for rs st
    using that by (induction rs arbitrary: st) (auto simp: store_ok_load_insert)
  then show "load_tokens digest parse fault path now fs = Inr store \<Longrightarrow> store_ok digest store"
    by (auto simp: load_tokens_def store_ok_new split: option.splits sum.splits)
qed

text \<open>What a redemption does to the record of each token.\<close>

lemma map_of_redeem:
  "map_of (snd (redeem digest token now store)) k =
     (if k = token_key digest token
      then (case map_of store k of Some r \<Rightarrow> if tr_one_time r \<or> tr_expires_at_unix r \<le> now then None else Some r | None \<Rightarrow> None)
      else map_of store k)"
  by (auto simp: redeem_def Let_def split: option.splits)

lemma redeem_ok_iff:
  "fst (redeem digest token now store) = EnrollOk one_time \<longleftrightarrow>
     (\<exists>r. map_of store (token_key digest token) = Some r \<and> now < tr_expires_at_unix r \<and> tr_one_time r = one_time)"
  by (auto simp: redeem_def Let_def not_le split: option.splits)

section \<open>Properties\<close>

datatype store_op = SMint bytes bool u64 u64 | SRedeem string u64

text \<open>A run of the store: the outcome of every redemption, and the final store.\<close>

fun run_store :: "(bytes \<Rightarrow> bytes) \<Rightarrow> (bytes \<Rightarrow> string) \<Rightarrow> store_op list \<Rightarrow> token_store \<Rightarrow> (string \<times> u64 \<times> redeem_outcome) list \<times> token_store" where
  "run_store digest b64 [] store = ([], store)"
| "run_store digest b64 (SMint random one_time ttl now # ops) store =
     run_store digest b64 ops (snd (mint digest b64 random one_time ttl now store))"
| "run_store digest b64 (SRedeem token now # ops) store =
     (case redeem digest token now store of
        (out, store') \<Rightarrow> (case run_store digest b64 ops store' of (outs, store'') \<Rightarrow> ((token, now, out) # outs, store'')))"

definition attempts :: "(bytes \<Rightarrow> bytes) \<Rightarrow> string \<Rightarrow> (string \<times> u64 \<times> redeem_outcome) list \<Rightarrow> (u64 \<times> redeem_outcome) list" where
  "attempts digest key outs = map snd (filter (\<lambda>(token, _). token_key digest token = key) outs)"

definition mints_key :: "(bytes \<Rightarrow> bytes) \<Rightarrow> (bytes \<Rightarrow> string) \<Rightarrow> string \<Rightarrow> store_op list \<Rightarrow> bool" where
  "mints_key digest b64 key ops \<longleftrightarrow> list_ex (\<lambda>op. case op of SMint random _ _ _ \<Rightarrow> token_key digest (b64 random) = key | _ \<Rightarrow> False) ops"

lemma unknown_stays_invalid:
  assumes "map_of store key = None" "\<not> mints_key digest b64 key ops" "run_store digest b64 ops store = (outs, store')"
  shows "list_all (\<lambda>(_, out). out = RedeemInvalid) (attempts digest key outs) \<and> map_of store' key = None"
  using assms
proof (induction ops arbitrary: store outs)
  case (Cons op ops)
  show ?case
  proof (cases op)
    case (SMint random one_time ttl now)
    then have "map_of (snd (mint digest b64 random one_time ttl now store)) key = None"
      using Cons.prems(1,2) by (auto simp: mints_key_def mint_def Let_def)
    then show ?thesis using Cons.IH Cons.prems(2,3) SMint by (simp add: mints_key_def)
  next
    case (SRedeem token now)
    obtain out store1 where r: "redeem digest token now store = (out, store1)" by fastforce
    obtain outs1 where run: "run_store digest b64 ops store1 = (outs1, store')" "outs = (token, now, out) # outs1"
      using Cons.prems(3) SRedeem r by (auto split: prod.splits)
    have "map_of store1 key = None"
      using map_of_redeem [of digest token now store key] Cons.prems(1) by (simp add: r split: if_splits)
    moreover have "out = RedeemInvalid" if "token_key digest token = key"
      using r Cons.prems(1) that by (simp add: redeem_def Let_def)
    ultimately show ?thesis using Cons.IH [OF _ _ run(1)] Cons.prems(2) SRedeem run(2) by (simp add: mints_key_def attempts_def)
  qed
qed (simp add: attempts_def)

text \<open>
  C32: a one-time token works at most once. While the relay runs, and as long as its key is not minted again, the first
  attempt to redeem a one-time token decides it - success before its expiry, expired after - and every later
  attempt is invalid, whatever else is minted or redeemed in between.
\<close>

theorem one_time_token_single_use:
  assumes "map_of store key = Some r" "tr_one_time r" "\<not> mints_key digest b64 key ops" "run_store digest b64 ops store = (outs, store')"
  shows "attempts digest key outs = [] \<or>
     (\<exists>at rest. attempts digest key outs = (at, if at < tr_expires_at_unix r then EnrollOk True else RedeemExpired) # rest \<and>
        list_all (\<lambda>(_, out). out = RedeemInvalid) rest)"
  using assms
proof (induction ops arbitrary: store outs)
  case (Cons op ops)
  show ?case
  proof (cases op)
    case (SMint random one_time ttl now)
    then have "map_of (snd (mint digest b64 random one_time ttl now store)) key = Some r"
      using Cons.prems(1,3) by (auto simp: mints_key_def mint_def Let_def)
    then show ?thesis using Cons.IH [OF _ Cons.prems(2)] Cons.prems(3,4) SMint by (simp add: mints_key_def)
  next
    case (SRedeem token now)
    obtain out store1 where rd: "redeem digest token now store = (out, store1)" by fastforce
    obtain outs1 where run: "run_store digest b64 ops store1 = (outs1, store')" "outs = (token, now, out) # outs1"
      using Cons.prems(4) SRedeem rd by (auto split: prod.splits)
    have fresh: "\<not> mints_key digest b64 key ops" using Cons.prems(3) SRedeem by (simp add: mints_key_def)
    show ?thesis
    proof (cases "token_key digest token = key")
      case True
      then have "map_of store1 key = None" "out = (if now < tr_expires_at_unix r then EnrollOk True else RedeemExpired)"
        using map_of_redeem [of digest token now store key] rd Cons.prems(1,2) by (auto simp: redeem_def Let_def not_le split: if_splits)
      then show ?thesis using unknown_stays_invalid [OF _ fresh run(1)] True run(2) by (simp add: attempts_def)
    next
      case False
      then have "map_of store1 key = Some r"
        using map_of_redeem [of digest token now store key] rd Cons.prems(1) by simp
      then show ?thesis using Cons.IH [OF _ Cons.prems(2) fresh run(1)] False run(2) by (simp add: attempts_def)
    qed
  qed
qed (simp add: attempts_def)

lemma run_store_log:
  "run_store digest b64 ops store = (outs, store') \<Longrightarrow>
     map (\<lambda>(token, now, _). (token, now)) outs = concat (map (\<lambda>op. case op of SRedeem token now \<Rightarrow> [(token, now)] | _ \<Rightarrow> []) ops)"
proof (induction ops arbitrary: store outs)
  case (Cons op ops)
  then show ?case by (cases op) (auto split: prod.splits)
qed simp

theorem one_time_token_single_use_witness:
  "let store = snd (mint id chars_of [65] True 900 1000 store_new);
       outs = fst (run_store id chars_of [SRedeem ''A'' 1200, SRedeem ''B'' 1200, SRedeem ''A'' 1201] store)
   in attempts id ''41'' outs = [(1200, EnrollOk True), (1201, RedeemInvalid)]"
proof -
  let ?store = "snd (mint id chars_of [65] True 900 1000 store_new)"
  let ?ops = "[SRedeem ''A'' 1200, SRedeem ''B'' 1200, SRedeem ''A'' 1201]"
  have kA: "token_key id ''A'' = ''41''" "token_key id ''B'' = ''42''" "chars_of [65] = ''A''"
    by (simp_all add: token_key_def as_bytes_def chars_of_def hex_digit_def char_of_def bit_0)
  have st: "map_of ?store ''41'' = Some \<lparr>tr_token = ''A'', tr_expires_at_unix = 1900, tr_one_time = True\<rparr>"
    by (simp add: mint_def Let_def kA)
  obtain outs store' where run: "run_store id chars_of ?ops ?store = (outs, store')" by (cases "run_store id chars_of ?ops ?store")
  have "map (\<lambda>(token, now, _). (token, now)) outs = [(''A'', 1200), (''B'', 1200), (''A'', 1201)]"
    using run_store_log [OF run] by simp
  then obtain o1 o2 o3 where outs: "outs = [(''A'', 1200, o1), (''B'', 1200, o2), (''A'', 1201, o3)]"
    by (auto simp: map_eq_Cons_conv)
  have "attempts id ''41'' outs = [(1200, o1), (1201, o3)]" by (simp add: outs attempts_def kA)
  then have "o1 = EnrollOk True" "o3 = RedeemInvalid"
    using one_time_token_single_use [OF st _ _ run] by (auto simp: mints_key_def)
  then show ?thesis using run by (simp add: outs attempts_def kA)
qed

text \<open>Loading what was persisted.\<close>

definition live_records :: "u64 \<Rightarrow> token_store \<Rightarrow> token_record list" where
  "live_records now store = filter (\<lambda>r. now < tr_expires_at_unix r) (map snd store)"

lemma fold_load_insert:
  assumes "distinct (map (token_key digest \<circ> tr_token) rs)"
  shows "map_of (fold (load_insert digest now) rs st) k =
     (case find (\<lambda>r. token_key digest (tr_token r) = k \<and> now < tr_expires_at_unix r) rs of Some r \<Rightarrow> Some r | None \<Rightarrow> map_of st k)"
  using assms
proof (induction rs arbitrary: st)
  case (Cons r rs)
  have "find (\<lambda>r. token_key digest (tr_token r) = k \<and> now < tr_expires_at_unix r) rs = None" if "token_key digest (tr_token r) = k"
    using Cons.prems that by (metis (mono_tags, lifting) comp_apply distinct.simps(2) find_None_iff image_eqI list.set_map list.simps(9))
  then show ?case using Cons by (auto simp: load_insert_def not_le split: option.splits)
qed simp

lemma restart_store:
  assumes ok: "store_ok digest store" and codec: "parse (json (live_records now store)) = Inr (live_records now store)"
    and stored: "map_of fs path = Some (json (live_records now store))" and "now \<le> now'"
  obtains store' where "load_tokens digest parse None path now' fs = Inr store'" "store_ok digest store'"
    "\<And>k. map_of store' k = (case map_of store k of Some r \<Rightarrow> if now' < tr_expires_at_unix r then Some r else None | None \<Rightarrow> None)"
proof -
  define rs where "rs = live_records now store"
  define store' where "store' = fold (load_insert digest now') rs store_new"
  have load: "load_tokens digest parse None path now' fs = Inr store'"
    using stored codec by (simp add: load_tokens_def rs_def store'_def)
  have d: "keys_distinct store" using ok by (simp add: store_ok_def)
  have key: "token_key digest (tr_token r) = k" if "(k, r) \<in> set store" for k r
    using ok that unfolding store_ok_def by (metis map_of_is_SomeI)
  have "map (token_key digest \<circ> tr_token) (map snd store) = map fst store" using key by auto
  then have dist: "distinct (map (token_key digest \<circ> tr_token) rs)"
    unfolding rs_def live_records_def using d by (metis distinct_map_filter)
  have "map_of store' k = (case map_of store k of Some r \<Rightarrow> if now' < tr_expires_at_unix r then Some r else None | None \<Rightarrow> None)" for k
  proof (cases "find (\<lambda>r. token_key digest (tr_token r) = k \<and> now' < tr_expires_at_unix r) rs")
    case None
    have "\<not> now' < tr_expires_at_unix r" if "map_of store k = Some r" for r
    proof
      assume "now' < tr_expires_at_unix r"
      moreover have "(k, r) \<in> set store" using that by (rule map_of_SomeD)
      ultimately have "r \<in> set rs" "token_key digest (tr_token r) = k" using key assms(4) by (force simp: rs_def live_records_def)+
      then show False using None \<open>now' < tr_expires_at_unix r\<close> by (auto simp: find_None_iff)
    qed
    then show ?thesis using None by (auto simp: store'_def fold_load_insert [OF dist] store_new_def split: option.splits)
  next
    case (Some r)
    then have "r \<in> set rs" "token_key digest (tr_token r) = k" "now' < tr_expires_at_unix r" by (auto simp: find_Some_iff)
    then have "map_of store k = Some r" using key d by (auto simp: rs_def live_records_def)
    then show ?thesis using Some \<open>now' < tr_expires_at_unix r\<close> by (simp add: store'_def fold_load_insert [OF dist])
  qed
  then show thesis using that load store_ok_load [OF load] by blast
qed

lemma persist_stores: "persist json None path now store fs = (None, AList.update path (json (live_records now store)) fs)"
  by (simp add: persist_def live_records_def Let_def)

text \<open>
  C33: unexpired tokens survive a restart. Loading the file that was persisted gives back exactly the tokens of the store
  that are not expired at load time, with their expiry and kind, for a JSON codec that decodes what it encoded.
\<close>

theorem restart_keeps_live_tokens:
  assumes "store_ok digest store" "parse (json (live_records now store)) = Inr (live_records now store)"
    "persist json None path now store fs = (None, fs')" "now \<le> now'"
  shows "\<exists>store'. load_tokens digest parse None path now' fs' = Inr store' \<and> store_ok digest store' \<and>
     (\<forall>k. map_of store' k = (case map_of store k of Some r \<Rightarrow> if now' < tr_expires_at_unix r then Some r else None | None \<Rightarrow> None))"
proof -
  have "map_of fs' path = Some (json (live_records now store))" using assms(3) by (auto simp: persist_stores)
  from restart_store [of digest store parse json now, OF assms(1,2) this assms(4)] show ?thesis by blast
qed

definition invited :: token_store where
  "invited = snd (mint id chars_of [65] True 900 1000 store_new)"

lemma invited: "invited = [(''41'', \<lparr>tr_token = ''A'', tr_expires_at_unix = 1900, tr_one_time = True\<rparr>)]" "store_ok id invited"
proof -
  show "store_ok id invited" unfolding invited_def by (rule store_ok_mint [OF store_ok_new])
qed (simp add: invited_def mint_def store_new_def Let_def token_key_def as_bytes_def chars_of_def hex_digit_def char_of_def bit_0)

theorem restart_keeps_live_tokens_witness:
  "\<exists>store'. load_tokens id (\<lambda>_. Inr (live_records 1000 invited)) None ''t'' 1200 [(''t'', ''x'')] = Inr store' \<and>
     map_of store' ''41'' = Some \<lparr>tr_token = ''A'', tr_expires_at_unix = 1900, tr_one_time = True\<rparr>"
proof -
  have "persist (\<lambda>_. ''x'') None ''t'' 1000 invited [] = (None, [(''t'', ''x'')])" by (simp add: persist_def Let_def)
  from restart_keeps_live_tokens [OF invited(2) refl this, of 1200] show ?thesis by (auto simp: invited(1))
qed

text \<open>
  C34: a used one-time token works again after a restart. An invite writes the token file, a redemption does not: after a peer
  has enrolled with a one-time token, a relay restarted from its files accepts the same token again, from any
  peer, until the token expires.
\<close>

theorem one_time_token_replays_after_restart:
  assumes "store_ok digest store" "mint digest b64 random True ttl now store = (m, store1)"
    and "persist json None path now store1 fs = (None, fs1)" "parse (json (live_records now store1)) = Inr (live_records now store1)"
    and "handle_enrollment_frame digest uni None (Enroll (mt_token m)) fp pem dir rfp now2 (store1, fs1) = (resp, store2, fs2)"
    and "path \<noteq> path_join dir (to_lowercase uni fp)"
    and "now < mt_expires_at_unix m" "now2 < mt_expires_at_unix m" "now \<le> now3" "now3 < mt_expires_at_unix m" "now4 < mt_expires_at_unix m"
  shows "resp = Some (EnrollResponse rfp) \<and> fst (redeem digest (mt_token m) now4 store2) = RedeemInvalid \<and>
     (\<exists>store3. load_tokens digest parse None path now3 fs2 = Inr store3 \<and>
        fst (handle_enrollment_frame digest uni None (Enroll (mt_token m)) fp' pem' dir rfp now4 (store3, fs2)) = Some (EnrollResponse rfp))"
proof -
  define tok where "tok = mt_token m"
  define r where "r = \<lparr>tr_token = tok, tr_expires_at_unix = mt_expires_at_unix m, tr_one_time = True\<rparr>"
  have ok: "store_ok digest store1" using store_ok_mint [OF assms(1)] assms(2) by (metis snd_conv)
  have m1: "map_of store1 (token_key digest tok) = Some r" using assms(2) by (auto simp: mint_def Let_def r_def tok_def)
  obtain store2' where rd: "redeem digest tok now2 store1 = (EnrollOk True, store2')"
    using redeem_ok_iff [of digest tok now2 store1 True] m1 assms(8) by (cases "redeem digest tok now2 store1") (auto simp: r_def)
  have h: "resp = Some (EnrollResponse rfp)" "store2 = store2'" "fs2 = AList.update (path_join dir (to_lowercase uni fp)) pem fs1"
    using assms(5) rd by (auto simp: handle_enrollment_frame_def add_authorized_node_def tok_def [symmetric])
  have "map_of store2 (token_key digest tok) = None"
    using map_of_redeem [of digest tok now2 store1 "token_key digest tok"] rd m1 h(2) by (simp add: r_def)
  then have used: "fst (redeem digest tok now4 store2) = RedeemInvalid" by (simp add: redeem_def Let_def)
  have "map_of fs2 path = Some (json (live_records now store1))" using assms(3,6) h(3) by (auto simp: persist_stores)
  from restart_store [of digest store1 parse json now, OF ok assms(4) this assms(9)]
  obtain store3 where ld: "load_tokens digest parse None path now3 fs2 = Inr store3"
    "\<And>k. map_of store3 k = (case map_of store1 k of Some r \<Rightarrow> if now3 < tr_expires_at_unix r then Some r else None | None \<Rightarrow> None)"
    by blast
  have "map_of store3 (token_key digest tok) = Some r" using ld(2) m1 assms(10) by (simp add: r_def)
  then have "fst (redeem digest tok now4 store3) = EnrollOk True" using assms(11) by (simp add: redeem_ok_iff r_def)
  then have "fst (handle_enrollment_frame digest uni None (Enroll tok) fp' pem' dir rfp now4 (store3, fs2)) = Some (EnrollResponse rfp)"
    by (cases "redeem digest tok now4 store3") (simp add: handle_enrollment_frame_def add_authorized_node_def)
  then show ?thesis using h(1) used ld(1) unfolding tok_def by blast
qed

theorem one_time_token_replays_after_restart_witness:
  "\<exists>store3. load_tokens id (\<lambda>_. Inr (live_records 1000 invited)) None ''t'' 1200 [(''t'', ''x''), (''/w/aa'', ''p'')] = Inr store3 \<and>
     fst (handle_enrollment_frame id id None (Enroll ''A'') ''bb'' ''q'' ''/w'' ''ff'' 1300 (store3, [(''t'', ''x''), (''/w/aa'', ''p'')])) =
       Some (EnrollResponse ''ff'')"
proof -
  have low: "to_lowercase id ''aa'' = ''aa''" by (simp add: to_lowercase_def is_ascii_def ascii_lower_def)
  have A: "chars_of [65] = ''A''" by (simp add: chars_of_def char_of_def bit_0)
  obtain m store1 where mt: "mint id chars_of [65] True 900 1000 store_new = (m, store1)" by fastforce
  then have m: "mt_token m = ''A''" "mt_expires_at_unix m = 1900" "store1 = invited"
    by (auto simp: mint_def Let_def A invited_def)
  have p: "persist (\<lambda>_. ''x'') None ''t'' 1000 store1 [] = (None, [(''t'', ''x'')])" by (simp add: persist_def Let_def)
  obtain resp store2 fs2 where h: "handle_enrollment_frame id id None (Enroll (mt_token m)) ''aa'' ''p'' ''/w'' ''ff'' 1100 (store1, [(''t'', ''x'')]) = (resp, store2, fs2)"
    by (metis surj_pair)
  have "fst (redeem id ''A'' 1100 invited) = EnrollOk True"
    by (simp add: redeem_ok_iff invited(1) token_key_def as_bytes_def hex_digit_def char_of_def bit_0)
  then have "fs2 = [(''t'', ''x''), (''/w/aa'', ''p'')]"
    using h by (cases "redeem id ''A'' 1100 invited")
      (simp add: m handle_enrollment_frame_def add_authorized_node_def low path_join_def starts_with_def)
  then show ?thesis
    using one_time_token_replays_after_restart [OF store_ok_new mt p _ h, of "\<lambda>_. Inr (live_records 1000 invited)" 1200 1300 "''bb''" "''q''"] m
    by (simp add: low path_join_def starts_with_def)
qed

section \<open>Whitelist\<close>

definition fp_ok :: "string \<Rightarrow> bool" where
  "fp_ok fp \<longleftrightarrow> is_ascii fp \<and> CHR ''/'' \<notin> set fp"

lemma mem_dir_names: "n \<in> set (dir_names dir fs) \<longleftrightarrow> CHR ''/'' \<notin> set n \<and> dir @ ''/'' @ n \<in> fst ` set fs"
  by (force simp: dir_names_def starts_with_iff image_iff)

lemma ascii_lower_idem [simp]: "ascii_lower (ascii_lower c) = ascii_lower c"
  by (auto simp: ascii_lower_def Let_def)

lemma is_ascii_lower [simp]: "is_ascii s \<Longrightarrow> is_ascii (map ascii_lower s)"
  by (auto simp: is_ascii_def list_all_iff ascii_lower_def Let_def)

lemma ascii_lower_slash: "ascii_lower c = CHR ''/'' \<longleftrightarrow> c = CHR ''/''"
proof
  assume "ascii_lower c = CHR ''/''"
  then have n: "(of_char (ascii_lower c) :: nat) = 47" by simp
  show "c = CHR ''/''"
  proof (cases "65 \<le> (of_char c :: nat) \<and> of_char c \<le> (90 :: nat)")
    case True
    then have "(of_char (ascii_lower c) :: nat) = of_char c + 32" by (simp add: ascii_lower_def)
    then show ?thesis using n True by linarith
  next
    case False
    then show ?thesis using \<open>ascii_lower c = CHR ''/''\<close> by (auto simp: ascii_lower_def)
  qed
qed (simp add: ascii_lower_def)

lemma slash_lower: "CHR ''/'' \<in> set (map ascii_lower s) \<longleftrightarrow> CHR ''/'' \<in> set s"
  by (metis ascii_lower_slash imageE imageI list.set_map)

lemma path_join_fp:
  assumes "fp_ok fp"
  shows "path_join dir (to_lowercase uni fp) = dir @ ''/'' @ map ascii_lower fp" "CHR ''/'' \<notin> set (map ascii_lower fp)"
proof -
  show ns: "CHR ''/'' \<notin> set (map ascii_lower fp)" using assms slash_lower by (simp add: fp_ok_def)
  have "\<not> starts_with (map ascii_lower fp) ''/''" using ns by (auto simp: starts_with_iff)
  then show "path_join dir (to_lowercase uni fp) = dir @ ''/'' @ map ascii_lower fp"
    using assms by (simp add: path_join_def to_lowercase_def fp_ok_def)
qed

lemma dir_names_add:
  "CHR ''/'' \<notin> set n \<Longrightarrow> set (dir_names dir (AList.update (dir @ CHR ''/'' # n) v fs)) = insert n (set (dir_names dir fs))"
  by (auto simp: mem_dir_names AList.dom_update)

lemma dir_names_remove:
  "set (dir_names dir (AList.delete (dir @ CHR ''/'' # n) fs)) = set (dir_names dir fs) - {n}"
proof -
  have "fst ` set (AList.delete k fs) = fst ` set fs - {k}" for k
    using arg_cong [OF AList.delete_keys, of set k fs] by simp
  then show ?thesis by (auto simp: mem_dir_names)
qed

lemma is_authorized_iff:
  "is_authorized uni None dir fp fs = Inr (\<exists>n \<in> set (dir_names dir fs). eq_ignore_ascii_case (to_lowercase uni n) fp)"
  by (simp add: is_authorized_def authorized_node_fingerprints_def)

text \<open>The names other than the one the relay writes that also authorize the fingerprint, such as one put there in capitals.\<close>

definition other_spelling :: "(string \<Rightarrow> string) \<Rightarrow> string \<Rightarrow> string \<Rightarrow> files \<Rightarrow> bool" where
  "other_spelling uni dir fp fs \<longleftrightarrow>
     (\<exists>n \<in> set (dir_names dir fs). n \<noteq> map ascii_lower fp \<and> eq_ignore_ascii_case (to_lowercase uni n) fp)"

lemma eq_ignore_lower: "is_ascii fp \<Longrightarrow> eq_ignore_ascii_case (to_lowercase uni (map ascii_lower fp)) fp' \<longleftrightarrow> eq_ignore_ascii_case fp' fp"
  by (auto simp: to_lowercase_def eq_ignore_ascii_case_def comp_def)

lemma eq_ignore_trans: "eq_ignore_ascii_case a b \<Longrightarrow> eq_ignore_ascii_case x a \<longleftrightarrow> eq_ignore_ascii_case x b"
  by (simp add: eq_ignore_ascii_case_def)

lemma enroll_names:
  assumes "fp_ok fp" "handle_enrollment_frame digest uni fault f fp pem dir rfp now (store, fs) = (resp, store', fs')"
  shows "resp = Some (EnrollResponse rfp) \<longleftrightarrow>
       fault = None \<and> (\<exists>token one. f = Enroll token \<and> fst (redeem digest token now store) = EnrollOk one)"
    and "set (dir_names dir fs') =
       (if resp = Some (EnrollResponse rfp) then insert (map ascii_lower fp) (set (dir_names dir fs)) else set (dir_names dir fs))"
proof -
  note pj = path_join_fp [OF assms(1)]
  show "resp = Some (EnrollResponse rfp) \<longleftrightarrow>
       fault = None \<and> (\<exists>token one. f = Enroll token \<and> fst (redeem digest token now store) = EnrollOk one)"
    using assms(2) by (auto simp: handle_enrollment_frame_def add_authorized_node_def
      split: frame.splits prod.splits redeem_outcome.splits option.splits)
  show "set (dir_names dir fs') =
       (if resp = Some (EnrollResponse rfp) then insert (map ascii_lower fp) (set (dir_names dir fs)) else set (dir_names dir fs))"
    using assms(2) by (auto simp: handle_enrollment_frame_def add_authorized_node_def pj(1) dir_names_add [OF pj(2)]
      split: frame.splits prod.splits redeem_outcome.splits option.splits)
qed

lemma remove_names:
  assumes "fp_ok fp" "remove_authorized_node uni fault dir fp fs = (removed, fs')"
  shows "removed = (if map ascii_lower fp \<in> set (dir_names dir fs) then case fault of Some e \<Rightarrow> Inl e | None \<Rightarrow> Inr True else Inr False)"
    and "set (dir_names dir fs') =
       (if removed = Inr True then set (dir_names dir fs) - {map ascii_lower fp} else set (dir_names dir fs))"
proof -
  note pj = path_join_fp [OF assms(1)]
  have mem: "map ascii_lower fp \<in> set (dir_names dir fs) \<longleftrightarrow> map_of fs (dir @ ''/'' @ map ascii_lower fp) \<noteq> None"
    using pj(2) by (simp add: mem_dir_names map_of_eq_None_iff)
  show "removed = (if map ascii_lower fp \<in> set (dir_names dir fs) then case fault of Some e \<Rightarrow> Inl e | None \<Rightarrow> Inr True else Inr False)"
    using assms(2) mem by (auto simp: remove_authorized_node_def pj(1) Let_def split: option.splits)
  show "set (dir_names dir fs') =
       (if removed = Inr True then set (dir_names dir fs) - {map ascii_lower fp} else set (dir_names dir fs))"
    using assms(2) by (auto simp: remove_authorized_node_def pj(1) Let_def dir_names_remove split: option.splits)
qed



end
