(* ===== verification/Relay_Admin.thy ===== *)
theory Relay_Admin
  imports Capacity Presence_Hub Enrollment "HOL-Library.List_Lexorder" "HOL-Library.Char_ord"
begin

text \<open>
  Relay administration: the local admin socket, \<^verbatim>\<open>src/infra/relay_admin.rs\<close>, and the node channel,
  \<^verbatim>\<open>src/infra/relay_remote_admin.rs\<close>. The record \<open>relay\<close> is the state the relay's tasks share; \<open>env\<close> holds what stays
  fixed while it runs and the third-party functions it calls: the JSON codecs, the debug form of a string, the hash and base64
  encoders. A handler returns, besides its answer, the frames it passes to \<^verbatim>\<open>try_send\<close>.
\<close>

section \<open>State\<close>

record token_ttls =
  ttl_invite :: u64
  ttl_deploy :: u64

definition default_ttls :: token_ttls where
  "default_ttls = \<lparr>ttl_invite = DEFAULT_INVITE_TTL, ttl_deploy = DEFAULT_DEPLOY_TTL\<rparr>"

record relay =
  r_table :: conn_table
  r_routing :: routing_table
  r_meter :: usage_meter
  r_presence :: presence_hub
  r_tokens :: token_store
  r_files :: files
  r_now :: nat
  r_unix :: u64
  r_shutdown :: bool

type_synonym posts = "(ingress \<times> frame) list"

section \<open>Requests and answers\<close>

record admin_request =
  ar_command :: string
  ar_ttl_secs :: "u64 option"
  ar_deploy :: "bool option"
  ar_fingerprint :: "string option"
  ar_label :: "string option"
  ar_labels :: "string list option"

datatype admin_command = AStatus | AShutdown | AInvite "u64 option" bool | ARemove string

record admin_node_entry =
  an_node_id :: string
  an_idle_ms :: nat

record admin_status =
  as_listen :: string
  as_registered_nodes :: nat
  as_nodes :: "admin_node_entry list"
  as_capacity :: capacity_config
  as_usage :: relay_usage
  as_version :: string

record admin_response =
  rs_ok :: bool
  rs_listen :: "string option"
  rs_registered_nodes :: "nat option"
  rs_nodes :: "admin_node_entry list option"
  rs_capacity :: "capacity_config option"
  rs_usage :: "relay_usage option"
  rs_version :: "string option"
  rs_message :: "string option"
  rs_error :: "string option"

record remote_status =
  st_listen :: string
  st_uptime_ms :: nat
  st_registered_nodes :: nat
  st_nodes :: "admin_node_entry list"
  st_capacity :: capacity_config
  st_usage :: relay_usage

record remote_response =
  rr_ok :: bool
  rr_status :: "remote_status option"
  rr_whitelist :: "string list option"
  rr_node :: "(string \<times> string list) option"
  rr_message :: "string option"
  rr_error :: "string option"

record env =
  e_digest :: "bytes \<Rightarrow> bytes"
  e_b64 :: "bytes \<Rightarrow> string"
  e_json :: "token_record list \<Rightarrow> string"
  e_uni :: "string \<Rightarrow> string"
  e_debug :: "string \<Rightarrow> string"
  e_parse :: "string \<Rightarrow> string + admin_request"
  e_encode :: "remote_response \<Rightarrow> string"
  e_fault :: "string option"
  e_listen :: string
  e_version :: string
  e_tokens_path :: string
  e_whitelist_dir :: string
  e_ttls :: token_ttls
  e_capacity :: capacity_config
  e_started_at :: nat

definition response_status :: "admin_status \<Rightarrow> admin_response" where
  "response_status s = \<lparr>rs_ok = True, rs_listen = Some (as_listen s), rs_registered_nodes = Some (as_registered_nodes s),
     rs_nodes = Some (as_nodes s), rs_capacity = Some (as_capacity s), rs_usage = Some (as_usage s),
     rs_version = Some (as_version s), rs_message = None, rs_error = None\<rparr>"

definition response_message :: "string \<Rightarrow> admin_response" where
  "response_message m = \<lparr>rs_ok = True, rs_listen = None, rs_registered_nodes = None, rs_nodes = None, rs_capacity = None,
     rs_usage = None, rs_version = None, rs_message = Some m, rs_error = None\<rparr>"

definition response_shutdown :: admin_response where
  "response_shutdown = \<lparr>rs_ok = True, rs_listen = None, rs_registered_nodes = None, rs_nodes = None, rs_capacity = None,
     rs_usage = None, rs_version = None, rs_message = Some ''shutting down'', rs_error = None\<rparr>"

definition response_error :: "string \<Rightarrow> admin_response" where
  "response_error m = \<lparr>rs_ok = False, rs_listen = None, rs_registered_nodes = None, rs_nodes = None, rs_capacity = None,
     rs_usage = None, rs_version = None, rs_message = None, rs_error = Some m\<rparr>"

section \<open>The local admin socket\<close>

definition parse_relay_admin_command :: "env \<Rightarrow> string \<Rightarrow> string + admin_command" where
  "parse_relay_admin_command env body =
     (case e_parse env body of
        Inl e \<Rightarrow> Inl (''invalid admin request: '' @ e)
      | Inr request \<Rightarrow>
          if ar_command request = ''status'' then Inr AStatus
          else if ar_command request = ''shutdown'' then Inr AShutdown
          else if ar_command request = ''invite'' then
            Inr (AInvite (ar_ttl_secs request) (case ar_deploy request of Some d \<Rightarrow> d | None \<Rightarrow> False))
          else if ar_command request = ''remove'' then
            (case ar_fingerprint request of
               None \<Rightarrow> Inl ''remove requires a `fingerprint` field''
             | Some fingerprint \<Rightarrow> Inr (ARemove fingerprint))
          else Inl (''unknown admin command: '' @ e_debug env (ar_command request)))"

definition handle_relay_admin_command :: "admin_command \<Rightarrow> admin_status \<Rightarrow> admin_response" where
  "handle_relay_admin_command command s =
     (case command of
        AStatus \<Rightarrow> response_status s
      | AShutdown \<Rightarrow> response_shutdown
      | _ \<Rightarrow> response_error ''internal error: enrollment command reached the pure handler'')"

fun show_nat :: "nat \<Rightarrow> string" where
  "show_nat n = (if n < 10 then [char_of (48 + n)] else show_nat (n div 10) @ [char_of (48 + n mod 10)])"

declare show_nat.simps [simp del]

definition handle_invite :: "env \<Rightarrow> bytes \<Rightarrow> u64 option \<Rightarrow> bool \<Rightarrow> relay \<Rightarrow> admin_response \<times> relay" where
  "handle_invite env random ttl_secs deploy r =
     (let (ttl, one_time) = (case (deploy, ttl_secs) of
            (True, Some secs) \<Rightarrow> (secs, False)
          | (True, None) \<Rightarrow> (ttl_deploy (e_ttls env), False)
          | (False, Some secs) \<Rightarrow> (secs, True)
          | (False, None) \<Rightarrow> (ttl_invite (e_ttls env), True));
          (minted, store) = mint (e_digest env) (e_b64 env) random one_time ttl (r_unix r) (r_tokens r);
          (_, fs) = persist (e_json env) (e_fault env) (e_tokens_path env) (r_unix r) store (r_files r);
          kind = (if mt_one_time minted then ''one-time invite token'' else ''deploy token (reusable until expiry)'')
      in (response_message (''token: '' @ mt_token minted @ newline @ ''expires_at: '' @
            show_nat (unat (mt_expires_at_unix minted)) @ newline @ ''kind: '' @ kind),
          r\<lparr>r_tokens := store, r_files := fs\<rparr>))"

definition handle_remove :: "env \<Rightarrow> string \<Rightarrow> relay \<Rightarrow> admin_response \<times> posts \<times> relay" where
  "handle_remove env fingerprint r =
     (case remove_authorized_node (e_uni env) (e_fault env) (e_whitelist_dir env) fingerprint (r_files r) of
        (Inl e, _) \<Rightarrow> (response_error (''remove '' @ fingerprint @ '': '' @ e), [], r)
      | (Inr removed_from_whitelist, fs) \<Rightarrow>
          (case retire_notifying (to_lowercase (e_uni env) fingerprint) NodeRevoked (r_table r) of
             (notice, table) \<Rightarrow>
               let retired = (notice \<noteq> None);
                   sent = (case notice of
                             Some p \<Rightarrow> p # publish (e_uni env) (to_lowercase (e_uni env) fingerprint) False (r_presence r)
                           | None \<Rightarrow> []);
                   detail = (if removed_from_whitelist
                             then (if retired then ''whitelist entry removed; live link dropped''
                                   else ''whitelist entry removed; no live link'')
                             else (if retired then ''no whitelist entry; live link dropped''
                                   else ''no whitelist entry; no live link''))
               in (response_message (''removed: '' @ fingerprint @ '' ('' @ detail @ '')''), sent,
                   r\<lparr>r_table := table, r_files := fs\<rparr>)))"

definition node_entries :: "nat \<Rightarrow> conn_table \<Rightarrow> admin_node_entry list" where
  "node_entries now t = map (\<lambda>(node_id, _, idle_ms). \<lparr>an_node_id = node_id, an_idle_ms = idle_ms\<rparr>) (snapshot now t)"

text \<open>One request on the local socket: its answer, the frames sent, and the state after it.\<close>

definition admin_request_turn :: "env \<Rightarrow> bytes \<Rightarrow> string \<Rightarrow> relay \<Rightarrow> admin_response \<times> posts \<times> relay" where
  "admin_request_turn env random body r =
     (case parse_relay_admin_command env (trim body) of
        Inr AStatus \<Rightarrow>
          (case bytes_this_window (r_now r) (r_meter r) of
             (n, meter) \<Rightarrow>
               (handle_relay_admin_command AStatus
                  \<lparr>as_listen = e_listen env, as_registered_nodes = table_len (r_table r),
                   as_nodes = node_entries (r_now r) (r_table r), as_capacity = e_capacity env,
                   as_usage = \<lparr>registered_nodes = table_len (r_table r), active_streams = stream_count (r_routing r),
                               forwarded_bytes_per_sec = n\<rparr>,
                   as_version = e_version env\<rparr>, [], r\<lparr>r_meter := meter\<rparr>))
      | Inr AShutdown \<Rightarrow>
          (handle_relay_admin_command AShutdown
             \<lparr>as_listen = e_listen env, as_registered_nodes = 0, as_nodes = [], as_capacity = e_capacity env,
              as_usage = \<lparr>registered_nodes = 0, active_streams = 0, forwarded_bytes_per_sec = 0\<rparr>,
              as_version = e_version env\<rparr>, [], r\<lparr>r_shutdown := True\<rparr>)
      | Inr (AInvite ttl_secs deploy) \<Rightarrow>
          (case handle_invite env random ttl_secs deploy r of (resp, r') \<Rightarrow> (resp, [], r'))
      | Inr (ARemove fingerprint) \<Rightarrow> handle_remove env fingerprint r
      | Inl message \<Rightarrow> (response_error message, [], r))"

section \<open>The node channel\<close>

definition MAX_ANNOUNCE_LABELS :: nat where "MAX_ANNOUNCE_LABELS = 8"
definition MAX_LABEL_LEN :: nat where "MAX_LABEL_LEN = 64"

datatype remote_command =
    RStatus | RListWhitelist | RAnnounce "string list" | RResolveNode string
  | RInvite "u64 option" bool | RRemove string | RUnsupported string

fun announce_loop :: "string list \<Rightarrow> string list \<Rightarrow> string + string list" where
  "announce_loop [] parsed = Inr parsed"
| "announce_loop (raw # labels) parsed =
     (let label = trim raw in
      if label = [] then Inl ''announce labels must be non-empty''
      else if MAX_LABEL_LEN < length label then
        Inl (''announce labels are at most '' @ show_nat MAX_LABEL_LEN @ '' bytes, got '' @ show_nat (length label))
      else announce_loop labels (if label \<in> set parsed then parsed else parsed @ [label]))"

definition parse_announce_labels :: "string list \<Rightarrow> string + string list" where
  "parse_announce_labels labels =
     (if labels = [] then Inl ''announce requires a non-empty `labels` array''
      else if MAX_ANNOUNCE_LABELS < length labels then
        Inl (''announce accepts at most '' @ show_nat MAX_ANNOUNCE_LABELS @ '' labels, got '' @ show_nat (length labels))
      else announce_loop labels [])"

definition parse_remote_fallback :: "env \<Rightarrow> string \<Rightarrow> string + remote_command" where
  "parse_remote_fallback env body =
     (case parse_relay_admin_command env body of
        Inl e \<Rightarrow> Inl e
      | Inr AStatus \<Rightarrow> Inr RStatus
      | Inr (AInvite ttl_secs deploy) \<Rightarrow> Inr (RInvite ttl_secs deploy)
      | Inr (ARemove fingerprint) \<Rightarrow> Inr (RRemove fingerprint)
      | Inr AShutdown \<Rightarrow>
          Inr (RUnsupported ''shutdown is not supported over the node channel; use the local admin socket''))"

definition parse_remote_admin_command :: "env \<Rightarrow> string \<Rightarrow> string + remote_command" where
  "parse_remote_admin_command env body =
     (case e_parse env body of
        Inl _ \<Rightarrow> parse_remote_fallback env body
      | Inr request \<Rightarrow>
          if ar_command request = ''list-whitelist'' then Inr RListWhitelist
          else if ar_command request = ''announce'' then
            (case ar_labels request of
               None \<Rightarrow> Inl ''announce requires a `labels` array''
             | Some labels \<Rightarrow> map_sum id RAnnounce (parse_announce_labels labels))
          else if ar_command request = ''resolve-node'' then
            (case ar_label request of
               Some label \<Rightarrow> if trim label = [] then Inl ''resolve-node requires a `label` field'' else Inr (RResolveNode label)
             | None \<Rightarrow> Inl ''resolve-node requires a `label` field'')
          else parse_remote_fallback env body)"

definition build_status_snapshot :: "env \<Rightarrow> relay \<Rightarrow> remote_status \<times> relay" where
  "build_status_snapshot env r =
     (case bytes_this_window (r_now r) (r_meter r) of
        (n, meter) \<Rightarrow>
          (\<lparr>st_listen = e_listen env, st_uptime_ms = r_now r - e_started_at env, st_registered_nodes = table_len (r_table r),
            st_nodes = node_entries (r_now r) (r_table r), st_capacity = e_capacity env,
            st_usage = \<lparr>registered_nodes = table_len (r_table r), active_streams = stream_count (r_routing r),
                        forwarded_bytes_per_sec = n\<rparr>\<rparr>, r\<lparr>r_meter := meter\<rparr>))"

definition remote_empty :: "bool \<Rightarrow> remote_response" where
  "remote_empty ok = \<lparr>rr_ok = ok, rr_status = None, rr_whitelist = None, rr_node = None, rr_message = None, rr_error = None\<rparr>"

definition message_envelope :: "admin_response \<Rightarrow> remote_response" where
  "message_envelope local = (remote_empty (rs_ok local))\<lparr>rr_message := rs_message local, rr_error := rs_error local\<rparr>"

definition handle_remote_admin_request ::
  "env \<Rightarrow> bytes \<Rightarrow> string \<Rightarrow> u64 \<Rightarrow> remote_command \<Rightarrow> relay \<Rightarrow> remote_response \<times> posts \<times> relay" where
  "handle_remote_admin_request env random node_id connection_id command r =
     (case command of
        RStatus \<Rightarrow> (case build_status_snapshot env r of (s, r') \<Rightarrow> ((remote_empty True)\<lparr>rr_status := Some s\<rparr>, [], r'))
      | RListWhitelist \<Rightarrow>
          (case authorized_node_fingerprints (e_uni env) (e_fault env) (e_whitelist_dir env) (r_files r) of
             Inr fingerprints \<Rightarrow> ((remote_empty True)\<lparr>rr_whitelist := Some (sort fingerprints)\<rparr>, [], r)
           | Inl e \<Rightarrow> ((remote_empty False)\<lparr>rr_error := Some (''list-whitelist: '' @ e)\<rparr>, [], r))
      | RAnnounce labels \<Rightarrow>
          ((remote_empty True)\<lparr>rr_message := Some (''announced: '' @ show_nat (length labels) @ '' label(s)'')\<rparr>, [],
           r\<lparr>r_table := set_labels node_id connection_id labels (r_table r)\<rparr>)
      | RResolveNode label \<Rightarrow>
          ((case resolve_label (e_uni env) label (r_table r) of
              Unique n ls \<Rightarrow> (remote_empty True)\<lparr>rr_node := Some (n, ls)\<rparr>
            | NoMatch \<Rightarrow> (remote_empty False)\<lparr>rr_error := Some (''no registered node matches label '' @ e_debug env label)\<rparr>
            | Ambiguous count \<Rightarrow>
                (remote_empty False)\<lparr>rr_error := Some (''label '' @ e_debug env label @ '' matches '' @ show_nat count @
                  '' registered nodes; refine the host label'')\<rparr>), [], r)
      | RInvite ttl_secs deploy \<Rightarrow>
          (case handle_invite env random ttl_secs deploy r of (local, r') \<Rightarrow> (message_envelope local, [], r'))
      | RRemove fingerprint \<Rightarrow>
          (case handle_remove env fingerprint r of (local, sent, r') \<Rightarrow> (message_envelope local, sent, r'))
      | RUnsupported reason \<Rightarrow> ((remote_empty False)\<lparr>rr_error := Some reason\<rparr>, [], r))"

definition remote_admin_response :: "env \<Rightarrow> bytes \<Rightarrow> string \<Rightarrow> u64 \<Rightarrow> string \<Rightarrow> relay \<Rightarrow> string \<times> posts \<times> relay" where
  "remote_admin_response env random node_id connection_id body r =
     (case parse_remote_admin_command env body of
        Inr command \<Rightarrow>
          (case handle_remote_admin_request env random node_id connection_id command r of
             (resp, sent, r') \<Rightarrow> (e_encode env resp, sent, r'))
      | Inl message \<Rightarrow> (e_encode env ((remote_empty False)\<lparr>rr_error := Some message\<rparr>), [], r))"

section \<open>Properties\<close>

lemma set_labels_foreign:
  "map_of (ct_entries t) m = Some e \<Longrightarrow> ce_connection_id e \<noteq> c \<Longrightarrow> map_of (ct_entries (set_labels n c ls t)) m = Some e"
  using links.foreign_act [of t m e c "OpLabels ls" n] by simp

lemma map_sum_Inr_iff: "map_sum f g s = Inr y \<longleftrightarrow> (\<exists>x. s = Inr x \<and> y = g x)"
  by (cases s) auto

text \<open>A request the local grammar rejects changes at most the labels of the requesting link's own entry.\<close>

lemma remote_only_commands:
  assumes "parse_relay_admin_command env body = Inl e" "parse_remote_admin_command env body = Inr command"
  shows "command = RListWhitelist \<or> (\<exists>ls. command = RAnnounce ls) \<or> (\<exists>l. command = RResolveNode l)"
  using assms
  by (auto simp: parse_remote_admin_command_def parse_remote_fallback_def map_sum_Inr_iff split: sum.splits if_splits option.splits)

lemma shared_commands:
  assumes "parse_relay_admin_command env body = Inr local"
  shows "parse_remote_admin_command env body = parse_remote_fallback env body"
  using assms by (auto simp: parse_remote_admin_command_def parse_relay_admin_command_def split: sum.splits if_splits)

text \<open>
  C36: the node channel is the local admin socket without shutdown. For a request body without surrounding white space: a
  node's request never stops the relay; a shutdown request changes nothing and is refused; invite and remove do
  exactly what the local socket does - same state, same frames sent, same message; and a request only the node channel
  knows changes no file, no token, no route and no table entry of another connection.
\<close>

theorem node_channel_is_local_admin:
  assumes "remote_admin_response env random node_id c body r = (answer, sent, r')" "trim body = body"
  shows "r_shutdown r' = r_shutdown r \<and>
     (case parse_relay_admin_command env body of
        Inr AShutdown \<Rightarrow> r' = r \<and> sent = [] \<and> answer = e_encode env ((remote_empty False)
          \<lparr>rr_error := Some ''shutdown is not supported over the node channel; use the local admin socket''\<rparr>)
      | Inr AStatus \<Rightarrow> sent = [] \<and> r' = snd (snd (admin_request_turn env random body r))
      | Inr _ \<Rightarrow> (case admin_request_turn env random body r of (resp, sent1, r1) \<Rightarrow>
          answer = e_encode env (message_envelope resp) \<and> sent = sent1 \<and> r' = r1)
      | Inl _ \<Rightarrow> sent = [] \<and> r_files r' = r_files r \<and> r_tokens r' = r_tokens r \<and> r_routing r' = r_routing r \<and>
          (\<forall>m e. map_of (ct_entries (r_table r)) m = Some e \<and> ce_connection_id e \<noteq> c \<longrightarrow>
             map_of (ct_entries (r_table r')) m = Some e))"
proof (cases "parse_relay_admin_command env body")
  case (Inl e)
  show ?thesis
  proof (cases "parse_remote_admin_command env body")
    case bad: (Inl e')
    then show ?thesis using assms(1) Inl by (auto simp: remote_admin_response_def)
  next
    case (Inr command)
    from remote_only_commands [OF Inl this] show ?thesis
      using assms(1) Inl Inr by (auto simp: remote_admin_response_def handle_remote_admin_request_def set_labels_foreign split: sum.splits)
  qed
next
  case (Inr local)
  note parse = shared_commands [OF Inr]
  show ?thesis
  proof (cases local)
    case AStatus
    then show ?thesis using assms Inr parse
      by (auto simp: remote_admin_response_def handle_remote_admin_request_def parse_remote_fallback_def admin_request_turn_def
          build_status_snapshot_def split: prod.splits)
  next
    case AShutdown
    then show ?thesis using assms Inr parse
      by (auto simp: remote_admin_response_def handle_remote_admin_request_def parse_remote_fallback_def)
  next
    case (AInvite ttl_secs deploy)
    then show ?thesis using assms Inr parse
      by (auto simp: remote_admin_response_def handle_remote_admin_request_def parse_remote_fallback_def admin_request_turn_def
          handle_invite_def Let_def split: prod.splits)
  next
    case (ARemove fingerprint)
    have "r_shutdown (snd (snd (handle_remove env fingerprint r))) = r_shutdown r"
      by (auto simp: handle_remove_def Let_def split: prod.splits sum.splits)
    then show ?thesis using assms Inr parse ARemove
      by (auto simp: remote_admin_response_def handle_remote_admin_request_def parse_remote_fallback_def admin_request_turn_def split: prod.splits)
  qed
qed

definition stop_env :: env where
  "stop_env = \<lparr>e_digest = id, e_b64 = chars_of, e_json = (\<lambda>_. ''x''), e_uni = id, e_debug = id,
     e_parse = (\<lambda>_. Inr \<lparr>ar_command = ''shutdown'', ar_ttl_secs = None, ar_deploy = None, ar_fingerprint = None, ar_label = None, ar_labels = None\<rparr>),
     e_encode = (\<lambda>resp. if rr_ok resp then ''ok'' else ''no''), e_fault = None, e_listen = ''l'', e_version = ''v'', e_tokens_path = ''t'',
     e_whitelist_dir = ''/w'', e_ttls = default_ttls, e_capacity = default_capacity, e_started_at = 0\<rparr>"

definition idle_relay :: relay where
  "idle_relay = \<lparr>r_table = table_new, r_routing = [], r_meter = meter_new 0, r_presence = hub_new, r_tokens = store_new,
     r_files = [], r_now = 0, r_unix = 0, r_shutdown = False\<rparr>"

theorem node_channel_is_local_admin_witness:
  "remote_admin_response stop_env [] ''n1'' 0 ''x'' idle_relay = (''no'', [], idle_relay)"
proof -
  obtain answer sent r' where ra: "remote_admin_response stop_env [] ''n1'' 0 ''x'' idle_relay = (answer, sent, r')" by (metis surj_pair)
  have t: "trim ''x'' = ''x''" by (rule trim_id; simp add: graphic_def)
  have p: "parse_relay_admin_command stop_env ''x'' = Inr AShutdown" by (simp add: parse_relay_admin_command_def stop_env_def)
  have "answer = ''no''" "sent = []" "r' = idle_relay"
    using node_channel_is_local_admin [OF ra t] by (simp_all add: p, simp add: stop_env_def remote_empty_def)
  then show ?thesis using ra by simp
qed

end
