(* ===== verification/Relay_Link.thy ===== *)
theory Relay_Link
  imports Scheduler Relay_Admin
begin

text \<open>
  The relay's link tasks, \<^verbatim>\<open>src/infra/relay_link.rs\<close>, and the eviction sweep of \<^verbatim>\<open>src/infra/relay_server.rs\<close>. The state \<open>net\<close> is
  the shared relay state, the egress scheduler of every link, the task of every link, the queue of lifecycle events and the
  evicted entries the sweeper still has to announce. A link is named by the number of its egress. A step of a task is one
  critical section on the shared tables with the signals and events the code sends right after it; an egress that is full
  makes its sender wait in \<open>LSending\<close>. An administration command is a single step, although the code takes
  its locks one after the other.
\<close>

section \<open>State\<close>

text \<open>
  A frame a task is sending with \<^verbatim>\<open>send().await\<close>, with what the code does afterwards: a reply on the own link, the
  refusal of a registration, a forwarded data or window frame with the local stream id and the bytes to meter, a forwarded
  close, and the open request to a target.
\<close>

datatype job =
    JReply frame
  | JRefuse frame
  | JForward ingress frame u32 nat
  | JNotify ingress frame
  | JOpen ingress frame u32

datatype link_phase =
    LAwaitRegister
  | LRegLookup string
  | LRegLen string
  | LRegInsert string
  | LRegPublish
  | LServing
  | LUnregPublish
  | LWatch string bool
  | LOpenLookup u32 string
  | LOpenAdmit u32 routing_target
  | LOpenAlloc u32 routing_target
  | LOpenRoute u32 routing_target u32
  | LSending job
  | LEpiRemove
  | LEpiPublish
  | LEpiUnwatch
  | LEpiTeardown
  | LEpiNotify "(ingress \<times> u32) list"
  | LDone

record link_task =
  lk_fingerprint :: string
  lk_registered :: "(string \<times> u64) option"
  lk_phase :: link_phase

record net =
  n_relay :: relay
  n_links :: "ingress \<Rightarrow> link_sched"
  n_tasks :: "ingress \<Rightarrow> link_task"
  n_events :: "lifecycle_event chan"
  n_evicted :: "(string \<times> conn_entry) list"
  n_accepted :: nat

text \<open>What a task's \<^verbatim>\<open>select!\<close> or timed read yields.\<close>

datatype link_input = InFrame "mux_error + frame" | InRetire | InDeadline

section \<open>Sending\<close>

definition link_post :: "ingress \<times> frame \<Rightarrow> net \<Rightarrow> net" where
  "link_post p net = (case p of (i, f) \<Rightarrow> net\<lparr>n_links := (n_links net)(i := fst (ingress_try_send f (n_links net i)))\<rparr>)"

definition post_all :: "posts \<Rightarrow> net \<Rightarrow> net" where
  "post_all ps net = fold link_post ps net"

definition emit_event :: "lifecycle_event \<Rightarrow> net \<Rightarrow> net" where
  "emit_event ev net = net\<lparr>n_events := fst (chan_try_send ev (n_events net))\<rparr>"

definition goto :: "ingress \<Rightarrow> link_phase \<Rightarrow> net \<Rightarrow> net" where
  "goto i ph net = net\<lparr>n_tasks := (n_tasks net)(i := (n_tasks net i)\<lparr>lk_phase := ph\<rparr>)\<rparr>"

definition with_relay :: "(relay \<Rightarrow> relay) \<Rightarrow> net \<Rightarrow> net" where
  "with_relay g net = net\<lparr>n_relay := g (n_relay net)\<rparr>"

definition stream_error :: "u32 \<Rightarrow> relay_error_code \<Rightarrow> string \<Rightarrow> frame" where
  "stream_error sid code message = Error sid (code_wire_value code) message"

text \<open>The egress a job sends to, its frame, and the phase after success and after a closed egress.\<close>

fun job_peer :: "job \<Rightarrow> ingress option" where
  "job_peer (JForward j f sid n) = Some j"
| "job_peer (JNotify j f) = Some j"
| "job_peer (JOpen j f sid) = Some j"
| "job_peer _ = None"

definition job_target :: "ingress \<Rightarrow> job \<Rightarrow> ingress" where
  "job_target i job = (case job_peer job of Some j \<Rightarrow> j | None \<Rightarrow> i)"

fun job_frame :: "job \<Rightarrow> frame" where
  "job_frame (JReply f) = f"
| "job_frame (JRefuse f) = f"
| "job_frame (JForward j f sid n) = f"
| "job_frame (JNotify j f) = f"
| "job_frame (JOpen j f sid) = f"

fun job_sent :: "job \<Rightarrow> link_phase" where
  "job_sent (JRefuse f) = LDone"
| "job_sent _ = LServing"

fun job_failed :: "job \<Rightarrow> link_phase" where
  "job_failed (JRefuse f) = LDone"
| "job_failed (JForward j f sid n) = LSending (JReply (stream_error sid StreamUnknown ''peer link closed''))"
| "job_failed (JOpen j f sid) = LSending (JReply (stream_error sid TargetUnknown ''target link closed during open''))"
| "job_failed _ = LServing"

fun job_meter :: "job \<Rightarrow> relay \<Rightarrow> relay" where
  "job_meter (JForward j f sid n) r = (if 0 < n then r\<lparr>r_meter := meter_record (r_now r) n (r_meter r)\<rparr> else r)"
| "job_meter _ r = r"

definition sending_turn :: "ingress \<Rightarrow> job \<Rightarrow> net \<Rightarrow> net" where
  "sending_turn i job net =
     (let j = job_target i job in
      case ingress_try_send (job_frame job) (n_links net j) of
        (s, SendOk) \<Rightarrow> goto i (job_sent job) (with_relay (job_meter job) (net\<lparr>n_links := (n_links net)(j := s)\<rparr>))
      | (_, SendFull) \<Rightarrow> net
      | (_, SendClosed) \<Rightarrow> goto i (job_failed job) net)"

section \<open>Registration\<close>

definition register_first_frame :: "ingress \<Rightarrow> link_input \<Rightarrow> net \<Rightarrow> net" where
  "register_first_frame i input net =
     (case input of
        InFrame (Inr (Register node_id)) \<Rightarrow>
          if \<not> eq_ignore_ascii_case node_id (lk_fingerprint (n_tasks net i)) then goto i LDone net
          else goto i (LRegLookup node_id) net
      | InFrame _ \<Rightarrow> goto i LDone net
      | InDeadline \<Rightarrow> goto i LDone net
      | InRetire \<Rightarrow> net)"

definition register_len :: "env \<Rightarrow> ingress \<Rightarrow> string \<Rightarrow> net \<Rightarrow> net" where
  "register_len env i node_id net =
     (if \<not> admit_register (e_capacity env) (table_len (r_table (n_relay net)))
      then goto i (LSending (JRefuse (stream_error 0 NodeCapacity ''relay is at max_nodes capacity''))) net
      else goto i (LRegInsert node_id) net)"

definition register_insert :: "ingress \<Rightarrow> string \<Rightarrow> net \<Rightarrow> net" where
  "register_insert i node_id net =
     (let r = n_relay net; (c, previous, table) = register (r_now r) node_id i (r_table r);
          task = (n_tasks net i)\<lparr>lk_registered := Some (node_id, c)\<rparr>
      in case previous of
           Some entry \<Rightarrow>
             emit_event (Replaced node_id)
               (net\<lparr>n_relay := r\<lparr>r_table := retire (ce_connection_id entry) table\<rparr>,
                    n_tasks := (n_tasks net)(i := task\<lparr>lk_phase := LServing\<rparr>)\<rparr>)
         | None \<Rightarrow>
             emit_event (Registered node_id)
               (net\<lparr>n_relay := r\<lparr>r_table := table\<rparr>, n_tasks := (n_tasks net)(i := task\<lparr>lk_phase := LRegPublish\<rparr>)\<rparr>))"

section \<open>Dispatch\<close>

definition forward_routed :: "u64 \<Rightarrow> u32 \<Rightarrow> nat \<Rightarrow> (u32 \<Rightarrow> frame) \<Rightarrow> routing_table \<Rightarrow> link_phase" where
  "forward_routed c sid forwarded_bytes build legs =
     (case route_lookup \<lparr>rk_connection = c, rk_stream = sid\<rparr> legs of
        LookupOpen leg \<Rightarrow> LSending (JForward (leg_outbound leg) (build (rk_stream (leg_peer leg))) sid forwarded_bytes)
      | LookupClosed \<Rightarrow> LSending (JReply (stream_error sid StreamClosedCode ''stream is closed''))
      | LookupUnknown \<Rightarrow> LSending (JReply (stream_error sid StreamUnknown ''unknown stream'')))"

definition on_close_frame :: "ingress \<Rightarrow> u64 \<Rightarrow> u32 \<Rightarrow> net \<Rightarrow> net" where
  "on_close_frame i c sid net =
     (case close_leg \<lparr>rk_connection = c, rk_stream = sid\<rparr> (r_routing (n_relay net)) of
        (outcome, legs) \<Rightarrow>
          goto i (case outcome of
                    CloseForward leg \<Rightarrow> LSending (JNotify (leg_outbound leg) (Close (rk_stream (leg_peer leg))))
                  | CloseSwallow \<Rightarrow> LServing
                  | CloseUnknown \<Rightarrow> LSending (JReply (stream_error sid StreamUnknown ''unknown stream'')))
            (with_relay (\<lambda>r. r\<lparr>r_routing := legs\<rparr>) net))"

definition on_close_stream_frame :: "ingress \<Rightarrow> u64 \<Rightarrow> u32 \<Rightarrow> net \<Rightarrow> net" where
  "on_close_stream_frame i c sid net =
     (case teardown_pair \<lparr>rk_connection = c, rk_stream = sid\<rparr> (r_routing (n_relay net)) of
        (removed, legs) \<Rightarrow>
          goto i (case removed of
                    Some leg \<Rightarrow> LSending (JNotify (leg_outbound leg) (CloseStream (rk_stream (leg_peer leg))))
                  | None \<Rightarrow> LSending (JReply (stream_error sid StreamUnknown ''unknown stream'')))
            (with_relay (\<lambda>r. r\<lparr>r_routing := legs\<rparr>) net))"

definition on_unregister_frame :: "ingress \<Rightarrow> string \<Rightarrow> u64 \<Rightarrow> net \<Rightarrow> net" where
  "on_unregister_frame i node_id c net =
     (case remove_if_current node_id c (r_table (n_relay net)) of
        (True, table) \<Rightarrow>
          goto i LUnregPublish (emit_event (Unregistered node_id) (with_relay (\<lambda>r. r\<lparr>r_table := table\<rparr>) net))
      | (False, table) \<Rightarrow> goto i LEpiRemove net)"

definition on_admin_frame :: "env \<Rightarrow> bytes \<Rightarrow> ingress \<Rightarrow> string \<Rightarrow> u64 \<Rightarrow> u64 \<Rightarrow> string \<Rightarrow> net \<Rightarrow> net" where
  "on_admin_frame env random i node_id c seqno command net =
     (case remote_admin_response env random node_id c command (n_relay net) of
        (body, sent, r) \<Rightarrow> goto i (LSending (JReply (AdminResponse seqno body))) (post_all sent (net\<lparr>n_relay := r\<rparr>)))"

definition dispatch :: "env \<Rightarrow> bytes \<Rightarrow> ingress \<Rightarrow> string \<Rightarrow> u64 \<Rightarrow> frame \<Rightarrow> net \<Rightarrow> net" where
  "dispatch env random i node_id c f net =
     (let r = n_relay net in
      case f of
        Heartbeat \<Rightarrow> with_relay (\<lambda>r. r\<lparr>r_table := touch (r_now r) node_id c (r_table r)\<rparr>) net
      | Unregister \<Rightarrow> on_unregister_frame i node_id c net
      | Watch target \<Rightarrow> goto i (LWatch target (table_lookup target (r_table r) \<noteq> None)) net
      | AdminRequest seqno command \<Rightarrow> on_admin_frame env random i node_id c seqno command net
      | OpenStream sid target \<Rightarrow> if even (unat sid) then goto i LEpiRemove net else goto i (LOpenLookup sid target) net
      | Data sid payload \<Rightarrow> goto i (forward_routed c sid (length payload) (\<lambda>peer. Data peer payload) (r_routing r)) net
      | Window sid credit \<Rightarrow> goto i (forward_routed c sid 0 (\<lambda>peer. Window peer credit) (r_routing r)) net
      | Close sid \<Rightarrow> on_close_frame i c sid net
      | CloseStream sid \<Rightarrow> on_close_stream_frame i c sid net
      | _ \<Rightarrow> goto i LEpiRemove net)"

definition serving_turn :: "env \<Rightarrow> bytes \<Rightarrow> ingress \<Rightarrow> string \<Rightarrow> u64 \<Rightarrow> link_input \<Rightarrow> net \<Rightarrow> net" where
  "serving_turn env random i node_id c input net =
     (case input of
        InRetire \<Rightarrow> if c \<in> set (ct_retired (r_table (n_relay net))) then goto i LEpiRemove net else net
      | InFrame (Inr f) \<Rightarrow> dispatch env random i node_id c f net
      | InFrame (Inl _) \<Rightarrow> goto i LEpiRemove net
      | InDeadline \<Rightarrow> net)"

section \<open>Opening a stream\<close>

definition open_admit :: "env \<Rightarrow> ingress \<Rightarrow> u32 \<Rightarrow> routing_target \<Rightarrow> net \<Rightarrow> net" where
  "open_admit env i sid target net =
     (let r = n_relay net in
      case admit_open (e_capacity env) (stream_count (r_routing r)) (r_now r) (r_meter r) of
        (decision, meter) \<Rightarrow>
          goto i (case decision of
                    OpenAllow \<Rightarrow> LOpenAlloc sid target
                  | OpenStreamsFull \<Rightarrow> LSending (JReply (stream_error sid StreamCapacity ''relay is at max_streams capacity''))
                  | OpenThroughputExceeded \<Rightarrow>
                      LSending (JReply (stream_error sid ThroughputExceeded ''relay forwarded-throughput threshold exceeded'')))
            (with_relay (\<lambda>r. r\<lparr>r_meter := meter\<rparr>) net))"

definition open_alloc :: "ingress \<Rightarrow> u32 \<Rightarrow> routing_target \<Rightarrow> net \<Rightarrow> net" where
  "open_alloc i sid target net =
     (case fetch_relay_stream (rt_connection_id target) (r_table (n_relay net)) of
        (relay_sid, table) \<Rightarrow> goto i (LOpenRoute sid target relay_sid) (with_relay (\<lambda>r. r\<lparr>r_table := table\<rparr>) net))"

definition open_route :: "ingress \<Rightarrow> string \<Rightarrow> u64 \<Rightarrow> u32 \<Rightarrow> routing_target \<Rightarrow> u32 \<Rightarrow> net \<Rightarrow> net" where
  "open_route i node_id c sid target relay_sid net =
     (case route_open \<lparr>rk_connection = c, rk_stream = sid\<rparr> (rt_connection_id target) relay_sid (rt_outbound target) i
             (r_routing (n_relay net)) of
        (forward, legs) \<Rightarrow>
          goto i (LSending (JOpen (leg_outbound forward) (OpenStream relay_sid node_id) sid))
            (with_relay (\<lambda>r. r\<lparr>r_routing := legs\<rparr>) net))"

section \<open>One turn of a link task\<close>

text \<open>Before it is registered a task has no node id; the phases that use one are only reached with it.\<close>

definition link_turn :: "env \<Rightarrow> bytes \<Rightarrow> ingress \<Rightarrow> link_input \<Rightarrow> net \<Rightarrow> net" where
  "link_turn env random i input net =
     (let task = n_tasks net i; r = n_relay net;
          (node_id, c) = (case lk_registered task of Some p \<Rightarrow> p | None \<Rightarrow> ([], 0))
      in case lk_phase task of
           LAwaitRegister \<Rightarrow> register_first_frame i input net
         | LRegLookup n \<Rightarrow> goto i (if table_lookup n (r_table r) = None then LRegLen n else LRegInsert n) net
         | LRegLen n \<Rightarrow> register_len env i n net
         | LRegInsert n \<Rightarrow> register_insert i n net
         | LRegPublish \<Rightarrow> goto i LServing (post_all (publish (e_uni env) node_id True (r_presence r)) net)
         | LServing \<Rightarrow> serving_turn env random i node_id c input net
         | LUnregPublish \<Rightarrow> goto i LEpiRemove (post_all (publish (e_uni env) node_id False (r_presence r)) net)
         | LWatch target online \<Rightarrow>
             (case watch (e_uni env) c target i online (r_presence r) of
                (sent, hub) \<Rightarrow> goto i LServing (post_all sent (with_relay (\<lambda>r. r\<lparr>r_presence := hub\<rparr>) net)))
         | LOpenLookup sid target \<Rightarrow>
             goto i (case table_lookup target (r_table r) of
                       None \<Rightarrow> LSending (JReply (stream_error sid TargetUnknown ''target node is unknown or offline''))
                     | Some tg \<Rightarrow> LOpenAdmit sid tg) net
         | LOpenAdmit sid tg \<Rightarrow> open_admit env i sid tg net
         | LOpenAlloc sid tg \<Rightarrow> open_alloc i sid tg net
         | LOpenRoute sid tg relay_sid \<Rightarrow> open_route i node_id c sid tg relay_sid net
         | LSending job \<Rightarrow> sending_turn i job net
         | LEpiRemove \<Rightarrow>
             (case remove_if_current node_id c (r_table r) of
                (removed, table) \<Rightarrow>
                  goto i (if removed then LEpiPublish else LEpiUnwatch) (with_relay (\<lambda>r. r\<lparr>r_table := table\<rparr>) net))
         | LEpiPublish \<Rightarrow> goto i LEpiUnwatch (post_all (publish (e_uni env) node_id False (r_presence r)) net)
         | LEpiUnwatch \<Rightarrow>
             goto i LEpiTeardown (with_relay (\<lambda>r. r\<lparr>r_presence := unwatch_connection c (r_presence r)\<rparr>) net)
         | LEpiTeardown \<Rightarrow>
             (case teardown_connection c (r_routing r) of
                (peers, legs) \<Rightarrow> goto i (LEpiNotify peers) (with_relay (\<lambda>r. r\<lparr>r_routing := legs\<rparr>) net))
         | LEpiNotify peers \<Rightarrow> goto i LDone (post_all (map (\<lambda>(j, sid). (j, CloseStream sid)) peers) net)
         | LDone \<Rightarrow> net)"

section \<open>The sweep\<close>

definition evict_one :: "env \<Rightarrow> string \<times> conn_entry \<Rightarrow> net \<Rightarrow> net" where
  "evict_one env p net =
     (case p of
        (node_id, entry) \<Rightarrow>
          post_all (publish (e_uni env) node_id False (r_presence (n_relay net)))
            (emit_event (EvictedOffline node_id)
              (with_relay (\<lambda>r. r\<lparr>r_table := retire (ce_connection_id entry) (r_table r)\<rparr>)
                (link_post (ce_outbound entry, Error 0 (code_wire_value HeartbeatLost) (code_message HeartbeatLost)) net))))"

definition sweep_evict :: "lifecycle_config \<Rightarrow> net \<Rightarrow> net" where
  "sweep_evict lifecycle net =
     (case evict_idle (r_now (n_relay net)) (offline_after lifecycle) (r_table (n_relay net)) of
        (evicted, table) \<Rightarrow> (with_relay (\<lambda>r. r\<lparr>r_table := table\<rparr>) net)\<lparr>n_evicted := evicted\<rparr>)"

definition sweep_turn :: "env \<Rightarrow> lifecycle_config \<Rightarrow> net \<Rightarrow> net" where
  "sweep_turn env lifecycle net =
     (case n_evicted net of
        [] \<Rightarrow> sweep_evict lifecycle net
      | p # rest \<Rightarrow> evict_one env p (net\<lparr>n_evicted := rest\<rparr>))"

definition admin_turn :: "env \<Rightarrow> bytes \<Rightarrow> string \<Rightarrow> net \<Rightarrow> net" where
  "admin_turn env random body net =
     (case admin_request_turn env random body (n_relay net) of (_, sent, r) \<Rightarrow> post_all sent (net\<lparr>n_relay := r\<rparr>))"

definition enrollment_turn ::
  "env \<Rightarrow> (bytes \<Rightarrow> string option) \<Rightarrow> bytes option \<Rightarrow> (mux_error + frame) option \<Rightarrow> string \<Rightarrow> net \<Rightarrow> net" where
  "enrollment_turn env fp_of cert first relay_fingerprint net =
     (let r = n_relay net in
      case run_enrollment_connection (e_digest env) (e_b64 env) fp_of (e_uni env) (e_fault env) cert first
             (e_whitelist_dir env) relay_fingerprint (r_unix r) (r_tokens r, r_files r) of
        (_, tokens, fs) \<Rightarrow> net\<lparr>n_relay := r\<lparr>r_tokens := tokens, r_files := fs\<rparr>\<rparr>)"

definition accept_link :: "string \<Rightarrow> net \<Rightarrow> net" where
  "accept_link fingerprint net =
     (let i = n_accepted net in
      net\<lparr>n_links := (n_links net)(i := sched_spawn (default_config\<lparr>ingress_capacity := LINK_OUTBOUND_QUEUE\<rparr>)),
          n_tasks := (n_tasks net)(i := \<lparr>lk_fingerprint = fingerprint, lk_registered = None, lk_phase = LAwaitRegister\<rparr>),
          n_accepted := Suc i\<rparr>)"

definition EVENT_QUEUE :: nat where "EVENT_QUEUE = 128"

definition net_new :: "relay \<Rightarrow> net" where
  "net_new r = \<lparr>n_relay = r\<lparr>r_table := table_new, r_routing := [], r_presence := hub_new\<rparr>,
     n_links = (\<lambda>_. (sched_spawn default_config)\<lparr>ls_senders := False\<rparr>),
     n_tasks = (\<lambda>_. \<lparr>lk_fingerprint = [], lk_registered = None, lk_phase = LDone\<rparr>),
     n_events = chan_new EVENT_QUEUE, n_evicted = [], n_accepted = 0\<rparr>"

section \<open>Runs\<close>

text \<open>
  A clone of a link's egress handle is held by its own task, a table entry, a routing leg, a presence interest, an entry
  under eviction, or a task that is opening a stream or sending. The scheduler sees its senders gone when none is left.
\<close>

fun phase_holds :: "ingress \<Rightarrow> link_phase \<Rightarrow> bool" where
  "phase_holds i (LOpenAdmit sid tg) \<longleftrightarrow> rt_outbound tg = i"
| "phase_holds i (LOpenAlloc sid tg) \<longleftrightarrow> rt_outbound tg = i"
| "phase_holds i (LOpenRoute sid tg relay_sid) \<longleftrightarrow> rt_outbound tg = i"
| "phase_holds i (LSending job) \<longleftrightarrow> job_peer job = Some i"
| "phase_holds i (LEpiNotify peers) \<longleftrightarrow> i \<in> fst ` set peers"
| "phase_holds i _ \<longleftrightarrow> False"

definition egress_held :: "ingress \<Rightarrow> net \<Rightarrow> bool" where
  "egress_held i net \<longleftrightarrow>
     lk_phase (n_tasks net i) \<noteq> LDone \<or>
     (\<exists>k < n_accepted net. phase_holds i (lk_phase (n_tasks net k))) \<or>
     (\<exists>(n, e) \<in> set (ct_entries (r_table (n_relay net)) @ n_evicted net). ce_outbound e = i) \<or>
     (\<exists>(k, leg) \<in> set (r_routing (n_relay net)). leg_outbound leg = i) \<or>
     (\<exists>(target, ws) \<in> set (r_presence (n_relay net)). i \<in> snd ` set ws)"

inductive net_step :: "env \<Rightarrow> lifecycle_config \<Rightarrow> net \<Rightarrow> net \<Rightarrow> bool" for env lifecycle where
  accept: "net_step env lifecycle net (accept_link fingerprint net)"
| link: "ct_next_connection_id (r_table (n_relay net)) \<noteq> - 1 \<Longrightarrow> net_step env lifecycle net (link_turn env random i input net)"
| sweeper: "net_step env lifecycle net (sweep_turn env lifecycle net)"
| admin: "net_step env lifecycle net (admin_turn env random body net)"
| consumer: "net_step env lifecycle net (net\<lparr>n_links := (n_links net)(i := consumer_turn (n_links net i))\<rparr>)"
| writer: "net_step env lifecycle net (net\<lparr>n_links := (n_links net)(i := link_writer_turn failure (n_links net i))\<rparr>)"
| drop_senders: "\<not> egress_held i net \<Longrightarrow>
    net_step env lifecycle net (net\<lparr>n_links := (n_links net)(i := (n_links net i)\<lparr>ls_senders := False\<rparr>)\<rparr>)"
| time: "r_now (n_relay net) \<le> now \<Longrightarrow> net_step env lifecycle net (with_relay (\<lambda>r. r\<lparr>r_now := now, r_unix := unix\<rparr>) net)"
| enrollment: "net_step env lifecycle net (enrollment_turn env fp_of cert first relay_fingerprint net)"
| event_taken: "chan_recv (n_events net) = Some (event, events) \<Longrightarrow> net_step env lifecycle net (net\<lparr>n_events := events\<rparr>)"

inductive net_reach :: "env \<Rightarrow> lifecycle_config \<Rightarrow> net \<Rightarrow> bool" for env lifecycle where
  start: "net_reach env lifecycle (net_new r)"
| step: "net_reach env lifecycle net \<Longrightarrow> net_step env lifecycle net net' \<Longrightarrow> net_reach env lifecycle net'"

section \<open>Best-effort sending\<close>

text \<open>
  What a producer may rely on at an egress: an accepted frame is appended to what was accepted before, and a refused one
  changes nothing. Frames offered one after the other without waiting are then accepted in order, with some left out.
\<close>

locale egress =
  fixes offer :: "'f \<Rightarrow> 's \<Rightarrow> 's \<times> send_result" and accepted :: "'s \<Rightarrow> 'f list"
  assumes offer_ok: "offer f s = (s', SendOk) \<Longrightarrow> accepted s' = accepted s @ [f]"
    and offer_refused: "offer f s = (s', r) \<Longrightarrow> r \<noteq> SendOk \<Longrightarrow> s' = s"
begin

lemma offer_one: "accepted (fst (offer f s)) = accepted s @ [f] \<or> fst (offer f s) = s"
  using offer_ok offer_refused by (metis prod.collapse)

lemma offer_all:
  "\<exists>gs. subseq gs fs \<and> accepted (fold (\<lambda>f s. fst (offer f s)) fs s) = accepted s @ gs"
proof (induction fs arbitrary: s)
  case (Cons f fs)
  obtain gs where gs: "subseq gs fs"
    "accepted (fold (\<lambda>f s. fst (offer f s)) fs (fst (offer f s))) = accepted (fst (offer f s)) @ gs"
    using Cons.IH by blast
  from offer_one [of f s] show ?case
  proof
    assume "accepted (fst (offer f s)) = accepted s @ [f]"
    then show ?thesis using gs by (intro exI [of _ "f # gs"]) simp
  next
    assume "fst (offer f s) = s"
    then show ?thesis using gs by (intro exI [of _ gs]) auto
  qed
qed simp

end

interpretation sched_egress: egress ingress_try_send ls_sent
  by unfold_locales (auto simp: ingress_try_send_def split: if_splits prod.splits send_result.splits)

lemma post_all_links:
  "n_links (post_all ps net) i = fold (\<lambda>f s. fst (ingress_try_send f s)) (map snd (filter (\<lambda>p. fst p = i) ps)) (n_links net i)"
  unfolding post_all_def by (induction ps arbitrary: net) (auto simp: link_post_def split: prod.splits)

text \<open>Posting frames gives every link, in order, some of the frames addressed to it and nothing else.\<close>

lemma post_all_accepted:
  "\<exists>gs. subseq gs (map snd (filter (\<lambda>p. fst p = i) ps)) \<and> ls_sent (n_links (post_all ps net) i) = ls_sent (n_links net i) @ gs"
  unfolding post_all_links by (rule sched_egress.offer_all)

section \<open>Frame rules\<close>

named_theorems net_simps \<open>what the helpers leave alone\<close>

lemma link_post_frame [net_simps]:
  "n_relay (link_post p net) = n_relay net" "n_tasks (link_post p net) = n_tasks net"
  "n_evicted (link_post p net) = n_evicted net" "n_accepted (link_post p net) = n_accepted net"
  by (simp_all add: link_post_def split: prod.splits)

lemma post_all_frame [net_simps]:
  "n_relay (post_all ps net) = n_relay net" "n_tasks (post_all ps net) = n_tasks net"
  "n_evicted (post_all ps net) = n_evicted net" "n_accepted (post_all ps net) = n_accepted net"
  unfolding post_all_def by (induction ps arbitrary: net) (simp_all add: net_simps)

lemma emit_event_frame [net_simps]:
  "n_relay (emit_event ev net) = n_relay net" "n_tasks (emit_event ev net) = n_tasks net"
  "n_links (emit_event ev net) = n_links net" "n_evicted (emit_event ev net) = n_evicted net"
  "n_accepted (emit_event ev net) = n_accepted net"
  by (simp_all add: emit_event_def)

lemma goto_frame [net_simps]:
  "n_relay (goto i ph net) = n_relay net" "n_links (goto i ph net) = n_links net" "n_evicted (goto i ph net) = n_evicted net"
  "n_accepted (goto i ph net) = n_accepted net" "n_events (goto i ph net) = n_events net"
  "n_tasks (goto i ph net) = (n_tasks net)(i := (n_tasks net i)\<lparr>lk_phase := ph\<rparr>)"
  by (simp_all add: goto_def)

lemma with_relay_frame [net_simps]:
  "n_relay (with_relay g net) = g (n_relay net)" "n_tasks (with_relay g net) = n_tasks net"
  "n_links (with_relay g net) = n_links net" "n_evicted (with_relay g net) = n_evicted net"
  "n_accepted (with_relay g net) = n_accepted net" "n_events (with_relay g net) = n_events net"
  by (simp_all add: with_relay_def)

section \<open>Table operations that register nothing\<close>

text \<open>Every operation but \<open>register\<close> keeps the owner and the egress of the entries it leaves.\<close>

definition owners_kept :: "conn_table \<Rightarrow> conn_table \<Rightarrow> bool" where
  "owners_kept t t' \<longleftrightarrow>
     (table_ok t \<longrightarrow> table_ok t') \<and> ct_next_connection_id t' = ct_next_connection_id t \<and>
     (table_ok t \<longrightarrow> (\<forall>n e'. map_of (ct_entries t') n = Some e' \<longrightarrow>
        (\<exists>e. map_of (ct_entries t) n = Some e \<and> ce_connection_id e' = ce_connection_id e \<and> ce_outbound e' = ce_outbound e)))"

lemma owners_kept_refl [simp]: "owners_kept t t"
  by (simp add: owners_kept_def)

lemma retire_frame [simp]:
  "ct_entries (retire c t) = ct_entries t" "ct_next_connection_id (retire c t) = ct_next_connection_id t"
  by (simp_all add: retire_def)

lemma owners_kept_delete: "owners_kept t (retire c (t\<lparr>ct_entries := AList.delete n (ct_entries t)\<rparr>))"
  unfolding owners_kept_def table_ok_retire retire_frame
  by (auto simp: table_ok_delete simp del: map_of_eq_Some_iff split: if_splits)

lemma owners_kept_ops [simp]:
  "owners_kept t (touch now n c t)" "owners_kept t (retire c t)" "owners_kept t (snd (remove_if_current n c t))"
  "owners_kept t (snd (retire_notifying n code t))" "owners_kept t (set_labels n c ls t)"
  "owners_kept t (snd (fetch_relay_stream c t))" "owners_kept t (snd (evict_idle now d t))"
proof -
  show "owners_kept t (touch now n c t)" "owners_kept t (set_labels n c ls t)"
    by (auto simp: owners_kept_def touch_def set_labels_def table_ok_update split: option.splits)
  show "owners_kept t (retire c t)" by (simp add: owners_kept_def)
  show "owners_kept t (snd (remove_if_current n c t))" "owners_kept t (snd (retire_notifying n code t))"
    by (auto simp: remove_if_current_def retire_notifying_def owners_kept_delete split: option.splits if_splits)
  show "owners_kept t (snd (fetch_relay_stream c t))"
    by (simp add: owners_kept_def fetch_relay_stream_def Let_def table_ok_def)
  obtain out t' where ev: "evict_idle now d t = (out, t')" by (cases "evict_idle now d t")
  have "ct_next_connection_id t' = ct_next_connection_id t" using ev by (auto simp: evict_idle_def Let_def split: prod.splits)
  then show "owners_kept t (snd (evict_idle now d t))"
    using evict_idle_spec(1,3) [OF _ ev] ev by (auto simp: owners_kept_def split: option.splits if_splits)
qed

lemma admin_owners_kept [simp]:
  "owners_kept (r_table r) (r_table (snd (snd (handle_remove env fp r))))"
  "r_routing (snd (snd (handle_remove env fp r))) = r_routing r"
  "r_table (snd (handle_invite env random ttl dep r)) = r_table r"
  "r_routing (snd (handle_invite env random ttl dep r)) = r_routing r"
proof -
  show "owners_kept (r_table r) (r_table (snd (snd (handle_remove env fp r))))"
    using owners_kept_ops(4) [of "r_table r" "to_lowercase (e_uni env) fp" NodeRevoked]
    by (auto simp: handle_remove_def Let_def simp del: owners_kept_ops split: prod.splits sum.splits)
  show "r_routing (snd (snd (handle_remove env fp r))) = r_routing r"
    by (auto simp: handle_remove_def Let_def split: prod.splits sum.splits)
qed (simp_all add: handle_invite_def Let_def split: prod.splits)

lemma admin_request_keeps:
  "owners_kept (r_table r) (r_table (snd (snd (admin_request_turn env random body r))))"
  "r_routing (snd (snd (admin_request_turn env random body r))) = r_routing r"
  by (simp_all add: admin_request_turn_def case_prod_unfold split: sum.split admin_command.split)

lemma remote_admin_keeps:
  "owners_kept (r_table r) (r_table (snd (snd (remote_admin_response env random node_id c body r))))"
  "r_routing (snd (snd (remote_admin_response env random node_id c body r))) = r_routing r"
  by (simp_all add: remote_admin_response_def handle_remote_admin_request_def build_status_snapshot_def case_prod_unfold
      split: sum.split remote_command.split)

end
