(* ===== verification/Relay_Link_Props.thy ===== *)
theory Relay_Link_Props
  imports Relay_Link
begin

text \<open>
  What the relay's link tasks guarantee together (\<^verbatim>\<open>src/infra/relay_link.rs\<close>): an invariant of \<open>net_step\<close> that ties table entries,
  routes and pending sends to the links that own them, and from it the identities, the forwarding of data and the reach of a
  revocation.
\<close>

section \<open>Invariant\<close>

text \<open>
  Link \<open>i\<close> owns connection \<open>c\<close> when it registered under it. A task registers at most once, and only what it was given
  by the table or the routing table tells it where to send.
\<close>

definition owns :: "(ingress \<Rightarrow> link_task) \<Rightarrow> ingress \<Rightarrow> u64 \<Rightarrow> bool" where
  "owns tasks i c \<longleftrightarrow> (\<exists>n. lk_registered (tasks i) = Some (n, c))"

definition target_ok :: "(ingress \<Rightarrow> link_task) \<Rightarrow> routing_target \<Rightarrow> bool" where
  "target_ok tasks tg \<longleftrightarrow> owns tasks (rt_outbound tg) (rt_connection_id tg)"

definition leg_ok :: "(ingress \<Rightarrow> link_task) \<Rightarrow> route_leg \<Rightarrow> bool" where
  "leg_ok tasks leg \<longleftrightarrow> owns tasks (leg_outbound leg) (rk_connection (leg_peer leg))"

definition link_phase_ok :: "(ingress \<Rightarrow> link_task) \<Rightarrow> link_task \<Rightarrow> bool" where
  "link_phase_ok tasks task \<longleftrightarrow>
     (case lk_phase task of
        LAwaitRegister \<Rightarrow> lk_registered task = None
      | LRegLookup n \<Rightarrow> lk_registered task = None \<and> eq_ignore_ascii_case n (lk_fingerprint task)
      | LRegLen n \<Rightarrow> lk_registered task = None \<and> eq_ignore_ascii_case n (lk_fingerprint task)
      | LRegInsert n \<Rightarrow> lk_registered task = None \<and> eq_ignore_ascii_case n (lk_fingerprint task)
      | LOpenAdmit sid tg \<Rightarrow> lk_registered task \<noteq> None \<and> target_ok tasks tg
      | LOpenAlloc sid tg \<Rightarrow> lk_registered task \<noteq> None \<and> target_ok tasks tg
      | LOpenRoute sid tg relay_sid \<Rightarrow> lk_registered task \<noteq> None \<and> target_ok tasks tg
      | LSending (JRefuse f) \<Rightarrow> True
      | LDone \<Rightarrow> True
      | _ \<Rightarrow> lk_registered task \<noteq> None)"

definition net_inv :: "net \<Rightarrow> bool" where
  "net_inv net \<longleftrightarrow>
     table_ok (r_table (n_relay net)) \<and>
     (\<forall>n e. map_of (ct_entries (r_table (n_relay net))) n = Some e \<longrightarrow>
        lk_registered (n_tasks net (ce_outbound e)) = Some (n, ce_connection_id e)) \<and>
     (\<forall>i n c. lk_registered (n_tasks net i) = Some (n, c) \<longrightarrow>
        eq_ignore_ascii_case n (lk_fingerprint (n_tasks net i)) \<and> c < ct_next_connection_id (r_table (n_relay net)) \<and>
        i < n_accepted net) \<and>
     (\<forall>i j c. owns (n_tasks net) i c \<longrightarrow> owns (n_tasks net) j c \<longrightarrow> i = j) \<and>
     (\<forall>i. link_phase_ok (n_tasks net) (n_tasks net i)) \<and>
     (\<forall>leg \<in> snd ` set (r_routing (n_relay net)). leg_ok (n_tasks net) leg)"

lemma net_invD:
  assumes "net_inv net"
  shows "table_ok (r_table (n_relay net))"
    "\<And>n e. map_of (ct_entries (r_table (n_relay net))) n = Some e \<Longrightarrow>
       lk_registered (n_tasks net (ce_outbound e)) = Some (n, ce_connection_id e)"
    "\<And>i n c. lk_registered (n_tasks net i) = Some (n, c) \<Longrightarrow> eq_ignore_ascii_case n (lk_fingerprint (n_tasks net i))"
    "\<And>i n c. lk_registered (n_tasks net i) = Some (n, c) \<Longrightarrow> c < ct_next_connection_id (r_table (n_relay net))"
    "\<And>i n c. lk_registered (n_tasks net i) = Some (n, c) \<Longrightarrow> i < n_accepted net"
    "\<And>i j c. owns (n_tasks net) i c \<Longrightarrow> owns (n_tasks net) j c \<Longrightarrow> i = j"
    "\<And>i. link_phase_ok (n_tasks net) (n_tasks net i)"
    "\<And>leg. leg \<in> snd ` set (r_routing (n_relay net)) \<Longrightarrow> leg_ok (n_tasks net) leg"
proof -
  note parts = assms [unfolded net_inv_def, THEN conjunct2, THEN conjunct2]
  show "table_ok (r_table (n_relay net))" using assms by (simp add: net_inv_def)
  show "\<And>n e. map_of (ct_entries (r_table (n_relay net))) n = Some e \<Longrightarrow>
       lk_registered (n_tasks net (ce_outbound e)) = Some (n, ce_connection_id e)"
    using assms [unfolded net_inv_def, THEN conjunct2, THEN conjunct1] by blast
  show "\<And>i n c. lk_registered (n_tasks net i) = Some (n, c) \<Longrightarrow> eq_ignore_ascii_case n (lk_fingerprint (n_tasks net i))"
    "\<And>i n c. lk_registered (n_tasks net i) = Some (n, c) \<Longrightarrow> c < ct_next_connection_id (r_table (n_relay net))"
    "\<And>i n c. lk_registered (n_tasks net i) = Some (n, c) \<Longrightarrow> i < n_accepted net"
    using parts [THEN conjunct1] by blast+
  show "\<And>i j c. owns (n_tasks net) i c \<Longrightarrow> owns (n_tasks net) j c \<Longrightarrow> i = j"
    using parts [THEN conjunct2, THEN conjunct1] by blast
  show "\<And>i. link_phase_ok (n_tasks net) (n_tasks net i)"
    "\<And>leg. leg \<in> snd ` set (r_routing (n_relay net)) \<Longrightarrow> leg_ok (n_tasks net) leg"
    using parts [THEN conjunct2, THEN conjunct2] by blast+
qed

text \<open>Steps that register no link: the tasks' identities stay, and what is left to show concerns legs and phases.\<close>

definition same_identity :: "(ingress \<Rightarrow> link_task) \<Rightarrow> (ingress \<Rightarrow> link_task) \<Rightarrow> bool" where
  "same_identity ts ts' \<longleftrightarrow>
     (\<forall>i. lk_registered (ts' i) = lk_registered (ts i) \<and> lk_fingerprint (ts' i) = lk_fingerprint (ts i))"

lemma same_identity_ok:
  assumes "same_identity ts ts'"
  shows "owns ts' = owns ts" "leg_ok ts' = leg_ok ts" "target_ok ts' = target_ok ts" "link_phase_ok ts' = link_phase_ok ts"
proof -
  show o: "owns ts' = owns ts" using assms by (simp add: owns_def same_identity_def fun_eq_iff)
  show "leg_ok ts' = leg_ok ts" and t: "target_ok ts' = target_ok ts" by (simp_all add: leg_ok_def target_ok_def o fun_eq_iff)
  show "link_phase_ok ts' = link_phase_ok ts" unfolding link_phase_ok_def t ..
qed

lemma net_inv_keep:
  assumes inv: "net_inv net" and id: "same_identity (n_tasks net) (n_tasks net')" and acc: "n_accepted net' = n_accepted net"
    and table: "owners_kept (r_table (n_relay net)) (r_table (n_relay net'))"
    and legs: "\<forall>leg \<in> snd ` set (r_routing (n_relay net')). leg_ok (n_tasks net) leg"
    and phases: "\<forall>i. link_phase_ok (n_tasks net) (n_tasks net' i)"
  shows "net_inv net'"
proof -
  note I = net_invD [OF inv] and S = same_identity_ok [OF id]
  have reg: "lk_registered (n_tasks net' i) = lk_registered (n_tasks net i)"
    "lk_fingerprint (n_tasks net' i) = lk_fingerprint (n_tasks net i)" for i using id by (simp_all add: same_identity_def)
  have t: "table_ok (r_table (n_relay net'))"
    "ct_next_connection_id (r_table (n_relay net')) = ct_next_connection_id (r_table (n_relay net))"
    using table I(1) by (simp_all add: owners_kept_def)
  have "lk_registered (n_tasks net (ce_outbound e)) = Some (n, ce_connection_id e)"
    if e: "map_of (ct_entries (r_table (n_relay net'))) n = Some e" for n e
  proof -
    obtain e0 where "map_of (ct_entries (r_table (n_relay net))) n = Some e0"
      "ce_connection_id e = ce_connection_id e0" "ce_outbound e = ce_outbound e0"
      using table I(1) e unfolding owners_kept_def by blast
    then show ?thesis using I(2) by metis
  qed
  then show ?thesis unfolding net_inv_def S reg t(2) acc using t(1) I(3-6) legs phases by blast
qed

lemma same_identity_phase [simp]: "same_identity ts (ts(i := (ts i)\<lparr>lk_phase := ph\<rparr>))" "same_identity ts ts"
  by (simp_all add: same_identity_def)

text \<open>A step that moves one task to another phase, and one that moves none.\<close>

lemma net_inv_move:
  assumes "net_inv net" "n_tasks net' = (n_tasks net)(i := (n_tasks net i)\<lparr>lk_phase := ph\<rparr>)" "n_accepted net' = n_accepted net"
    "owners_kept (r_table (n_relay net)) (r_table (n_relay net'))"
    "\<forall>leg \<in> snd ` set (r_routing (n_relay net')). leg_ok (n_tasks net) leg"
    "link_phase_ok (n_tasks net) ((n_tasks net i)\<lparr>lk_phase := ph\<rparr>)"
  shows "net_inv net'"
  using assms(2-) net_invD(7) [OF assms(1)] by (intro net_inv_keep [OF assms(1)]) (simp_all)

lemma net_inv_still:
  assumes "net_inv net" "n_tasks net' = n_tasks net" "n_accepted net' = n_accepted net"
    "owners_kept (r_table (n_relay net)) (r_table (n_relay net'))"
    "\<forall>leg \<in> snd ` set (r_routing (n_relay net')). leg_ok (n_tasks net) leg"
  shows "net_inv net'"
  using assms(2-) net_invD(7) [OF assms(1)] by (intro net_inv_keep [OF assms(1)]) simp_all

lemma net_inv_new: "net_inv (net_new r)"
  by (simp add: net_inv_def net_new_def table_ok_new owns_def link_phase_ok_def) (simp add: table_new_def)

section \<open>Legs\<close>

lemma set_AList_update: "p \<in> set (AList.update k v xs) \<Longrightarrow> p = (k, v) \<or> p \<in> set xs"
  by (induction xs) (auto split: if_splits)

lemma set_AList_delete: "p \<in> set (AList.delete k xs) \<Longrightarrow> p \<in> set xs"
  by (simp add: AList.delete_eq)

lemma legs_close_leg:
  "leg \<in> snd ` set (snd (close_leg k legs)) \<Longrightarrow>
     \<exists>leg0 \<in> snd ` set legs. leg_peer leg = leg_peer leg0 \<and> leg_outbound leg = leg_outbound leg0"
proof -
  assume "leg \<in> snd ` set (snd (close_leg k legs))"
  then obtain key where m: "(key, leg) \<in> set (snd (close_leg k legs))" by auto
  show ?thesis
  proof (cases "map_of legs k")
    case None
    then show ?thesis using m by (force simp: close_leg_def)
  next
    case (Some l)
    have "(key, leg) \<in> set legs \<or> leg = l\<lparr>leg_closed := True\<rparr>"
      using m Some by (auto simp: close_leg_def Let_def dest!: set_AList_delete set_AList_update split: if_splits)
    then show ?thesis using map_of_SomeD [OF Some] by force
  qed
qed

lemma legs_teardown_pair: "leg \<in> snd ` set (snd (teardown_pair k legs)) \<Longrightarrow> leg \<in> snd ` set legs"
  by (force simp: teardown_pair_def dest!: set_AList_delete split: option.splits)

lemma set_teardown_keys: "set (snd (teardown_keys ks legs)) \<subseteq> set legs"
proof (induction ks legs rule: teardown_keys.induct)
  case (2 key keys legs)
  then show ?case by (auto split: option.splits prod.splits dest!: set_AList_delete)
qed simp

lemma legs_teardown_connection: "leg \<in> snd ` set (snd (teardown_connection c legs)) \<Longrightarrow> leg \<in> snd ` set legs"
  using set_teardown_keys by (force simp: teardown_connection_def)

lemma legs_route_open:
  "leg \<in> snd ` set (snd (route_open k tc ts to fo legs)) \<Longrightarrow>
     leg \<in> snd ` set legs \<or> leg_peer leg = \<lparr>rk_connection = tc, rk_stream = ts\<rparr> \<and> leg_outbound leg = to \<or>
     leg_peer leg = k \<and> leg_outbound leg = fo"
  by (force simp: route_open_def Let_def dest!: set_AList_update)

section \<open>Preservation\<close>

lemma net_inv_cong:
  assumes "r_table (n_relay net') = r_table (n_relay net)" "r_routing (n_relay net') = r_routing (n_relay net)"
    "n_tasks net' = n_tasks net" "n_accepted net' = n_accepted net"
  shows "net_inv net' = net_inv net"
  unfolding net_inv_def assms ..

lemma net_inv_posts [simp]: "net_inv (post_all ps net) = net_inv net" "net_inv (link_post p net) = net_inv net"
  "net_inv (emit_event ev net) = net_inv net" "net_inv (net\<lparr>n_links := ls\<rparr>) = net_inv net"
  "net_inv (net\<lparr>n_events := evs\<rparr>) = net_inv net" "net_inv (net\<lparr>n_evicted := out\<rparr>) = net_inv net"
  by (rule net_inv_cong; simp add: net_simps)+

lemma net_inv_goto:
  "net_inv net \<Longrightarrow> link_phase_ok (n_tasks net) ((n_tasks net i)\<lparr>lk_phase := ph\<rparr>) \<Longrightarrow> net_inv (goto i ph net)"
  by (rule net_inv_move) (auto simp: net_simps dest: net_invD(8))

lemma net_inv_with_relay:
  assumes "net_inv net" "owners_kept (r_table (n_relay net)) (r_table (g (n_relay net)))"
    "\<forall>leg \<in> snd ` set (r_routing (g (n_relay net))). leg_ok (n_tasks net) leg"
  shows "net_inv (with_relay g net)"
  using assms by (intro net_inv_still [OF assms(1)]) (simp_all add: net_simps)

lemma net_inv_table:
  "net_inv net \<Longrightarrow> owners_kept (r_table (n_relay net)) (r_table (g (n_relay net))) \<Longrightarrow>
     r_routing (g (n_relay net)) = r_routing (n_relay net) \<Longrightarrow> net_inv (with_relay g net)"
  by (rule net_inv_with_relay) (auto dest: net_invD(8))

lemma net_inv_relay_record:
  "net_inv net \<Longrightarrow> owners_kept (r_table (n_relay net)) (r_table r) \<Longrightarrow> r_routing r = r_routing (n_relay net) \<Longrightarrow>
     net_inv (net\<lparr>n_relay := r\<rparr>)"
  using net_inv_table [of net "\<lambda>_. r"] by (simp add: with_relay_def)

lemma target_of_lookup:
  assumes "net_inv net" "table_lookup n (r_table (n_relay net)) = Some tg"
  shows "target_ok (n_tasks net) tg"
  using assms(2) net_invD(2) [OF assms(1)] by (auto simp: table_lookup_def target_ok_def owns_def)

text \<open>The phases a registered task may always enter.\<close>

fun free_phase :: "link_phase \<Rightarrow> bool" where
  "free_phase LAwaitRegister = False"
| "free_phase (LRegLookup n) = False"
| "free_phase (LRegLen n) = False"
| "free_phase (LRegInsert n) = False"
| "free_phase (LOpenAdmit sid tg) = False"
| "free_phase (LOpenAlloc sid tg) = False"
| "free_phase (LOpenRoute sid tg relay_sid) = False"
| "free_phase _ = True"

lemma link_phase_ok_free: "lk_registered task \<noteq> None \<Longrightarrow> free_phase ph \<Longrightarrow> link_phase_ok ts (task\<lparr>lk_phase := ph\<rparr>)"
  by (cases ph) (auto simp: link_phase_ok_def split: job.splits)

lemma net_inv_free:
  "net_inv net \<Longrightarrow> lk_registered (n_tasks net i) \<noteq> None \<Longrightarrow> free_phase ph \<Longrightarrow> net_inv (goto i ph net)"
  by (rule net_inv_goto) (auto intro: link_phase_ok_free)

subsection \<open>Handlers\<close>

lemma net_inv_sending:
  assumes "net_inv net" "lk_phase (n_tasks net i) = LSending job"
  shows "net_inv (sending_turn i job net)"
proof -
  have ok: "link_phase_ok (n_tasks net) ((n_tasks net i)\<lparr>lk_phase := job_sent job\<rparr>)"
    "link_phase_ok (n_tasks net) ((n_tasks net i)\<lparr>lk_phase := job_failed job\<rparr>)"
    using net_invD(7) [OF assms(1), of i] assms(2) by (cases job; simp add: link_phase_ok_def)+
  have "r_table (job_meter job r) = r_table r" "r_routing (job_meter job r) = r_routing r" for r by (cases job; simp)+
  then have "net_inv (with_relay (job_meter job) (net\<lparr>n_links := ls\<rparr>))" for ls
    using assms(1) by (intro net_inv_table) simp_all
  then show ?thesis using assms(1) ok
    by (auto simp: sending_turn_def Let_def net_simps split: prod.splits send_result.splits intro!: net_inv_goto)
qed

lemma net_inv_first_frame:
  assumes "net_inv net" "lk_phase (n_tasks net i) = LAwaitRegister"
  shows "net_inv (register_first_frame i input net)"
proof -
  have "lk_registered (n_tasks net i) = None" using net_invD(7) [OF assms(1), of i] assms(2) by (simp add: link_phase_ok_def)
  then show ?thesis using assms(1)
    by (auto simp: register_first_frame_def link_phase_ok_def split: link_input.splits sum.splits frame.splits intro!: net_inv_goto)
qed

lemma table_ok_cong:
  "ct_entries t' = ct_entries t \<Longrightarrow> ct_next_connection_id t' = ct_next_connection_id t \<Longrightarrow> table_ok t' = table_ok t"
  unfolding table_ok_def by simp

lemma net_inv_insert:
  assumes inv: "net_inv net" and ph: "lk_phase (n_tasks net i) = LRegInsert node_id"
    and fresh: "ct_next_connection_id (r_table (n_relay net)) \<noteq> - 1" and acc: "i < n_accepted net"
  shows "net_inv (register_insert i node_id net)"
proof -
  define t where "t = r_table (n_relay net)"
  define c where "c = ct_next_connection_id t"
  define net' where "net' = register_insert i node_id net"
  note I = net_invD [OF inv, folded t_def]
  have none: "lk_registered (n_tasks net i) = None" "eq_ignore_ascii_case node_id (lk_fingerprint (n_tasks net i))"
    using I(7) [of i] ph by (simp_all add: link_phase_ok_def)
  obtain ph' where tasks: "n_tasks net' = (n_tasks net)(i := (n_tasks net i)\<lparr>lk_registered := Some (node_id, c), lk_phase := ph'\<rparr>)"
    and free: "free_phase ph'"
    and rel: "r_routing (n_relay net') = r_routing (n_relay net)" "n_accepted net' = n_accepted net"
    and tab: "ct_entries (r_table (n_relay net')) = ct_entries (snd (snd (register (r_now (n_relay net)) node_id i t)))"
      "ct_next_connection_id (r_table (n_relay net')) = c + 1"
    unfolding net'_def register_insert_def Let_def register_def t_def c_def
    by (cases "map_of (ct_entries (r_table (n_relay net))) node_id") (auto simp: net_simps)
  have own: "owns (n_tasks net') k d \<longleftrightarrow> (if k = i then d = c else owns (n_tasks net) k d)" for k d
    by (auto simp: owns_def tasks)
  have old: "owns (n_tasks net) k d \<Longrightarrow> owns (n_tasks net') k d" "owns (n_tasks net) k d \<Longrightarrow> d \<noteq> c" for k d
    using none(1) I(4) by (auto simp: owns_def tasks c_def)
  have nx: "ct_next_connection_id (snd (snd (register (r_now (n_relay net)) node_id i t))) = c + 1"
    by (simp add: register_def Let_def c_def)
  have tok: "table_ok (r_table (n_relay net'))"
    unfolding table_ok_cong [OF tab(1) trans [OF tab(2) nx [symmetric]]] by (rule register_ok [OF I(1) fresh [folded t_def]])
  have "1 + c \<noteq> 0" using fresh by (simp add: c_def t_def add_eq_0_iff)
  then have "unat (1 + c) = Suc (unat c)" by (rule unatSuc)
  then have less: "d < c \<Longrightarrow> d < c + 1" "c < c + 1" for d by (simp_all add: word_less_nat_alt add.commute)
  have entries: "lk_registered (n_tasks net' (ce_outbound e)) = Some (n, ce_connection_id e)"
    if "map_of (ct_entries (r_table (n_relay net'))) n = Some e" for n e
    using that I(2) [of n e] none(1)
    by (auto simp: tab(1) register_def Let_def tasks c_def simp del: map_of_eq_Some_iff split: if_splits)
  have regs: "eq_ignore_ascii_case n (lk_fingerprint (n_tasks net' k)) \<and> d < c + 1 \<and> k < n_accepted net"
    if "lk_registered (n_tasks net' k) = Some (n, d)" for k n d
    using that none(2) acc I(3-5) [of k n d] less by (auto simp: tasks c_def split: if_splits)
  have legs: "leg_ok (n_tasks net') leg" if "leg \<in> snd ` set (r_routing (n_relay net))" for leg
    using I(8) [OF that] old(1) by (simp add: leg_ok_def)
  have uniq: "k = j" if "owns (n_tasks net') k d" "owns (n_tasks net') j d" for k j d
    using that old(2) I(6) by (auto simp: own split: if_splits)
  have "link_phase_ok (n_tasks net') (n_tasks net k)" for k
    using I(7) [of k] old(1) by (auto simp: link_phase_ok_def target_ok_def split: link_phase.splits job.splits)
  moreover have "link_phase_ok (n_tasks net') (n_tasks net' i)"
    using link_phase_ok_free [of "(n_tasks net i)\<lparr>lk_registered := Some (node_id, c)\<rparr>" ph' "n_tasks net'"] free by (simp add: tasks)
  ultimately have "link_phase_ok (n_tasks net') (n_tasks net' k)" for k by (cases "k = i") (simp_all add: tasks)
  then show ?thesis unfolding net'_def [symmetric] net_inv_def rel tab(2) using tok entries regs uniq legs
    by (intro conjI allI impI ballI) (assumption | erule entries | drule regs, simp | erule (1) uniq | erule legs)+
qed

lemma net_inv_dispatch:
  assumes inv: "net_inv net" and reg: "lk_registered (n_tasks net i) \<noteq> None"
  shows "net_inv (dispatch env random i node_id c f net)"
proof -
  note free = net_inv_free [where i = i]
  have go: "net_inv (goto i ph net)" if "free_phase ph" for ph using free [OF inv reg that] .
  have beat: "net_inv (with_relay (\<lambda>r. r\<lparr>r_table := touch (r_now r) node_id c (r_table r)\<rparr>) net)"
    by (rule net_inv_table [OF inv]) simp_all
  have rem: "net_inv (with_relay (\<lambda>r. r\<lparr>r_table := snd (remove_if_current node_id c (r_table (n_relay net)))\<rparr>) net)"
    by (rule net_inv_table [OF inv]) simp_all
  have unreg: "net_inv (on_unregister_frame i node_id c net)"
    using rem inv reg
    by (auto simp: on_unregister_frame_def net_simps split: prod.splits bool.splits intro!: free)
  have admin: "net_inv (on_admin_frame env random i node_id c seqno command net)" for seqno command
    unfolding on_admin_frame_def case_prod_unfold
    by (rule free) (simp_all add: net_simps reg net_inv_relay_record [OF inv remote_admin_keeps])
  have close: "net_inv (on_close_frame i c sid net)" for sid
  proof -
    have "\<forall>leg \<in> snd ` set (snd (close_leg k (r_routing (n_relay net)))). leg_ok (n_tasks net) leg" for k
      using legs_close_leg net_invD(8) [OF inv] unfolding leg_ok_def by metis
    then have "net_inv (with_relay (\<lambda>r. r\<lparr>r_routing := snd (close_leg k (r_routing (n_relay net)))\<rparr>) net)" for k
      by (intro net_inv_with_relay [OF inv]) simp_all
    then show ?thesis unfolding on_close_frame_def case_prod_unfold
      by (intro free) (auto simp: net_simps reg split: close_outcome.splits)
  qed
  have teardown: "net_inv (on_close_stream_frame i c sid net)" for sid
  proof -
    have "net_inv (with_relay (\<lambda>r. r\<lparr>r_routing := snd (teardown_pair k (r_routing (n_relay net)))\<rparr>) net)" for k
      using legs_teardown_pair net_invD(8) [OF inv] by (intro net_inv_with_relay [OF inv]) auto
    then show ?thesis unfolding on_close_stream_frame_def case_prod_unfold
      by (intro free) (auto simp: net_simps reg split: option.splits)
  qed
  have fw: "free_phase (forward_routed c sid n build legs)" for sid n build legs
    by (simp add: forward_routed_def split: route_lookup_result.splits)
  show ?thesis
    by (cases f) (simp_all add: dispatch_def Let_def go fw unreg admin close teardown beat)
qed

lemma net_inv_serving:
  assumes "net_inv net" "lk_registered (n_tasks net i) \<noteq> None"
  shows "net_inv (serving_turn env random i node_id c input net)"
  using assms net_inv_dispatch [OF assms] net_inv_free [OF assms]
  by (auto simp: serving_turn_def split: link_input.splits sum.splits)

lemma net_inv_open_phase:
  assumes "net_inv net" "lk_registered (n_tasks net i) \<noteq> None" "target_ok (n_tasks net) tg"
  shows "net_inv (goto i (LOpenAdmit sid tg) net)" "net_inv (open_admit env i sid tg net)" "net_inv (open_alloc i sid tg net)"
proof -
  have ph: "link_phase_ok (n_tasks net) ((n_tasks net i)\<lparr>lk_phase := ph\<rparr>)"
    if "ph = LOpenAdmit sid tg \<or> ph = LOpenAlloc sid tg \<or> (\<exists>s. ph = LOpenRoute sid tg s)" for ph
    using that assms(2,3) by (auto simp: link_phase_ok_def)
  show "net_inv (goto i (LOpenAdmit sid tg) net)" using net_inv_goto [OF assms(1)] ph by simp
  have m: "net_inv (with_relay (\<lambda>r. r\<lparr>r_meter := meter\<rparr>) net)" for meter by (rule net_inv_table [OF assms(1)]) simp_all
  show "net_inv (open_admit env i sid tg net)"
    unfolding open_admit_def Let_def case_prod_unfold
    using m ph link_phase_ok_free [OF assms(2)]
    by (intro net_inv_goto) (simp_all add: net_simps split: open_admission.split)
  have "net_inv (with_relay (\<lambda>r. r\<lparr>r_table := snd (fetch_relay_stream (rt_connection_id tg) (r_table (n_relay net)))\<rparr>) net)"
    by (rule net_inv_table [OF assms(1)]) simp_all
  then show "net_inv (open_alloc i sid tg net)"
    unfolding open_alloc_def case_prod_unfold using ph by (auto simp: net_simps intro!: net_inv_goto)
qed

lemma net_inv_open_route:
  assumes "net_inv net" "lk_registered (n_tasks net i) = Some (node_id, c)" "target_ok (n_tasks net) tg"
  shows "net_inv (open_route i node_id c sid tg relay_sid net)"
proof -
  have own: "owns (n_tasks net) i c" using assms(2) by (simp add: owns_def)
  have "leg_ok (n_tasks net) leg"
    if "leg \<in> snd ` set (snd (route_open \<lparr>rk_connection = c, rk_stream = sid\<rparr> (rt_connection_id tg) relay_sid (rt_outbound tg) i
      (r_routing (n_relay net))))" for leg
    using legs_route_open [OF that] net_invD(8) [OF assms(1), of leg] own assms(3) by (auto simp: leg_ok_def target_ok_def)
  then show ?thesis unfolding open_route_def case_prod_unfold using assms(1,2)
    by (intro net_inv_free net_inv_with_relay) (auto simp: net_simps)
qed

text \<open>A task that has not been accepted yet is idle, and a turn moves only its own task.\<close>

definition idle_above :: "net \<Rightarrow> bool" where
  "idle_above net \<longleftrightarrow> (\<forall>i. n_accepted net \<le> i \<longrightarrow> lk_phase (n_tasks net i) = LDone)"

lemma sending_other: "k \<noteq> i \<Longrightarrow> n_tasks (sending_turn i job net) k = n_tasks net k"
  by (simp add: sending_turn_def Let_def net_simps split: prod.splits send_result.splits)

lemma dispatch_other: "k \<noteq> i \<Longrightarrow> n_tasks (dispatch env random i node_id c f net) k = n_tasks net k"
  by (cases f) (simp_all add: dispatch_def Let_def net_simps on_unregister_frame_def on_admin_frame_def on_close_frame_def
      on_close_stream_frame_def split: prod.splits bool.splits)

lemma register_other: "k \<noteq> i \<Longrightarrow> n_tasks (register_insert i n net) k = n_tasks net k"
  "n_accepted (register_insert i n net) = n_accepted net"
  by (simp_all add: register_insert_def Let_def net_simps split: prod.splits option.splits)

lemma dispatch_accepted: "n_accepted (dispatch env random i node_id c f net) = n_accepted net"
  by (cases f) (simp_all add: dispatch_def Let_def net_simps on_unregister_frame_def on_admin_frame_def on_close_frame_def
      on_close_stream_frame_def split: prod.splits bool.splits)

lemma sending_accepted: "n_accepted (sending_turn i job net) = n_accepted net"
  by (simp add: sending_turn_def Let_def net_simps split: prod.splits send_result.splits)

lemmas turn_defs = register_first_frame_def register_len_def serving_turn_def open_admit_def open_alloc_def open_route_def

lemma link_turn_other:
  "k \<noteq> i \<Longrightarrow> n_tasks (link_turn env random i input net) k = n_tasks net k"
  "n_accepted (link_turn env random i input net) = n_accepted net"
  by (cases "lk_phase (n_tasks net i)";
      simp add: link_turn_def Let_def turn_defs case_prod_unfold net_simps sending_other dispatch_other register_other
        dispatch_accepted sending_accepted split: link_input.split sum.split frame.split)+

lemma link_turn_done: "lk_phase (n_tasks net i) = LDone \<Longrightarrow> link_turn env random i input net = net"
  by (simp add: link_turn_def case_prod_unfold Let_def)

lemma idle_above_turn: "idle_above net \<Longrightarrow> idle_above (link_turn env random i input net)"
  unfolding idle_above_def link_turn_other(2)
  by (metis link_turn_done link_turn_other(1))

lemma net_inv_turn:
  assumes inv: "net_inv net" and idle: "idle_above net" and fresh: "ct_next_connection_id (r_table (n_relay net)) \<noteq> - 1"
  shows "net_inv (link_turn env random i input net)"
proof (cases "lk_phase (n_tasks net i) = LDone")
  case True
  then show ?thesis using inv by (simp add: link_turn_done)
next
  case False
  then have acc: "i < n_accepted net" using idle by (meson idle_above_def not_less)
  obtain node_id c where pair: "(case lk_registered (n_tasks net i) of Some p \<Rightarrow> p | None \<Rightarrow> ([], 0)) = (node_id, c)" by fastforce
  note ph = net_invD(7) [OF inv, of i, unfolded link_phase_ok_def]
  note unf = link_turn_def Let_def pair prod.case
  have rel: "net_inv (with_relay (\<lambda>r. r\<lparr>r_presence := hub\<rparr>) net)" for hub by (rule net_inv_table [OF inv]) simp_all
  have rem: "net_inv (with_relay (\<lambda>r. r\<lparr>r_table := snd (remove_if_current node_id c (r_table (n_relay net)))\<rparr>) net)"
    by (rule net_inv_table [OF inv]) simp_all
  have tear: "net_inv (with_relay (\<lambda>r. r\<lparr>r_routing := snd (teardown_connection c (r_routing (n_relay net)))\<rparr>) net)"
    using legs_teardown_connection net_invD(8) [OF inv] by (intro net_inv_with_relay [OF inv]) auto
  have unw: "net_inv (with_relay (\<lambda>r. r\<lparr>r_presence := unwatch_connection c (r_presence r)\<rparr>) net)"
    by (rule net_inv_table [OF inv]) simp_all
  show ?thesis
  proof (cases "lk_phase (n_tasks net i)")
    case LAwaitRegister
    then show ?thesis using net_inv_first_frame [OF inv] by (simp add: unf)
  next
    case (LRegLookup n)
    then show ?thesis using ph by (auto simp: unf link_phase_ok_def intro!: net_inv_goto inv)
  next
    case (LRegLen n)
    then show ?thesis using ph by (auto simp: unf register_len_def link_phase_ok_def intro!: net_inv_goto inv)
  next
    case (LRegInsert n)
    then show ?thesis using net_inv_insert [OF inv _ fresh acc] by (simp add: unf)
  next
    case LServing
    then show ?thesis using ph net_inv_serving [OF inv] by (simp add: unf)
  next
    case (LOpenLookup sid target)
    then have reg: "lk_registered (n_tasks net i) \<noteq> None" using ph by simp
    show ?thesis using LOpenLookup net_inv_open_phase(1) [OF inv reg target_of_lookup [OF inv]] net_inv_free [OF inv reg]
      by (simp add: unf split: option.split)
  next
    case (LOpenAdmit sid tg)
    then show ?thesis using ph net_inv_open_phase(2) [OF inv] by (simp add: unf)
  next
    case (LOpenAlloc sid tg)
    then show ?thesis using ph net_inv_open_phase(3) [OF inv] by (simp add: unf)
  next
    case (LOpenRoute sid tg relay_sid)
    then have "lk_registered (n_tasks net i) = Some (node_id, c)" using ph pair by auto
    then show ?thesis using LOpenRoute ph net_inv_open_route [OF inv] by (simp add: unf)
  next
    case (LSending job)
    then show ?thesis using net_inv_sending [OF inv] by (simp add: unf)
  next
    case LEpiRemove
    then have reg: "lk_registered (n_tasks net i) \<noteq> None" using ph by simp
    show ?thesis using LEpiRemove net_inv_free [OF rem, of i] reg by (simp add: unf case_prod_unfold net_simps)
  next
    case LDone
    then show ?thesis using False by simp
  qed (use ph inv rel rem tear unw in \<open>simp add: unf case_prod_unfold; intro net_inv_free; simp add: net_simps\<close>)+
qed

subsection \<open>The other steps\<close>

lemma net_inv_evict: "net_inv net \<Longrightarrow> net_inv (evict_one env p net)"
  by (cases p) (simp add: evict_one_def net_inv_table net_simps)

lemma net_inv_sweep: "net_inv net \<Longrightarrow> net_inv (sweep_turn env lifecycle net)"
  by (simp add: sweep_turn_def sweep_evict_def case_prod_unfold net_inv_evict net_inv_table split: list.split)

lemma net_inv_accept:
  assumes "net_inv net"
  shows "net_inv (accept_link fp net)"
proof -
  define net' where "net' = accept_link fp net"
  note I = net_invD [OF assms]
  have t: "n_tasks net' = (n_tasks net)(n_accepted net := \<lparr>lk_fingerprint = fp, lk_registered = None, lk_phase = LAwaitRegister\<rparr>)"
    "n_relay net' = n_relay net" "n_accepted net' = Suc (n_accepted net)"
    by (simp_all add: net'_def accept_link_def Let_def)
  have none: "lk_registered (n_tasks net (n_accepted net)) = None"
    using I(5) by (metis less_irrefl not_None_eq surj_pair)
  have reg: "lk_registered (n_tasks net' k) = lk_registered (n_tasks net k)" for k by (simp add: t none)
  have own: "owns (n_tasks net') = owns (n_tasks net)" by (simp add: owns_def reg fun_eq_iff)
  have tg: "target_ok (n_tasks net') = target_ok (n_tasks net)" "leg_ok (n_tasks net') = leg_ok (n_tasks net)"
    by (simp_all add: target_ok_def leg_ok_def own fun_eq_iff)
  have ph: "link_phase_ok (n_tasks net') = link_phase_ok (n_tasks net)" unfolding link_phase_ok_def tg ..
  have "link_phase_ok (n_tasks net) (n_tasks net' k)" for k using I(7) [of k] by (simp add: t link_phase_ok_def)
  moreover have "eq_ignore_ascii_case n (lk_fingerprint (n_tasks net' k)) \<and>
      c < ct_next_connection_id (r_table (n_relay net)) \<and> k < Suc (n_accepted net)"
    if "lk_registered (n_tasks net k) = Some (n, c)" for k n c
    using I(3,4,5) [OF that] that none by (auto simp: t)
  ultimately show ?thesis
    unfolding net'_def [symmetric] net_inv_def reg own tg ph t(2,3) using I(1,2,6,8) by blast
qed

lemma net_reach_inv: "net_reach env lifecycle net \<Longrightarrow> net_inv net \<and> idle_above net"
proof (induction rule: net_reach.induct)
  case (start r)
  show ?case by (simp add: net_inv_new, simp add: idle_above_def net_new_def)
next
  case (step net net')
  then have inv: "net_inv net" and idle: "idle_above net" by auto
  have keep: "idle_above net''" if "n_tasks net'' = n_tasks net" "n_accepted net'' = n_accepted net" for net''
    using idle that by (simp add: idle_above_def)
  from step(2) show ?case
  proof cases
    case (accept fingerprint)
    then show ?thesis using net_inv_accept [OF inv] idle by (auto simp: idle_above_def accept_link_def Let_def)
  next
    case (link random i input)
    then show ?thesis using net_inv_turn [OF inv idle] idle_above_turn [OF idle] by simp
  next
    case sweeper
    then show ?thesis using net_inv_sweep [OF inv]
      by (auto simp: sweep_turn_def sweep_evict_def evict_one_def case_prod_unfold net_simps intro!: keep split: list.split)
  next
    case (admin random body)
    then show ?thesis using net_inv_relay_record [OF inv admin_request_keeps]
      by (auto simp: admin_turn_def case_prod_unfold net_simps intro!: keep)
  next
    case (enrollment fp_of cert first relay_fingerprint)
    then show ?thesis
      by (auto simp: enrollment_turn_def case_prod_unfold Let_def intro!: keep net_inv_relay_record [OF inv])
  qed (use inv in \<open>auto simp: net_simps intro!: keep net_inv_table\<close>)
qed

section \<open>Properties\<close>

text \<open>
  C37: identities cannot be forged, whatever the interleaving. In every reachable state a table entry belongs to the link
  whose egress it names: that link registered under this node id and connection id, and the node id is the fingerprint of its
  client certificate up to case. A route leads to the egress of the one link that registered under the connection id of the
  peer, and that link too has the certificate of the node id it registered.
\<close>

theorem links_are_authenticated:
  assumes "net_reach env lifecycle net"
  shows "(\<forall>n e. map_of (ct_entries (r_table (n_relay net))) n = Some e \<longrightarrow>
       lk_registered (n_tasks net (ce_outbound e)) = Some (n, ce_connection_id e) \<and>
       eq_ignore_ascii_case n (lk_fingerprint (n_tasks net (ce_outbound e)))) \<and>
     (\<forall>k leg. map_of (r_routing (n_relay net)) k = Some leg \<longrightarrow>
       (\<exists>n. lk_registered (n_tasks net (leg_outbound leg)) = Some (n, rk_connection (leg_peer leg)) \<and>
          eq_ignore_ascii_case n (lk_fingerprint (n_tasks net (leg_outbound leg)))) \<and>
       (\<forall>j m. lk_registered (n_tasks net j) = Some (m, rk_connection (leg_peer leg)) \<longrightarrow> j = leg_outbound leg))"
proof -
  note I = net_invD [OF net_reach_inv [OF assms, THEN conjunct1]]
  have leg: "owns (n_tasks net) (leg_outbound leg) (rk_connection (leg_peer leg))"
    if "map_of (r_routing (n_relay net)) k = Some leg" for k leg
    using I(8) [of leg] map_of_SomeD [OF that] by (force simp: leg_ok_def)
  show ?thesis
  proof (intro conjI allI impI)
    fix k leg
    assume m: "map_of (r_routing (n_relay net)) k = Some leg"
    show "\<exists>n. lk_registered (n_tasks net (leg_outbound leg)) = Some (n, rk_connection (leg_peer leg)) \<and>
        eq_ignore_ascii_case n (lk_fingerprint (n_tasks net (leg_outbound leg)))"
      using leg [OF m] I(3) unfolding owns_def by blast
    fix j m'
    assume "lk_registered (n_tasks net j) = Some (m', rk_connection (leg_peer leg))"
    then have "owns (n_tasks net) j (rk_connection (leg_peer leg))" by (auto simp: owns_def)
    then show "j = leg_outbound leg" using I(6) leg [OF m] by blast
  qed (use I(2,3) in blast)+
qed

text \<open>A link with certificate fingerprint \<open>fp\<close> that registers as \<open>n\<close>, with the relay otherwise idle.\<close>

definition registering :: "string \<Rightarrow> string \<Rightarrow> net" where
  "registering fp n =
     (let turn = (\<lambda>input. link_turn stop_env [] 0 input)
      in turn InDeadline (turn InDeadline (turn InDeadline (turn (InFrame (Inr (Register n))) (accept_link fp (net_new idle_relay))))))"

lemma registering:
  assumes "eq_ignore_ascii_case n fp"
  shows "net_reach stop_env default_lifecycle (registering fp n)"
    "ct_entries (r_table (n_relay (registering fp n))) = [(n, \<lparr>ce_connection_id = 0, ce_last_seen = 0, ce_outbound = 0, ce_labels = []\<rparr>)]"
    "lk_registered (n_tasks (registering fp n) 0) = Some (n, 0)" "lk_fingerprint (n_tasks (registering fp n) 0) = fp"
    "r_files (n_relay (registering fp n)) = []" "ct_retired (r_table (n_relay (registering fp n))) = []"
    "lk_phase (n_tasks (registering fp n) 0) = LRegPublish" "r_routing (n_relay (registering fp n)) = []"
    "n_tasks (registering fp n) 0 = \<lparr>lk_fingerprint = fp, lk_registered = Some (n, 0), lk_phase = LRegPublish\<rparr>"
    "n_relay (registering fp n) = idle_relay\<lparr>r_table := \<lparr>ct_entries = [(n, \<lparr>ce_connection_id = 0, ce_last_seen = 0, ce_outbound = 0, ce_labels = []\<rparr>)],
       ct_next_connection_id = 1, ct_next_relay_stream = [(0, 2)], ct_retired = []\<rparr>\<rparr>"
    "n_links (registering fp n) 0 = sched_spawn (default_config\<lparr>ingress_capacity := LINK_OUTBOUND_QUEUE\<rparr>)"
proof -
  define n0 where "n0 = accept_link fp (net_new idle_relay)"
  define n1 where "n1 = goto 0 (LRegLookup n) n0"
  define n2 where "n2 = goto 0 (LRegLen n) n1"
  define n3 where "n3 = goto 0 (LRegInsert n) n2"
  have b: "n_tasks n0 0 = \<lparr>lk_fingerprint = fp, lk_registered = None, lk_phase = LAwaitRegister\<rparr>"
    "n_relay n0 = idle_relay\<lparr>r_table := table_new, r_routing := [], r_presence := hub_new\<rparr>"
    by (simp_all add: n0_def accept_link_def net_new_def)
  have t1: "link_turn stop_env [] 0 (InFrame (Inr (Register n))) n0 = n1"
    using assms by (simp add: link_turn_def Let_def b(1) register_first_frame_def n1_def)
  have t2: "link_turn stop_env [] 0 InDeadline n1 = n2"
    by (simp add: link_turn_def Let_def n1_def n2_def net_simps b table_lookup_def table_new_def)
  have t3: "link_turn stop_env [] 0 InDeadline n2 = n3"
    by (simp add: link_turn_def Let_def n1_def n2_def n3_def net_simps b register_len_def table_len_def table_new_def
        admit_register_def stop_env_def default_capacity_def DEFAULT_MAX_NODES_def)
  have t4: "registering fp n = register_insert 0 n n3"
    by (simp add: registering_def Let_def n0_def [symmetric] t1 t2 t3) (simp add: link_turn_def Let_def n3_def net_simps)
  have nx: "ct_next_connection_id (r_table (n_relay m)) \<noteq> - 1" if "m \<in> {n0, n1, n2, n3}" for m
    using that by (auto simp: n1_def n2_def n3_def net_simps b table_new_def)
  show "net_reach stop_env default_lifecycle (registering fp n)"
    unfolding registering_def Let_def n0_def [symmetric]
    by (intro net_reach.step [OF _ net_step.link]) (simp_all add: t1 t2 t3 nx, simp add: n0_def, rule net_reach.step [OF net_reach.start net_step.accept])
  have l0: "n_links n0 0 = sched_spawn (default_config\<lparr>ingress_capacity := LINK_OUTBOUND_QUEUE\<rparr>)"
    by (simp add: n0_def accept_link_def net_new_def)
  have "n_relay n3 = n_relay n0" "n_links n3 = n_links n0" "n_tasks n3 = (n_tasks n0)(0 := (n_tasks n0 0)\<lparr>lk_phase := LRegInsert n\<rparr>)"
    by (simp_all add: n1_def n2_def n3_def net_simps)
  then show "ct_entries (r_table (n_relay (registering fp n))) = [(n, \<lparr>ce_connection_id = 0, ce_last_seen = 0, ce_outbound = 0, ce_labels = []\<rparr>)]"
    "lk_registered (n_tasks (registering fp n) 0) = Some (n, 0)" "lk_fingerprint (n_tasks (registering fp n) 0) = fp"
    "r_files (n_relay (registering fp n)) = []" "ct_retired (r_table (n_relay (registering fp n))) = []"
    "lk_phase (n_tasks (registering fp n) 0) = LRegPublish" "r_routing (n_relay (registering fp n)) = []"
    "n_tasks (registering fp n) 0 = \<lparr>lk_fingerprint = fp, lk_registered = Some (n, 0), lk_phase = LRegPublish\<rparr>"
    "n_relay (registering fp n) = idle_relay\<lparr>r_table := \<lparr>ct_entries = [(n, \<lparr>ce_connection_id = 0, ce_last_seen = 0, ce_outbound = 0, ce_labels = []\<rparr>)],
       ct_next_connection_id = 1, ct_next_relay_stream = [(0, 2)], ct_retired = []\<rparr>\<rparr>"
    "n_links (registering fp n) 0 = sched_spawn (default_config\<lparr>ingress_capacity := LINK_OUTBOUND_QUEUE\<rparr>)"
    unfolding t4 by (simp_all add: register_insert_def register_def Let_def b l0 net_simps table_new_def idle_relay_def)
qed

theorem links_are_authenticated_witness:
  "map_of (ct_entries (r_table (n_relay (registering ''ab'' ''aB'')))) ''aB'' \<noteq> None \<and>
   lk_registered (n_tasks (registering ''ab'' ''aB'') 0) = Some (''aB'', 0) \<and>
   lk_fingerprint (n_tasks (registering ''ab'' ''aB'') 0) = ''ab''"
proof -
  have eq: "eq_ignore_ascii_case ''aB'' ''ab''" by (simp add: eq_ignore_ascii_case_def ascii_lower_def char_of_def bit_0)
  note r = registering [OF eq]
  have m: "map_of (ct_entries (r_table (n_relay (registering ''ab'' ''aB'')))) ''aB'' =
      Some \<lparr>ce_connection_id = 0, ce_last_seen = 0, ce_outbound = 0, ce_labels = []\<rparr>" by (simp add: r(2))
  have "lk_registered (n_tasks (registering ''ab'' ''aB'') 0) = Some (''aB'', 0)"
    using links_are_authenticated [OF r(1), THEN conjunct1, rule_format, OF m] by simp
  then show ?thesis using m r(4) by simp
qed

text \<open>
  C38: forwarding is exact. Consider a registered link that serves and reads a data frame. If the stream is routed and open, and
  the peer's egress has room, the egress of the link registered under the peer's connection accepts exactly this payload
  under the peer's stream id, no other link gets anything, the bytes are metered, and the task serves on; a full egress makes the
  task wait without any effect. If the peer's egress is gone, or the stream is closed or unknown, nothing is forwarded or
  metered and the sender is about to be told so with the matching error, and its link stays up.
\<close>

theorem forwarding_exact:
  assumes reach: "net_reach env lifecycle net" and reg: "lk_registered (n_tasks net i) = Some (node_id, c)"
    and serving: "lk_phase (n_tasks net i) = LServing"
    and net1: "net1 = link_turn env random i (InFrame (Inr (Data sid payload))) net"
    and net2: "net2 = link_turn env random i input net1"
  shows "n_links net1 = n_links net \<and> n_relay net1 = n_relay net \<and>
     (case route_lookup \<lparr>rk_connection = c, rk_stream = sid\<rparr> (r_routing (n_relay net)) of
        LookupOpen leg \<Rightarrow>
          (\<exists>m. lk_registered (n_tasks net (leg_outbound leg)) = Some (m, rk_connection (leg_peer leg))) \<and>
          (let j = leg_outbound leg; f = Data (rk_stream (leg_peer leg)) payload in
           case ingress_try_send f (n_links net j) of
             (s, SendOk) \<Rightarrow> n_links net2 = (n_links net)(j := s) \<and> ls_sent s = ls_sent (n_links net j) @ [f] \<and>
               lk_phase (n_tasks net2 i) = LServing \<and>
               n_relay net2 = (if payload = [] then n_relay net else (n_relay net)
                 \<lparr>r_meter := meter_record (r_now (n_relay net)) (length payload) (r_meter (n_relay net))\<rparr>)
           | (_, SendFull) \<Rightarrow> net2 = net1
           | (_, SendClosed) \<Rightarrow> n_links net2 = n_links net \<and> n_relay net2 = n_relay net \<and>
               lk_phase (n_tasks net2 i) = LSending (JReply (stream_error sid StreamUnknown ''peer link closed'')))
      | LookupClosed \<Rightarrow> lk_phase (n_tasks net1 i) = LSending (JReply (stream_error sid StreamClosedCode ''stream is closed''))
      | LookupUnknown \<Rightarrow> lk_phase (n_tasks net1 i) = LSending (JReply (stream_error sid StreamUnknown ''unknown stream'')))"
proof -
  note I = net_invD [OF net_reach_inv [OF reach, THEN conjunct1]]
  define ph where "ph = forward_routed c sid (length payload) (\<lambda>peer. Data peer payload) (r_routing (n_relay net))"
  have n1: "net1 = goto i ph net" by (simp add: net1 link_turn_def Let_def reg serving serving_turn_def dispatch_def ph_def)
  show ?thesis
  proof (cases "route_lookup \<lparr>rk_connection = c, rk_stream = sid\<rparr> (r_routing (n_relay net))")
    case (LookupOpen leg)
    define job where "job = JForward (leg_outbound leg) (Data (rk_stream (leg_peer leg)) payload) sid (length payload)"
    have "ph = LSending job" by (simp add: ph_def forward_routed_def LookupOpen job_def)
    then have n2: "net2 = sending_turn i job net1" by (simp add: net2 n1 link_turn_def Let_def net_simps case_prod_unfold)
    have "leg \<in> snd ` set (r_routing (n_relay net))"
      using LookupOpen by (auto simp: route_lookup_def split: option.splits if_splits dest!: map_of_SomeD intro: rev_image_eqI)
    then have own: "\<exists>m. lk_registered (n_tasks net (leg_outbound leg)) = Some (m, rk_connection (leg_peer leg))"
      using I(8) by (auto simp: leg_ok_def owns_def)
    show ?thesis
      using own LookupOpen sched_egress.offer_ok [of "Data (rk_stream (leg_peer leg)) payload" "n_links net (leg_outbound leg)"]
      by (auto simp: n1 n2 sending_turn_def job_def job_target_def net_simps Let_def split: prod.splits send_result.splits)
  qed (simp_all add: n1 ph_def forward_routed_def net_simps)
qed

text \<open>
  C39: revoking a node misses a link registered under another spelling of its id. Registration accepts any capitalisation of
  the certificate's fingerprint and keeps the spelling it was sent, while a removal retires only the lower-case
  spelling. So a removal leaves every entry with another spelling in place: it is not retired and its link gets no
  notice, although the link is authenticated as the removed node.
\<close>

theorem revoke_misses_other_spelling:
  assumes reach: "net_reach env lifecycle net" and entry: "map_of (ct_entries (r_table (n_relay net))) n = Some e"
    and other: "n \<noteq> to_lowercase (e_uni env) fingerprint"
    and remove: "handle_remove env fingerprint (n_relay net) = (resp, sent, r')"
  shows "map_of (ct_entries (r_table r')) n = Some e \<and>
     (ce_connection_id e \<in> set (ct_retired (r_table r')) \<longleftrightarrow> ce_connection_id e \<in> set (ct_retired (r_table (n_relay net)))) \<and>
     (\<forall>sid code message. (ce_outbound e, Error sid code message) \<notin> set sent) \<and>
     eq_ignore_ascii_case n (lk_fingerprint (n_tasks net (ce_outbound e)))"
proof -
  define low where "low = to_lowercase (e_uni env) fingerprint"
  define t where "t = r_table (n_relay net)"
  note I = net_invD [OF net_reach_inv [OF reach, THEN conjunct1], folded t_def]
  have e: "map_of (ct_entries t) n = Some e" "n \<noteq> low" using entry other by (simp_all add: t_def low_def)
  have low: "ce_connection_id f \<noteq> ce_connection_id e \<and> ce_outbound f \<noteq> ce_outbound e" if "map_of (ct_entries t) low = Some f" for f
    using I(1) I(2) [OF that] I(2) [OF e(1)] that e unfolding table_ok_def by (metis Pair_inject option.inject)
  have pub: "(i, Error sid code message) \<notin> set (publish (e_uni env) low False hub)" for i sid code message hub
    by (auto simp: publish_def Let_def)
  have "eq_ignore_ascii_case n (lk_fingerprint (n_tasks net (ce_outbound e)))" using I(3) [OF I(2) [OF e(1)]] .
  moreover have "map_of (ct_entries (r_table r')) n = Some e \<and>
     (ce_connection_id e \<in> set (ct_retired (r_table r')) \<longleftrightarrow> ce_connection_id e \<in> set (ct_retired t)) \<and>
     (\<forall>sid code message. (ce_outbound e, Error sid code message) \<notin> set sent)"
    using remove e low pub
    by (auto simp: handle_remove_def Let_def low_def [symmetric] t_def [symmetric] retire_notifying_def retire_def
        simp del: map_of_eq_Some_iff split: prod.splits sum.splits option.splits)
  ultimately show ?thesis by (simp add: t_def)
qed

theorem revoke_misses_other_spelling_witness:
  "case handle_remove stop_env ''ab'' (n_relay (registering ''ab'' ''aB'')) of (resp, sent, r') \<Rightarrow>
     lk_fingerprint (n_tasks (registering ''ab'' ''aB'') 0) = ''ab'' \<and> 0 \<notin> set (ct_retired (r_table r')) \<and>
     map_of (ct_entries (r_table r')) ''aB'' = Some \<lparr>ce_connection_id = 0, ce_last_seen = 0, ce_outbound = 0, ce_labels = []\<rparr>"
proof -
  let ?net = "registering ''ab'' ''aB''"
  have eq: "eq_ignore_ascii_case ''aB'' ''ab''" by (simp add: eq_ignore_ascii_case_def ascii_lower_def char_of_def bit_0)
  note r = registering [OF eq]
  obtain resp sent r' where h: "handle_remove stop_env ''ab'' (n_relay ?net) = (resp, sent, r')" by (metis surj_pair)
  have low: "''aB'' \<noteq> to_lowercase (e_uni stop_env) ''ab''"
    by (simp add: to_lowercase_def is_ascii_def ascii_lower_def char_of_def bit_0)
  have m: "map_of (ct_entries (r_table (n_relay ?net))) ''aB'' =
      Some \<lparr>ce_connection_id = 0, ce_last_seen = 0, ce_outbound = 0, ce_labels = []\<rparr>" by (simp add: r(2))
  show ?thesis using revoke_misses_other_spelling [OF r(1) m low h] h r(4,6) by simp
qed

text \<open>A node that is registered, and then opens stream 1 to itself.\<close>

definition own_entry :: conn_entry where
  "own_entry = \<lparr>ce_connection_id = 0, ce_last_seen = 0, ce_outbound = 0, ce_labels = []\<rparr>"

definition lone_relay :: "u32 \<Rightarrow> routing_table \<Rightarrow> relay" where
  "lone_relay next_sid legs = idle_relay\<lparr>r_table := \<lparr>ct_entries = [(''n'', own_entry)], ct_next_connection_id = 1,
     ct_next_relay_stream = [(0, next_sid)], ct_retired = []\<rparr>, r_routing := legs\<rparr>"

definition self_legs :: routing_table where
  "self_legs = [(\<lparr>rk_connection = 0, rk_stream = 1\<rparr>, \<lparr>leg_peer = \<lparr>rk_connection = 0, rk_stream = 2\<rparr>, leg_outbound = 0, leg_closed = False\<rparr>),
     (\<lparr>rk_connection = 0, rk_stream = 2\<rparr>, \<lparr>leg_peer = \<lparr>rk_connection = 0, rk_stream = 1\<rparr>, leg_outbound = 0, leg_closed = False\<rparr>)]"

definition at_phase :: "link_phase \<Rightarrow> relay \<Rightarrow> net \<Rightarrow> bool" where
  "at_phase ph r net \<longleftrightarrow> n_tasks net 0 = \<lparr>lk_fingerprint = ''n'', lk_registered = Some (''n'', 0), lk_phase = ph\<rparr> \<and> n_relay net = r \<and>
     n_links net 0 = sched_spawn (default_config\<lparr>ingress_capacity := LINK_OUTBOUND_QUEUE\<rparr>)"

lemma lone_turns:
  fixes tg :: routing_target
  defines "tg \<equiv> \<lparr>rt_connection_id = 0, rt_outbound = 0\<rparr>"
  defines "turn \<equiv> link_turn stop_env [] 0"
  shows "at_phase LRegPublish (lone_relay 2 []) net \<Longrightarrow> at_phase LServing (lone_relay 2 []) (turn inp net)"
    "at_phase LServing (lone_relay 2 []) net \<Longrightarrow>
       at_phase (LOpenLookup 1 ''n'') (lone_relay 2 []) (turn (InFrame (Inr (OpenStream 1 ''n''))) net)"
    "at_phase (LOpenLookup 1 ''n'') (lone_relay 2 []) net \<Longrightarrow> at_phase (LOpenAdmit 1 tg) (lone_relay 2 []) (turn inp net)"
    "at_phase (LOpenAdmit 1 tg) (lone_relay 2 []) net \<Longrightarrow> at_phase (LOpenAlloc 1 tg) (lone_relay 2 []) (turn inp net)"
    "at_phase (LOpenAlloc 1 tg) (lone_relay 2 []) net \<Longrightarrow> at_phase (LOpenRoute 1 tg 2) (lone_relay 4 []) (turn inp net)"
    "at_phase (LOpenRoute 1 tg 2) (lone_relay 4 []) net \<Longrightarrow>
       at_phase (LSending (JOpen 0 (OpenStream 2 ''n'') 1)) (lone_relay 4 self_legs) (turn inp net)"
  unfolding turn_def tg_def
       apply (simp add: at_phase_def link_turn_def lone_relay_def idle_relay_def publish_def hub_new_def post_all_def net_simps)
      apply (simp add: at_phase_def link_turn_def serving_turn_def dispatch_def Let_def net_simps)
     apply (simp add: at_phase_def link_turn_def lone_relay_def table_lookup_def own_entry_def net_simps)
    apply (simp add: at_phase_def link_turn_def lone_relay_def idle_relay_def open_admit_def admit_open_def stream_count_def
      bytes_this_window_def meter_new_def refresh_window_def DEFAULT_MAX_STREAMS_def
      DEFAULT_MAX_THROUGHPUT_BYTES_PER_SEC_def stop_env_def default_capacity_def net_simps Let_def)
   apply (simp add: at_phase_def link_turn_def lone_relay_def open_alloc_def fetch_relay_stream_def Let_def net_simps)
  apply (simp add: at_phase_def link_turn_def lone_relay_def open_route_def route_open_def self_legs_def Let_def net_simps)
  done

definition self_routed :: net where
  "self_routed = fold (link_turn stop_env [] 0)
     [InDeadline, InFrame (Inr (OpenStream 1 ''n'')), InDeadline, InDeadline, InDeadline, InDeadline, InDeadline]
     (registering ''n'' ''n'')"

lemma lone_reach:
  "net_reach stop_env default_lifecycle net \<Longrightarrow> at_phase ph (lone_relay s legs) net \<Longrightarrow>
     net_reach stop_env default_lifecycle (link_turn stop_env [] 0 inp net)"
  by (erule net_reach.step, rule net_step.link) (simp add: at_phase_def lone_relay_def)

lemma self_routed:
  "net_reach stop_env default_lifecycle self_routed"
  "n_tasks self_routed 0 = \<lparr>lk_fingerprint = ''n'', lk_registered = Some (''n'', 0), lk_phase = LServing\<rparr>"
  "n_relay self_routed = lone_relay 4 self_legs"
  "n_links self_routed 0 =
     fst (ingress_try_send (OpenStream 2 ''n'') (sched_spawn (default_config\<lparr>ingress_capacity := LINK_OUTBOUND_QUEUE\<rparr>)))"
proof -
  have eq: "eq_ignore_ascii_case ''n'' ''n''" by (simp add: eq_ignore_ascii_case_def)
  note r = registering [OF eq]
  let ?T = "link_turn stop_env [] 0"
  have r0: "net_reach stop_env default_lifecycle (registering ''n'' ''n'')"
    "at_phase LRegPublish (lone_relay 2 []) (registering ''n'' ''n'')"
    using r(1) by (simp_all add: at_phase_def lone_relay_def own_entry_def r(9-11) idle_relay_def)
  note r1 = lone_reach [OF r0, of InDeadline] lone_turns(1) [OF r0(2), of InDeadline]
  note r2 = lone_reach [OF r1, of "InFrame (Inr (OpenStream 1 ''n''))"] lone_turns(2) [OF r1(2)]
  note r3 = lone_reach [OF r2, of InDeadline] lone_turns(3) [OF r2(2), of InDeadline]
  note r4 = lone_reach [OF r3, of InDeadline] lone_turns(4) [OF r3(2), of InDeadline]
  note r5 = lone_reach [OF r4, of InDeadline] lone_turns(5) [OF r4(2), of InDeadline]
  note r6 = lone_reach [OF r5, of InDeadline] lone_turns(6) [OF r5(2), of InDeadline]
  define net where "net = ?T InDeadline (?T InDeadline (?T InDeadline (?T InDeadline (?T (InFrame (Inr (OpenStream 1 ''n'')))
    (?T InDeadline (registering ''n'' ''n''))))))"
  note at = r6 [folded net_def]
  have sr: "self_routed = ?T InDeadline net" by (simp add: self_routed_def net_def)
  show "net_reach stop_env default_lifecycle self_routed" unfolding sr by (rule lone_reach [OF at])
  have ok: "snd (ingress_try_send (OpenStream 2 ''n'') (sched_spawn (default_config\<lparr>ingress_capacity := LINK_OUTBOUND_QUEUE\<rparr>))) = SendOk"
    by (simp add: ingress_try_send_def sched_spawn_def Let_def chan_try_send_def LINK_OUTBOUND_QUEUE_def)
  show "n_tasks self_routed 0 = \<lparr>lk_fingerprint = ''n'', lk_registered = Some (''n'', 0), lk_phase = LServing\<rparr>"
    "n_relay self_routed = lone_relay 4 self_legs"
    "n_links self_routed 0 =
       fst (ingress_try_send (OpenStream 2 ''n'') (sched_spawn (default_config\<lparr>ingress_capacity := LINK_OUTBOUND_QUEUE\<rparr>)))"
    using at(2) ok
    by (auto simp: sr at_phase_def link_turn_def Let_def sending_turn_def job_target_def net_simps split: prod.splits send_result.splits)
qed

theorem forwarding_exact_witness:
  "let net1 = link_turn stop_env [] 0 (InFrame (Inr (Data 1 [7]))) self_routed;
       net2 = link_turn stop_env [] 0 InDeadline net1
   in ls_sent (n_links net2 0) = [OpenStream 2 ''n'', Data 2 [7]] \<and> lk_phase (n_tasks net2 0) = LServing"
proof -
  let ?net1 = "link_turn stop_env [] 0 (InFrame (Inr (Data 1 [7]))) self_routed"
  have reg: "lk_registered (n_tasks self_routed 0) = Some (''n'', 0)" "lk_phase (n_tasks self_routed 0) = LServing"
    by (simp_all add: self_routed(2))
  have look: "route_lookup \<lparr>rk_connection = 0, rk_stream = 1\<rparr> (r_routing (n_relay self_routed)) =
      LookupOpen \<lparr>leg_peer = \<lparr>rk_connection = 0, rk_stream = 2\<rparr>, leg_outbound = 0, leg_closed = False\<rparr>"
    by (simp add: self_routed(3) lone_relay_def self_legs_def route_lookup_def)
  have sent: "ls_sent (n_links self_routed 0) = [OpenStream 2 ''n'']"
    "snd (ingress_try_send (Data 2 [7]) (n_links self_routed 0)) = SendOk"
    by (simp_all add: self_routed(4) ingress_try_send_def sched_spawn_def Let_def chan_try_send_def LINK_OUTBOUND_QUEUE_def)
  obtain s where s: "ingress_try_send (Data 2 [7]) (n_links self_routed 0) = (s, SendOk)" using sent(2) by (metis prod.collapse)
  show ?thesis using forwarding_exact [OF self_routed(1) reg refl refl, of "[]" 1 "[7]" InDeadline]
    by (simp add: look s sent(1) Let_def)
qed

end
