(* ===== verification/Relay_Gate.thy ===== *)
theory Relay_Gate
  imports Enrollment
begin

text \<open>
  The relay's front door, \<^verbatim>\<open>src/infra/relay_server.rs\<close> and the admin address of \<^verbatim>\<open>src/infra/relay_admin.rs\<close>: which handler a
  connection gets, and the binding of the listeners. What the operating system answers to a bind is the argument
  \<open>bind\<close>: attempt, host and port to an error or the local port. Ports are 16-bit words, and the addition wraps as it does in
  a release build.
\<close>

definition ALPN_PROTOCOL_ENROLL :: string where "ALPN_PROTOCOL_ENROLL = ''waitagent-enroll''"
definition ALPN_PROTOCOLS_WEB :: "string list" where "ALPN_PROTOCOLS_WEB = [''h2'', ''http/1.1'']"
definition RELAY_ENROLL_PORT_OFFSET :: u16 where "RELAY_ENROLL_PORT_OFFSET = 1"
definition EPHEMERAL_BIND_ATTEMPTS :: nat where "EPHEMERAL_BIND_ATTEMPTS = 8"

datatype alpn_route = RouteLink | RouteEnroll | RouteWeb

fun route_alpn :: "string list \<Rightarrow> alpn_route" where
  "route_alpn [] = RouteLink"
| "route_alpn (protocol # protocols) =
     (if protocol = ALPN_PROTOCOL_ENROLL then RouteEnroll
      else if protocol \<in> set ALPN_PROTOCOLS_WEB then RouteWeb
      else route_alpn protocols)"

definition client_route :: "string list option \<Rightarrow> alpn_route" where
  "client_route alpn = (case alpn of Some protocols \<Rightarrow> route_alpn protocols | None \<Rightarrow> RouteLink)"

definition sanitize_addr :: "string \<Rightarrow> string" where
  "sanitize_addr = map (\<lambda>ch. let n = of_char ch :: nat in
     if 97 \<le> n \<and> n \<le> 122 \<or> 65 \<le> n \<and> n \<le> 90 \<or> 48 \<le> n \<and> n \<le> 57 then ch else CHR ''_'')"

definition relay_admin_addr :: "string \<Rightarrow> string \<Rightarrow> string" where
  "relay_admin_addr temp_dir listen = path_join temp_dir (''waitagent-relay-admin-'' @ sanitize_addr listen @ ''.sock'')"

definition admin_addr_for :: "string \<Rightarrow> string option \<Rightarrow> string \<Rightarrow> string" where
  "admin_addr_for temp_dir configured listen =
     (case configured of None \<Rightarrow> relay_admin_addr temp_dir listen | Some path \<Rightarrow> path)"

type_synonym binder_fn = "nat \<Rightarrow> string \<Rightarrow> u16 \<Rightarrow> string + u16"

text \<open>The retry loop with the number of rounds that are left.\<close>

fun bind_loop :: "binder_fn \<Rightarrow> string \<Rightarrow> u16 \<Rightarrow> nat \<Rightarrow> nat \<Rightarrow> string + u16 \<times> u16" where
  "bind_loop bind host port round 0 = Inl ''''"
| "bind_loop bind host port round (Suc left) =
     (case bind (2 * round) host port of
        Inl e \<Rightarrow> Inl e
      | Inr local \<Rightarrow>
          (case bind (2 * round + 1) host (local + RELAY_ENROLL_PORT_OFFSET) of
             Inr enroll \<Rightarrow> Inr (local, enroll)
           | Inl e \<Rightarrow> if port \<noteq> 0 \<or> left = 0 then Inl e else bind_loop bind host port (round + 1) left))"

definition bind_gate_pair :: "binder_fn \<Rightarrow> string \<Rightarrow> u16 \<Rightarrow> bool \<Rightarrow> string + u16 \<times> u16 option" where
  "bind_gate_pair bind host port legacy_enroll =
     (if \<not> legacy_enroll then map_sum id (\<lambda>local. (local, None)) (bind 0 host port)
      else map_sum id (\<lambda>(local, enroll). (local, Some enroll)) (bind_loop bind host port 0 EPHEMERAL_BIND_ATTEMPTS))"

section \<open>Facts\<close>

text \<open>A connection reaches the enrollment session iff it offers it before any web protocol.\<close>

lemma route_alpn_enroll:
  "route_alpn ps = RouteEnroll \<longleftrightarrow>
     (\<exists>before after. ps = before @ ALPN_PROTOCOL_ENROLL # after \<and> set before \<inter> set ALPN_PROTOCOLS_WEB = {})"
proof (induction ps)
  case (Cons p ps)
  have web: "ALPN_PROTOCOL_ENROLL \<notin> set ALPN_PROTOCOLS_WEB" by (simp add: ALPN_PROTOCOL_ENROLL_def ALPN_PROTOCOLS_WEB_def)
  show ?case
  proof (cases "p = ALPN_PROTOCOL_ENROLL")
    case True
    then show ?thesis by (auto intro: exI [of _ "[]"])
  next
    case False
    have "(\<exists>before after. p # ps = before @ ALPN_PROTOCOL_ENROLL # after \<and> set before \<inter> set ALPN_PROTOCOLS_WEB = {}) \<longleftrightarrow>
        p \<notin> set ALPN_PROTOCOLS_WEB \<and>
        (\<exists>before after. ps = before @ ALPN_PROTOCOL_ENROLL # after \<and> set before \<inter> set ALPN_PROTOCOLS_WEB = {})"
      (is "?l \<longleftrightarrow> ?r")
    proof
      assume ?l
      then show ?r using False by (auto simp: Cons_eq_append_conv) blast+
    next
      assume ?r
      then obtain before after where "ps = before @ ALPN_PROTOCOL_ENROLL # after" "set before \<inter> set ALPN_PROTOCOLS_WEB = {}"
        "p \<notin> set ALPN_PROTOCOLS_WEB" by blast
      then show ?l by (intro exI [of _ "p # before"] exI [of _ after]) simp
    qed
    then show ?thesis using Cons.IH False by simp
  qed
qed simp

lemma route_alpn_link:
  "route_alpn ps = RouteLink \<longleftrightarrow> set ps \<inter> insert ALPN_PROTOCOL_ENROLL (set ALPN_PROTOCOLS_WEB) = {}"
  by (induction ps) auto

text \<open>A bound pair consists of a port the system gave and the next one, also bound; the loop makes at most eight rounds.\<close>

lemma bind_loop_pair:
  "bind_loop bind host port k left = Inr (local, enroll) \<Longrightarrow>
     \<exists>j < k + left. bind (2 * j) host port = Inr local \<and> bind (2 * j + 1) host (local + RELAY_ENROLL_PORT_OFFSET) = Inr enroll"
proof (induction left arbitrary: k)
  case (Suc left)
  show ?case
  proof (cases "bind_loop bind host port (k + 1) left = Inr (local, enroll)")
    case True
    then show ?thesis using Suc.IH [of "k + 1"] by auto
  next
    case False
    then have "bind (2 * k) host port = Inr local" "bind (2 * k + 1) host (local + RELAY_ENROLL_PORT_OFFSET) = Inr enroll"
      using Suc.prems by (auto split: sum.splits if_splits)
    then show ?thesis by (intro exI [of _ k]) simp
  qed
qed simp

end
