(* ===== verification/Process_Tree.thy ===== *)
theory Process_Tree
  imports Text_Ops
begin

text \<open>
  The process monitor, \<^verbatim>\<open>src/process_monitor/tree.rs\<close>, \<^verbatim>\<open>state_machine.rs\<close> and \<^verbatim>\<open>mod.rs\<close>, with the helpers it takes from
  \<^verbatim>\<open>src/domain/agent_detector.rs\<close>. What the operating system tells about a process (\<^verbatim>\<open>/proc/<pid>/cmdline\<close>, the list of its
  children, the foreground group of a terminal) is an argument of the operations. So are the detectors of
  \<open>DetectorRegistry\<close>, of which the record \<open>detectors\<close> holds the three queries the monitor makes.
\<close>

section \<open>Command lines\<close>

definition SHELL_NAMES :: "string list" where "SHELL_NAMES = [''bash'', ''zsh'', ''fish'', ''sh'']"

definition after_last_slash :: "string \<Rightarrow> string" where
  "after_last_slash s = rev (takeWhile (\<lambda>c. c \<noteq> CHR ''/'') (rev s))"

fun upto_space :: "string \<Rightarrow> string" where
  "upto_space [] = []"
| "upto_space (c # cs) = (if \<exists>w \<in> set white_space. starts_with (c # cs) w then [] else c # upto_space cs)"

definition first_argv_token :: "string \<Rightarrow> string" where
  "first_argv_token argv0 =
     (let base = after_last_slash argv0; token = upto_space (strip_front white_space base)
      in if token = [] then base else token)"

fun script_arg :: "string list \<Rightarrow> string option" where
  "script_arg [] = None"
| "script_arg [arg] = (if starts_with arg ''-'' then None else Some arg)"
| "script_arg (arg # value # rest) =
     (if arg = ''-c'' then script_arg rest
      else if starts_with arg ''-'' then script_arg (value # rest)
      else Some arg)"

definition shell_script_arg :: "string list \<Rightarrow> string option" where
  "shell_script_arg argv = script_arg (drop 1 argv)"

section \<open>The tree of a session\<close>

type_synonym pid = u32

record process_node =
  pn_parent :: "pid option"
  pn_command :: string
  pn_argv :: "string list"
  pn_children :: "pid list"

definition is_shell :: "process_node \<Rightarrow> bool" where
  "is_shell node \<longleftrightarrow> pn_command node \<in> set SHELL_NAMES"

definition is_shell_script :: "process_node \<Rightarrow> bool" where
  "is_shell_script node \<longleftrightarrow> is_shell node \<and> shell_script_arg (pn_argv node) \<noteq> None"

definition is_application :: "process_node \<Rightarrow> bool" where
  "is_application node \<longleftrightarrow> pn_command node \<noteq> [] \<and> (\<not> is_shell node \<or> is_shell_script node)"

record process_tree =
  pt_shell :: pid
  pt_processes :: "(pid \<times> process_node) list"

definition tree_new :: "pid \<Rightarrow> string \<Rightarrow> string list \<Rightarrow> process_tree" where
  "tree_new shell argv0 argv =
     \<lparr>pt_shell = shell,
      pt_processes = [(shell, \<lparr>pn_parent = None, pn_command = first_argv_token argv0, pn_argv = argv, pn_children = []\<rparr>)]\<rparr>"

definition add_child :: "pid \<Rightarrow> pid \<Rightarrow> string \<Rightarrow> string list \<Rightarrow> process_tree \<Rightarrow> process_tree" where
  "add_child parent child argv0 argv t =
     (if map_of (pt_processes t) parent = None \<and> parent \<noteq> pt_shell t then t
      else
        let node = \<lparr>pn_parent = Some parent, pn_command = first_argv_token argv0, pn_argv = argv, pn_children = []\<rparr>;
            processes = (case map_of (pt_processes t) parent of
                Some p \<Rightarrow>
                  if child \<in> set (pn_children p) then pt_processes t
                  else AList.update parent (p\<lparr>pn_children := pn_children p @ [child]\<rparr>) (pt_processes t)
              | None \<Rightarrow> pt_processes t)
        in t\<lparr>pt_processes := AList.update child node processes\<rparr>)"

definition update_exec :: "pid \<Rightarrow> string \<Rightarrow> string list \<Rightarrow> process_tree \<Rightarrow> process_tree" where
  "update_exec pid argv0 argv t =
     (case map_of (pt_processes t) pid of
        Some node \<Rightarrow>
          t\<lparr>pt_processes := AList.update pid (node\<lparr>pn_command := first_argv_token argv0, pn_argv := argv\<rparr>) (pt_processes t)\<rparr>
      | None \<Rightarrow> t)"

definition tree_remove :: "pid \<Rightarrow> process_tree \<Rightarrow> process_tree" where
  "tree_remove pid t =
     (case map_of (pt_processes t) pid of
        None \<Rightarrow> t
      | Some node \<Rightarrow>
          let processes = AList.delete pid (pt_processes t) in
          t\<lparr>pt_processes :=
            (case pn_parent node of
               None \<Rightarrow> processes
             | Some parent \<Rightarrow>
                 (case map_of processes parent of
                    None \<Rightarrow> processes
                  | Some p \<Rightarrow> AList.update parent (p\<lparr>pn_children := filter (\<lambda>c. c \<noteq> pid) (pn_children p)\<rparr>) processes))\<rparr>)"

definition node_score :: "process_node \<Rightarrow> nat \<Rightarrow> nat" where
  "node_score node depth =
     (if is_shell node then 1 else 2) * 1000 + (if depth \<le> 1 then 100 else 0) + length (pn_children node)"

definition consider_node :: "process_node \<Rightarrow> nat \<Rightarrow> (nat \<times> process_node) option \<Rightarrow> (nat \<times> process_node) option" where
  "consider_node node depth best =
     (if is_application node then
        let score = node_score node depth in
        case best of
          None \<Rightarrow> Some (score, node)
        | Some (best_score, _) \<Rightarrow> if score > best_score then Some (score, node) else best
      else best)"

text \<open>
  The recursive search. The code has no bound on its depth; the first argument bounds it here, and \<open>None\<close> means that the
  bound was reached. The properties show that this never happens in \<open>primary_process\<close>.
\<close>

fun visit_application_nodes ::
  "nat \<Rightarrow> process_tree \<Rightarrow> nat \<Rightarrow> pid \<Rightarrow> (nat \<times> process_node) option \<Rightarrow> (nat \<times> process_node) option option" where
  "visit_application_nodes 0 t depth pid best = None"
| "visit_application_nodes (Suc k) t depth pid best =
     (case map_of (pt_processes t) pid of
        None \<Rightarrow> Some best
      | Some node \<Rightarrow>
          let best1 = consider_node node depth best in
          if is_shell node
          then fold (\<lambda>child acc. Option.bind acc (visit_application_nodes k t (depth + 1) child)) (pn_children node) (Some best1)
          else Some best1)"

definition search_tree :: "process_tree \<Rightarrow> process_node option option" where
  "search_tree t =
     (case map_of (pt_processes t) (pt_shell t) of
        None \<Rightarrow> Some None
      | Some shell \<Rightarrow>
          map_option (map_option snd)
            (fold (\<lambda>child acc. Option.bind acc (visit_application_nodes (Suc (length (pt_processes t))) t 1 child))
               (pn_children shell) (Some None)))"

definition primary_process :: "process_tree \<Rightarrow> pid option \<Rightarrow> process_node option option" where
  "primary_process t foreground =
     (case Option.bind foreground (map_of (pt_processes t)) of
        Some node \<Rightarrow> if is_application node then Some (Some node) else search_tree t
      | None \<Rightarrow> search_tree t)"

section \<open>The monitor\<close>

datatype task_state = TsRunning | TsInput | TsConfirm | TsUnknown

record detectors =
  d_command_name :: "string \<Rightarrow> string list \<Rightarrow> string"
  d_is_agent :: "string \<Rightarrow> bool"
  d_infer :: "string \<Rightarrow> string \<Rightarrow> task_state"

text \<open>What the system and the session answer: command lines, children, foreground group and pane text.\<close>

record sys =
  sy_cmdline :: "pid \<Rightarrow> string"
  sy_children :: "pid \<Rightarrow> pid list"
  sy_foreground :: "string \<Rightarrow> pid option"
  sy_pane :: "string \<Rightarrow> string"
  sy_now :: nat

datatype process_event = Fork pid pid | Exec pid | Exit pid

datatype state_event =
    TaskStateChanged string task_state | CommandNameChanged string string | CommandNameCleared string

record session_state =
  ss_tree :: process_tree
  ss_last_command :: "string option"
  ss_last_state :: task_state
  ss_last_event :: "nat option"

record monitor =
  mo_sessions :: "(string \<times> session_state) list"
  mo_pids :: "(pid \<times> string) list"
  mo_sent :: "state_event list"

fun split_nul :: "string \<Rightarrow> string list" where
  "split_nul [] = [[]]"
| "split_nul (c # cs) =
     (if of_char c = (0 :: nat) then [] # split_nul cs
      else case split_nul cs of w # ws \<Rightarrow> (c # w) # ws | [] \<Rightarrow> [[c]])"

definition read_proc_cmdline :: "sys \<Rightarrow> pid \<Rightarrow> string option \<times> string list option" where
  "read_proc_cmdline sy pid =
     (case filter (\<lambda>s. s \<noteq> []) (split_nul (sy_cmdline sy pid)) of
        [] \<Rightarrow> (None, None)
      | argv0 # rest \<Rightarrow> (Some argv0, Some (argv0 # rest)))"

definition cmdline_or_empty :: "sys \<Rightarrow> pid \<Rightarrow> string \<times> string list" where
  "cmdline_or_empty sy pid =
     (case read_proc_cmdline sy pid of
        (argv0, argv) \<Rightarrow> (case argv0 of Some a \<Rightarrow> a | None \<Rightarrow> [], case argv of Some a \<Rightarrow> a | None \<Rightarrow> []))"

definition derive_session_state :: "detectors \<Rightarrow> process_tree \<Rightarrow> pid option \<Rightarrow> string \<Rightarrow> (string option \<times> task_state) option" where
  "derive_session_state ds t foreground pane =
     map_option (\<lambda>primary.
       case primary of
         None \<Rightarrow> (None, TsInput)
       | Some node \<Rightarrow>
           let name = d_command_name ds (pn_command node) (pn_argv node) in
           (Some name,
            if d_is_agent ds name
            then (let detected = d_infer ds name pane in if detected = TsUnknown then TsInput else detected)
            else TsRunning))
       (primary_process t foreground)"

definition recompute :: "detectors \<Rightarrow> sys \<Rightarrow> string \<Rightarrow> session_state \<Rightarrow> (session_state \<times> state_event list) option" where
  "recompute ds sy target s =
     map_option (\<lambda>(name, state).
       (s\<lparr>ss_last_state := state, ss_last_command := name\<rparr>,
        (if ss_last_state s \<noteq> state then [TaskStateChanged target state] else []) @
        (if ss_last_command s \<noteq> name
         then [case name of Some n \<Rightarrow> CommandNameChanged target n | None \<Rightarrow> CommandNameCleared target] else [])))
       (derive_session_state ds (ss_tree s) (sy_foreground sy target) (sy_pane sy target))"

definition put_session :: "string \<Rightarrow> session_state \<times> state_event list \<Rightarrow> monitor \<Rightarrow> monitor" where
  "put_session target p m =
     m\<lparr>mo_sessions := AList.update target (fst p) (mo_sessions m), mo_sent := mo_sent m @ snd p\<rparr>"

definition register_session :: "sys \<Rightarrow> string \<Rightarrow> pid \<Rightarrow> monitor \<Rightarrow> monitor" where
  "register_session sy target shell m =
     (case read_proc_cmdline sy shell of
        (argv0, argv) \<Rightarrow>
          m\<lparr>mo_pids := AList.update shell target (mo_pids m),
            mo_sessions := AList.update target
              \<lparr>ss_tree = tree_new shell (case argv0 of Some a \<Rightarrow> a | None \<Rightarrow> ''bash'') (case argv of Some a \<Rightarrow> a | None \<Rightarrow> []),
               ss_last_command = None, ss_last_state = TsUnknown, ss_last_event = None\<rparr> (mo_sessions m)\<rparr>)"

definition unregister_session :: "string \<Rightarrow> monitor \<Rightarrow> monitor" where
  "unregister_session target m =
     m\<lparr>mo_pids := filter (\<lambda>(_, session). session \<noteq> target) (mo_pids m),
       mo_sessions := AList.delete target (mo_sessions m)\<rparr>"

text \<open>Applying a change to the tree of a session, followed by the recomputation.\<close>

definition change_tree :: "detectors \<Rightarrow> sys \<Rightarrow> string \<Rightarrow> (process_tree \<Rightarrow> process_tree) \<Rightarrow> monitor \<Rightarrow> monitor option" where
  "change_tree ds sy target g m =
     (case map_of (mo_sessions m) target of
        None \<Rightarrow> Some m
      | Some s \<Rightarrow>
          map_option (\<lambda>p. put_session target p m)
            (recompute ds sy target (s\<lparr>ss_last_event := Some (sy_now sy), ss_tree := g (ss_tree s)\<rparr>)))"

fun handle_process_event :: "detectors \<Rightarrow> sys \<Rightarrow> process_event \<Rightarrow> monitor \<Rightarrow> monitor option" where
  "handle_process_event ds sy (Fork parent child) m =
     (case map_of (mo_pids m) parent of
        None \<Rightarrow> Some m
      | Some target \<Rightarrow>
          (case cmdline_or_empty sy child of
             (argv0, argv) \<Rightarrow>
               change_tree ds sy target (add_child parent child argv0 argv)
                 (m\<lparr>mo_pids := AList.update child target (mo_pids m)\<rparr>)))"
| "handle_process_event ds sy (Exec pid) m =
     (case map_of (mo_pids m) pid of
        None \<Rightarrow> Some m
      | Some target \<Rightarrow>
          (case cmdline_or_empty sy pid of (argv0, argv) \<Rightarrow> change_tree ds sy target (update_exec pid argv0 argv) m))"
| "handle_process_event ds sy (Exit pid) m =
     (case map_of (mo_pids m) pid of
        None \<Rightarrow> Some m
      | Some target \<Rightarrow>
          let m1 = m\<lparr>mo_pids := AList.delete pid (mo_pids m)\<rparr> in
          (case map_of (mo_sessions m1) target of
             None \<Rightarrow> Some m1
           | Some s \<Rightarrow>
               if pid = pt_shell (ss_tree s) then Some (m1\<lparr>mo_sessions := AList.delete target (mo_sessions m1)\<rparr>)
               else change_tree ds sy target (tree_remove pid) m1))"

definition handle_process_events :: "detectors \<Rightarrow> sys \<Rightarrow> process_event list \<Rightarrow> monitor \<Rightarrow> monitor option" where
  "handle_process_events ds sy events m =
     fold (\<lambda>event acc. Option.bind acc (handle_process_event ds sy event)) events (Some m)"

section \<open>The refresh from the process table\<close>

definition NETLINK_STALE_THRESHOLD :: nat where "NETLINK_STALE_THRESHOLD = 500"

text \<open>\<^verbatim>\<open>rebuild_children\<close> stops at depth 2; the first argument counts the levels that are left.\<close>

fun rebuild_children :: "nat \<Rightarrow> sys \<Rightarrow> string \<Rightarrow> pid \<Rightarrow> process_tree \<times> (pid \<times> string) list \<Rightarrow> process_tree \<times> (pid \<times> string) list" where
  "rebuild_children 0 sy target parent st = st"
| "rebuild_children (Suc levels) sy target parent st =
     fold (\<lambda>child st.
       if child = pt_shell (fst st) then st
       else
         case cmdline_or_empty sy child of
           (argv0, argv) \<Rightarrow>
             let name = first_argv_token argv0;
                 st1 = (add_child parent child argv0 argv (fst st), AList.update child target (snd st))
             in if name = [] \<or> name \<in> set SHELL_NAMES then rebuild_children levels sy target child st1 else st1)
       (sy_children sy parent) st"

definition refresh_session_from_proc :: "detectors \<Rightarrow> sys \<Rightarrow> string \<Rightarrow> monitor \<Rightarrow> monitor option" where
  "refresh_session_from_proc ds sy target m =
     (case map_of (mo_sessions m) target of
        None \<Rightarrow> Some m
      | Some s \<Rightarrow>
          let t = ss_tree s;
              old = filter (\<lambda>p. p \<noteq> pt_shell t) (map fst (pt_processes t));
              t1 = fold tree_remove old t;
              pids1 = fold AList.delete old (mo_pids m);
              (t2, pids2) = rebuild_children 2 sy target (pt_shell t) (t1, pids1)
          in map_option (\<lambda>p. put_session target p (m\<lparr>mo_pids := pids2\<rparr>)) (recompute ds sy target (s\<lparr>ss_tree := t2\<rparr>)))"

definition is_stale :: "nat \<Rightarrow> session_state \<Rightarrow> bool" where
  "is_stale now s \<longleftrightarrow> (case ss_last_event s of None \<Rightarrow> True | Some at \<Rightarrow> NETLINK_STALE_THRESHOLD \<le> now - at)"

definition fallback_refresh :: "detectors \<Rightarrow> sys \<Rightarrow> monitor \<Rightarrow> monitor option" where
  "fallback_refresh ds sy m =
     fold (\<lambda>target acc. Option.bind acc (refresh_session_from_proc ds sy target))
       (map fst (filter (\<lambda>(_, s). is_stale (sy_now sy) s) (mo_sessions m))) (Some m)"

section \<open>Well-formed trees\<close>

text \<open>
  The child lists are a graph on pids. An exit event may be lost and a pid reused, so the graph need not be a tree, but it has
  no cycle: a node is entered with no children, and only then becomes a child.
\<close>

definition edges :: "process_tree \<Rightarrow> (pid \<times> pid) set" where
  "edges t = {(p, c). \<exists>node. map_of (pt_processes t) p = Some node \<and> c \<in> set (pn_children node)}"

definition tree_ok :: "process_tree \<Rightarrow> bool" where
  "tree_ok t \<longleftrightarrow> keys_distinct (pt_processes t) \<and> acyclic (edges t)"

lemma edges_mono: "tree_ok t \<Longrightarrow> keys_distinct (pt_processes t') \<Longrightarrow> edges t' \<subseteq> edges t \<Longrightarrow> tree_ok t'"
  using acyclic_subset unfolding tree_ok_def by blast

lemma tree_ok_new: "tree_ok (tree_new shell argv0 argv)"
proof -
  have "edges (tree_new shell argv0 argv) = {}" by (auto simp: edges_def tree_new_def split: if_splits)
  then show ?thesis by (simp add: tree_ok_def acyclic_def) (simp add: tree_new_def)
qed

text \<open>An edge into a node without outgoing edges closes no cycle.\<close>

lemma acyclic_into_sink:
  assumes "acyclic r" "\<And>z. (y, z) \<notin> r" "x \<noteq> y"
  shows "acyclic (insert (x, y) r)"
proof -
  have "(y, x) \<notin> r\<^sup>*"
  proof
    assume "(y, x) \<in> r\<^sup>*"
    then show False using assms(2,3) by (auto elim: converse_rtranclE)
  qed
  then show ?thesis using assms(1) by (simp add: acyclic_insert)
qed

lemma edges_add_child:
  "edges (add_child parent child argv0 argv t) \<subseteq>
     (if parent = child then {} else {(parent, child)}) \<union> {e \<in> edges t. fst e \<noteq> child} \<or> add_child parent child argv0 argv t = t"
  by (auto simp: edges_def add_child_def Let_def simp del: map_of_eq_Some_iff split: option.splits if_splits)

lemma tree_ok_add_child: "tree_ok t \<Longrightarrow> tree_ok (add_child parent child argv0 argv t)"
proof -
  assume ok: "tree_ok t"
  let ?t = "add_child parent child argv0 argv t" and ?r = "{e \<in> edges t. fst e \<noteq> child}"
  have "acyclic ?r" using ok by (auto simp: tree_ok_def intro: acyclic_subset)
  then have ac: "acyclic ((if parent = child then {} else {(parent, child)}) \<union> ?r)"
    using acyclic_into_sink [of ?r child parent] by simp
  have kd: "keys_distinct (pt_processes ?t)"
    using ok by (auto simp: tree_ok_def add_child_def Let_def split: option.splits)
  from edges_add_child [of parent child argv0 argv t] show ?thesis
  proof
    assume "edges ?t \<subseteq> (if parent = child then {} else {(parent, child)}) \<union> ?r"
    then have "acyclic (edges ?t)" by (rule acyclic_subset [OF ac])
    then show ?thesis using kd by (simp add: tree_ok_def)
  qed (simp add: ok)
qed

lemma tree_ok_exec: "tree_ok t \<Longrightarrow> tree_ok (update_exec pid argv0 argv t)"
  by (rule edges_mono, assumption)
    (auto simp: tree_ok_def update_exec_def edges_def simp del: map_of_eq_Some_iff split: option.splits if_splits)

lemma tree_ok_remove: "tree_ok t \<Longrightarrow> tree_ok (tree_remove pid t)"
  by (rule edges_mono, assumption)
    (auto simp: tree_ok_def tree_remove_def edges_def Let_def simp del: map_of_eq_Some_iff split: option.splits if_splits)

lemmas tree_ok_ops = tree_ok_new tree_ok_add_child tree_ok_exec tree_ok_remove

lemma tree_shell [simp]:
  "pt_shell (add_child parent child argv0 argv t) = pt_shell t" "pt_shell (update_exec pid argv0 argv t) = pt_shell t"
  "pt_shell (tree_remove pid t) = pt_shell t"
  by (simp_all add: add_child_def update_exec_def tree_remove_def Let_def split: option.splits)

lemma tree_ok_rebuild: "tree_ok (fst st) \<Longrightarrow> tree_ok (fst (rebuild_children levels sy target parent st))"
proof (induction levels sy target parent st rule: rebuild_children.induct)
  case (2 levels sy target parent st)
  define step where "step = (\<lambda>child (st :: process_tree \<times> (pid \<times> string) list).
       if child = pt_shell (fst st) then st
       else case cmdline_or_empty sy child of (argv0, argv) \<Rightarrow>
             let name = first_argv_token argv0;
                 st1 = (add_child parent child argv0 argv (fst st), AList.update child target (snd st))
             in if name = [] \<or> name \<in> set SHELL_NAMES then rebuild_children levels sy target child st1 else st1)"
  have "tree_ok (fst (step child st))" if "child \<in> set (sy_children sy parent)" "tree_ok (fst st)" for child st
    using that 2(1) [OF that(1)] by (auto simp: step_def Let_def tree_ok_add_child split: prod.splits)
  then have "set cs \<subseteq> set (sy_children sy parent) \<Longrightarrow> tree_ok (fst st) \<Longrightarrow> tree_ok (fst (fold step cs st))" for cs st
    by (induction cs arbitrary: st) auto
  then show ?case using 2(2) by (simp add: step_def [symmetric])
qed simp

section \<open>The search ends\<close>

definition below :: "process_tree \<Rightarrow> pid \<Rightarrow> pid set" where
  "below t pid = {q \<in> dom (map_of (pt_processes t)). (pid, q) \<in> (edges t)\<^sup>*}"

lemma finite_below: "finite (below t pid)"
  by (simp add: below_def finite_dom_map_of)

lemma below_child:
  assumes "tree_ok t" "map_of (pt_processes t) pid = Some node" "child \<in> set (pn_children node)"
  shows "card (below t child) < card (below t pid)"
proof (rule psubset_card_mono [OF finite_below])
  have e: "(pid, child) \<in> edges t" using assms(2,3) by (auto simp: edges_def)
  then have "below t child \<subseteq> below t pid" by (auto simp: below_def intro: converse_rtrancl_into_rtrancl)
  moreover have "pid \<in> below t pid" using assms(2) by (auto simp: below_def)
  moreover have "pid \<notin> below t child"
    using assms(1) e unfolding below_def tree_ok_def acyclic_def by (auto dest: rtrancl_into_trancl2)
  ultimately show "below t child \<subset> below t pid" by blast
qed

lemma card_below: "keys_distinct (pt_processes t) \<Longrightarrow> card (below t pid) \<le> length (pt_processes t)"
proof -
  assume "keys_distinct (pt_processes t)"
  have "card (below t pid) \<le> card (dom (map_of (pt_processes t)))"
    by (rule card_mono) (auto simp: below_def finite_dom_map_of)
  also have "\<dots> \<le> length (pt_processes t)" by (simp add: dom_map_of_conv_image_fst card_image_le [THEN order_trans] card_length)
  finally show ?thesis .
qed

lemma fold_bind_Some:
  "(\<And>x acc. x \<in> set xs \<Longrightarrow> \<exists>b. f x acc = Some b) \<Longrightarrow> \<exists>b. fold (\<lambda>x acc. Option.bind acc (f x)) xs (Some a) = Some b"
proof (induction xs arbitrary: a)
  case (Cons x xs)
  obtain b where "f x a = Some b" using Cons.prems by (meson list.set_intros(1))
  then show ?case using Cons.IH [of b] Cons.prems by simp
qed simp

lemma visit_returns:
  "tree_ok t \<Longrightarrow> card (below t pid) < k \<Longrightarrow> \<exists>b. visit_application_nodes k t depth pid best = Some b"
proof (induction k arbitrary: pid depth best)
  case (Suc k)
  show ?case
  proof (cases "map_of (pt_processes t) pid")
    case (Some node)
    have "\<exists>b. visit_application_nodes k t (depth + 1) child acc = Some b" if "child \<in> set (pn_children node)" for child acc
      using Suc.IH [OF Suc.prems(1), of child "depth + 1" acc] below_child [OF Suc.prems(1) Some that] Suc.prems(2) by simp
    then show ?thesis using Some fold_bind_Some [of "pn_children node" "visit_application_nodes k t (depth + 1)"]
      by (auto simp: Let_def)
  qed simp
qed simp

lemma primary_process_returns: "tree_ok t \<Longrightarrow> \<exists>r. primary_process t foreground = Some r"
proof -
  assume ok: "tree_ok t"
  have v: "\<exists>b. visit_application_nodes (Suc (length (pt_processes t))) t 1 child acc = Some b" for child acc
    using card_below [of t child] ok by (intro visit_returns [OF ok]) (simp add: tree_ok_def)
  have "\<exists>r. search_tree t = Some r"
    using fold_bind_Some [of _ "visit_application_nodes (Suc (length (pt_processes t))) t 1"] v
    by (auto simp: search_tree_def simp del: visit_application_nodes.simps split: option.splits)
  then show ?thesis by (auto simp: primary_process_def split: option.splits)
qed

end
