(* ===== verification/Process_Monitor.thy ===== *)
theory Process_Monitor
  imports Process_Tree
begin

text \<open>
  What the process monitor of \<open>Process_Tree\<close> guarantees over its runs. The runs interleave registrations, batches of kernel
  events and refreshes in any order, each with its own answers of the system, so that lost and late events are covered.
\<close>

section \<open>What the search finds\<close>

text \<open>The processes the search looks at: through shells, and no further than the first other program.\<close>

inductive visits :: "process_tree \<Rightarrow> pid \<Rightarrow> nat \<Rightarrow> pid \<Rightarrow> nat \<Rightarrow> bool" for t where
  here: "visits t p d p d"
| down: "map_of (pt_processes t) p = Some node \<Longrightarrow> is_shell node \<Longrightarrow> c \<in> set (pn_children node) \<Longrightarrow>
    visits t c (d + 1) q e \<Longrightarrow> visits t p d q e"

definition candidate :: "process_tree \<Rightarrow> pid \<Rightarrow> nat \<Rightarrow> nat \<times> process_node \<Rightarrow> bool" where
  "candidate t p d x \<longleftrightarrow>
     (\<exists>q e node. visits t p d q e \<and> map_of (pt_processes t) q = Some node \<and> is_application node \<and> x = (node_score node e, node))"

lemma candidate_unfold:
  "candidate t p d x \<longleftrightarrow>
     (\<exists>node. map_of (pt_processes t) p = Some node \<and>
        (is_application node \<and> x = (node_score node d, node) \<or>
         is_shell node \<and> (\<exists>c \<in> set (pn_children node). candidate t c (d + 1) x)))"
  (is "?l \<longleftrightarrow> ?r")
proof
  assume ?l
  then obtain q e node where v: "visits t p d q e" "map_of (pt_processes t) q = Some node" "is_application node"
    "x = (node_score node e, node)" unfolding candidate_def by blast
  from v(1) show ?r
  proof (cases rule: visits.cases)
    case here
    then show ?thesis using v by blast
  next
    case (down n c)
    then show ?thesis using v unfolding candidate_def by blast
  qed
next
  assume ?r
  then obtain node where n: "map_of (pt_processes t) p = Some node"
    "is_application node \<and> x = (node_score node d, node) \<or> is_shell node \<and> (\<exists>c \<in> set (pn_children node). candidate t c (d + 1) x)"
    by blast
  from n(2) show ?l
  proof
    assume "is_application node \<and> x = (node_score node d, node)"
    then show ?thesis using n(1) visits.here unfolding candidate_def by blast
  next
    assume "is_shell node \<and> (\<exists>c \<in> set (pn_children node). candidate t c (d + 1) x)"
    then show ?thesis using visits.down [OF n(1)] unfolding candidate_def by blast
  qed
qed

text \<open>A result is the old best or a candidate, and no candidate or old best has a higher score.\<close>

definition improves :: "(nat \<times> process_node) option \<Rightarrow> (nat \<times> process_node \<Rightarrow> bool) \<Rightarrow> (nat \<times> process_node) option \<Rightarrow> bool" where
  "improves best C b \<longleftrightarrow> (b = best \<or> (\<exists>x. C x \<and> b = Some x)) \<and> (\<forall>x. C x \<or> best = Some x \<longrightarrow> (\<exists>y. b = Some y \<and> fst x \<le> fst y))"

lemma improves_none: "(\<And>x. \<not> C x) \<Longrightarrow> improves best C best"
  by (auto simp: improves_def)

lemma improves_trans:
  assumes "improves a C b" "improves b D c"
  shows "improves a (\<lambda>x. C x \<or> D x) c"
proof -
  have "\<exists>y. c = Some y \<and> fst x \<le> fst y" if old: "C x \<or> a = Some x" for x
  proof -
    obtain y where "b = Some y" "fst x \<le> fst y" using assms(1) old unfolding improves_def by blast
    moreover from this(1) obtain z where "c = Some z" "fst y \<le> fst z" using assms(2) unfolding improves_def by blast
    ultimately show ?thesis using order_trans by blast
  qed
  moreover have "\<exists>y. c = Some y \<and> fst x \<le> fst y" if "D x" for x using assms(2) that unfolding improves_def by blast
  moreover have "c = a \<or> (\<exists>x. (C x \<or> D x) \<and> c = Some x)" using assms unfolding improves_def by blast
  ultimately show ?thesis unfolding improves_def by blast
qed

lemma improves_consider: "improves best (\<lambda>x. is_application node \<and> x = (node_score node d, node)) (consider_node node d best)"
  by (auto simp: improves_def consider_node_def Let_def split: option.splits)

lemma improves_fold:
  assumes "\<And>x a b. x \<in> set xs \<Longrightarrow> f x a = Some b \<Longrightarrow> improves a (C x) b"
    "fold (\<lambda>x acc. Option.bind acc (f x)) xs (Some a) = Some b"
  shows "improves a (\<lambda>y. \<exists>x \<in> set xs. C x y) b"
  using assms
proof (induction xs arbitrary: a)
  case Nil
  then show ?case by (auto intro: improves_none)
next
  case (Cons x xs)
  have none: "fold (\<lambda>x acc. Option.bind acc (f x)) ys None = None" for ys by (induction ys) auto
  obtain a1 where a1: "f x a = Some a1" "fold (\<lambda>x acc. Option.bind acc (f x)) xs (Some a1) = Some b"
    using Cons.prems(2) none by (cases "f x a") auto
  have "improves a (\<lambda>y. C x y \<or> (\<exists>x \<in> set xs. C x y)) b"
    using Cons.prems(1) [OF _ a1(1)] Cons.IH [OF Cons.prems(1) a1(2)] by (intro improves_trans) auto
  then show ?case by simp
qed

lemma visit_best:
  "visit_application_nodes k t d p best = Some b \<Longrightarrow> improves best (candidate t p d) b"
proof (induction k arbitrary: p d best b)
  case (Suc k)
  show ?case
  proof (cases "map_of (pt_processes t) p")
    case None
    then show ?thesis using Suc.prems by (auto intro!: improves_none simp: candidate_unfold [of t p])
  next
    case (Some node)
    let ?b1 = "consider_node node d best"
    have c: "candidate t p d = (\<lambda>x. is_application node \<and> x = (node_score node d, node) \<or>
        is_shell node \<and> (\<exists>c \<in> set (pn_children node). candidate t c (d + 1) x))"
      using Some by (auto simp: candidate_unfold [of t p d] fun_eq_iff)
    have "improves ?b1 (\<lambda>x. is_shell node \<and> (\<exists>c \<in> set (pn_children node). candidate t c (d + 1) x)) b"
    proof (cases "is_shell node")
      case True
      then have "fold (\<lambda>child acc. Option.bind acc (visit_application_nodes k t (d + 1) child)) (pn_children node) (Some ?b1) = Some b"
        using Suc.prems Some by (simp add: Let_def)
      from improves_fold [OF Suc.IH this] show ?thesis using True by simp
    next
      case False
      then show ?thesis using Suc.prems Some by (auto simp: Let_def intro: improves_none)
    qed
    then show ?thesis unfolding c by (rule improves_trans [OF improves_consider])
  qed
qed simp

definition descendant :: "process_tree \<Rightarrow> nat \<times> process_node \<Rightarrow> bool" where
  "descendant t x \<longleftrightarrow> (\<exists>shell. map_of (pt_processes t) (pt_shell t) = Some shell \<and> (\<exists>c \<in> set (pn_children shell). candidate t c 1 x))"

text \<open>A best application below the shell, or none if there is no application.\<close>

definition best_descendant :: "process_tree \<Rightarrow> process_node option \<Rightarrow> bool" where
  "best_descendant t r \<longleftrightarrow>
     (case r of
        Some node \<Rightarrow> (\<exists>s. descendant t (s, node) \<and> (\<forall>x. descendant t x \<longrightarrow> fst x \<le> s))
      | None \<Rightarrow> (\<forall>x. \<not> descendant t x))"

lemma search_tree_best:
  assumes "search_tree t = Some r"
  shows "best_descendant t r"
proof (cases "map_of (pt_processes t) (pt_shell t)")
  case None
  then show ?thesis using assms by (auto simp: search_tree_def descendant_def best_descendant_def)
next
  case (Some shell)
  obtain b where b: "fold (\<lambda>child acc. Option.bind acc (visit_application_nodes (Suc (length (pt_processes t))) t 1 child))
      (pn_children shell) (Some None) = Some b" "r = map_option snd b"
    using assms Some by (auto simp: search_tree_def simp del: visit_application_nodes.simps)
  have d: "descendant t = (\<lambda>x. \<exists>c \<in> set (pn_children shell). candidate t c 1 x)" by (simp add: descendant_def Some fun_eq_iff)
  have "improves None (descendant t) b" unfolding d by (rule improves_fold [OF visit_best b(1)])
  then show ?thesis unfolding b(2) improves_def best_descendant_def by (cases b) force+
qed

section \<open>Runs of the monitor\<close>

definition monitor_new :: monitor where
  "monitor_new = \<lparr>mo_sessions = [], mo_pids = [], mo_sent = []\<rparr>"

text \<open>
  The refresh takes the locks once for each stale session, so the step of a run is the refresh of one session; a batch of
  events may consist of a single one.
\<close>

inductive monitor_reach :: "detectors \<Rightarrow> monitor \<Rightarrow> bool" for ds where
  start: "monitor_reach ds monitor_new"
| registered: "monitor_reach ds m \<Longrightarrow> monitor_reach ds (register_session sy target shell m)"
| unregistered: "monitor_reach ds m \<Longrightarrow> monitor_reach ds (unregister_session target m)"
| events: "monitor_reach ds m \<Longrightarrow> handle_process_events ds sy evs m = Some m' \<Longrightarrow> monitor_reach ds m'"
| refreshed: "monitor_reach ds m \<Longrightarrow> refresh_session_from_proc ds sy target m = Some m' \<Longrightarrow> monitor_reach ds m'"

definition monitor_ok :: "monitor \<Rightarrow> bool" where
  "monitor_ok m \<longleftrightarrow> (\<forall>target s. map_of (mo_sessions m) target = Some s \<longrightarrow> tree_ok (ss_tree s))"

lemma recompute_returns:
  assumes "tree_ok (ss_tree s)"
  shows "\<exists>s' out. recompute ds sy target s = Some (s', out) \<and> ss_tree s' = ss_tree s"
proof -
  obtain r where "primary_process (ss_tree s) (sy_foreground sy target) = Some r"
    using primary_process_returns [OF assms] by blast
  then show ?thesis by (simp add: recompute_def derive_session_state_def case_prod_unfold)
qed

lemma put_session_ok: "monitor_ok m \<Longrightarrow> tree_ok (ss_tree (fst p)) \<Longrightarrow> monitor_ok (put_session target p m)"
  by (simp add: monitor_ok_def put_session_def)

lemma monitor_ok_pids [simp]: "monitor_ok (m\<lparr>mo_pids := ps\<rparr>) = monitor_ok m"
  by (simp add: monitor_ok_def)

lemma change_tree_ok:
  assumes "monitor_ok m" "\<And>t. tree_ok t \<Longrightarrow> tree_ok (g t)"
  shows "\<exists>m'. change_tree ds sy target g m = Some m' \<and> monitor_ok m'"
proof (cases "map_of (mo_sessions m) target")
  case None
  then show ?thesis using assms(1) by (simp add: change_tree_def)
next
  case (Some s)
  let ?s = "s\<lparr>ss_last_event := Some (sy_now sy), ss_tree := g (ss_tree s)\<rparr>"
  have ok: "tree_ok (ss_tree ?s)" using assms Some by (simp add: monitor_ok_def)
  obtain s' out where r: "recompute ds sy target ?s = Some (s', out)" "ss_tree s' = ss_tree ?s"
    using recompute_returns [OF ok] by blast
  then show ?thesis using put_session_ok [OF assms(1), of "(s', out)" target] ok Some by (simp add: change_tree_def)
qed

lemma handle_event_ok: "monitor_ok m \<Longrightarrow> \<exists>m'. handle_process_event ds sy ev m = Some m' \<and> monitor_ok m'"
proof (cases ev)
  case (Exit pid)
  assume ok: "monitor_ok m"
  have del: "monitor_ok (m\<lparr>mo_pids := ps, mo_sessions := AList.delete target (mo_sessions m)\<rparr>)" for ps target
    using ok by (simp add: monitor_ok_def)
  show ?thesis
    using ok del change_tree_ok [of "m\<lparr>mo_pids := AList.delete pid (mo_pids m)\<rparr>" "tree_remove pid"] tree_ok_remove
    by (auto simp: Exit Let_def simp del: map_of_eq_Some_iff split: option.splits)
qed (auto simp: tree_ok_ops split: option.splits prod.splits intro!: change_tree_ok)

lemma fold_bind_ok:
  assumes "\<And>x m. P m \<Longrightarrow> \<exists>m'. f x m = Some m' \<and> P m'" "P m"
  shows "\<exists>m'. fold (\<lambda>x acc. Option.bind acc (f x)) xs (Some m) = Some m' \<and> P m'"
  using assms(2)
proof (induction xs arbitrary: m)
  case (Cons x xs)
  then show ?case using assms(1) [OF Cons.prems, of x] by auto
qed simp

lemma handle_events_ok: "monitor_ok m \<Longrightarrow> \<exists>m'. handle_process_events ds sy evs m = Some m' \<and> monitor_ok m'"
  unfolding handle_process_events_def by (rule fold_bind_ok [where P = monitor_ok]) (rule handle_event_ok)

lemma refresh_session_ok: "monitor_ok m \<Longrightarrow> \<exists>m'. refresh_session_from_proc ds sy target m = Some m' \<and> monitor_ok m'"
proof -
  assume ok: "monitor_ok m"
  show ?thesis
  proof (cases "map_of (mo_sessions m) target")
    case None
    then show ?thesis using ok by (simp add: refresh_session_from_proc_def)
  next
    case (Some s)
    define t where "t = ss_tree s"
    define old where "old = filter (\<lambda>p. p \<noteq> pt_shell t) (map fst (pt_processes t))"
    obtain t2 pids2 where rb: "rebuild_children 2 sy target (pt_shell t) (fold tree_remove old t, fold AList.delete old (mo_pids m)) = (t2, pids2)"
      by fastforce
    have "tree_ok (fold tree_remove ps u)" if "tree_ok u" for ps u using that by (induction ps arbitrary: u) (auto intro: tree_ok_remove)
    then have "tree_ok t2" using tree_ok_rebuild [of "(fold tree_remove old t, fold AList.delete old (mo_pids m))" 2 sy target "pt_shell t"] ok Some rb
      by (simp add: monitor_ok_def t_def)
    then obtain s' out where r: "recompute ds sy target (s\<lparr>ss_tree := t2\<rparr>) = Some (s', out)" "ss_tree s' = t2"
      using recompute_returns [of "s\<lparr>ss_tree := t2\<rparr>" ds sy target] by auto
    then have "refresh_session_from_proc ds sy target m = Some (put_session target (s', out) (m\<lparr>mo_pids := pids2\<rparr>))"
      unfolding refresh_session_from_proc_def Some option.case Let_def t_def [symmetric] old_def [symmetric] rb by simp
    then show ?thesis using put_session_ok [of "m\<lparr>mo_pids := pids2\<rparr>" "(s', out)" target] ok r(2) \<open>tree_ok t2\<close> by simp
  qed
qed

lemma fallback_refresh_ok: "monitor_ok m \<Longrightarrow> \<exists>m'. fallback_refresh ds sy m = Some m' \<and> monitor_ok m'"
  unfolding fallback_refresh_def by (rule fold_bind_ok [where P = monitor_ok]) (rule refresh_session_ok)

lemma monitor_reach_ok: "monitor_reach ds m \<Longrightarrow> monitor_ok m"
proof (induction rule: monitor_reach.induct)
  case start
  show ?case by (simp add: monitor_ok_def monitor_new_def)
next
  case (registered m sy target shell)
  then show ?case by (auto simp: monitor_ok_def register_session_def tree_ok_new simp del: map_of_eq_Some_iff split: prod.splits if_splits)
next
  case (unregistered m target)
  then show ?case by (simp add: monitor_ok_def unregister_session_def)
next
  case (events m sy evs m')
  then show ?case using handle_events_ok [of m ds sy evs] by auto
next
  case (refreshed m sy target m')
  then show ?case using refresh_session_ok [of m ds sy target] by auto
qed

section \<open>Properties\<close>

text \<open>Beyond the first level the score does not depend on the depth.\<close>

lemma node_score_deep: "2 \<le> d \<Longrightarrow> 2 \<le> e \<Longrightarrow> node_score node d = node_score node e"
  by (simp add: node_score_def)

text \<open>
  C15: the process graph of a session is well formed whatever events arrive. In every state the monitor can reach - with
  lost exits, reused pids, unknown parents and refreshes in between - each pid has one node and no process is, directly or
  through others, its own child.
\<close>

theorem process_graph_acyclic:
  assumes "monitor_reach ds m" "map_of (mo_sessions m) target = Some s"
  shows "distinct (map fst (pt_processes (ss_tree s))) \<and>
     acyclic {(p, c). \<exists>node. map_of (pt_processes (ss_tree s)) p = Some node \<and> c \<in> set (pn_children node)}"
  using monitor_reach_ok [OF assms(1)] assms(2) unfolding monitor_ok_def tree_ok_def edges_def by blast

definition plain_detectors :: detectors where
  "plain_detectors = \<lparr>d_command_name = (\<lambda>name _. name), d_is_agent = (\<lambda>_. False), d_infer = (\<lambda>_ _. TsUnknown)\<rparr>"

definition silent_sys :: sys where
  "silent_sys = \<lparr>sy_cmdline = (\<lambda>_. []), sy_children = (\<lambda>_. []), sy_foreground = (\<lambda>_. None), sy_pane = (\<lambda>_. []), sy_now = 0\<rparr>"

text \<open>A shell 1 with child 10 and grandchild 11, after which pid 10 is reused for a child of 11.\<close>

definition reused_events :: "process_event list" where
  "reused_events = [Fork 1 10, Fork 10 11, Fork 11 10]"

lemma strip_front_Nil: "strip_front ws [] = []"
proof -
  have "find (\<lambda>w. w \<noteq> [] \<and> starts_with [] w) ws = None" by (auto simp: find_None_iff starts_with_def)
  then show ?thesis by (subst strip_front.simps) simp
qed

lemma cmdline_silent: "cmdline_or_empty silent_sys pid = ([], [])" "first_argv_token [] = []"
  by (simp_all add: cmdline_or_empty_def read_proc_cmdline_def silent_sys_def first_argv_token_def after_last_slash_def strip_front_Nil)

text \<open>A visible word without a slash is its own command name.\<close>

lemma first_argv_token_word:
  assumes "s \<noteq> []" "list_all graphic s" "CHR ''/'' \<notin> set s"
  shows "first_argv_token s = s"
proof -
  have ws: "\<not> graphic (hd w)" "w \<noteq> []" if "w \<in> set white_space" for w
    using white_space_ends [OF that] by (auto simp: graphic_def)
  have u: "upto_space u = u" if "list_all graphic u" for u
    using that
  proof (induction u)
    case (Cons c cs)
    have "\<not> starts_with (c # cs) w" if "w \<in> set white_space" for w
      using ws [OF that] Cons.prems by (cases w) (auto simp: starts_with_iff)
    then show ?case using Cons by auto
  qed simp
  have "graphic (hd s)" using assms(1,2) by (cases s) auto
  then have f: "strip_front white_space s = s" using ws by (intro strip_front_id) (auto simp: assms(1))
  have "takeWhile (\<lambda>c. c \<noteq> CHR ''/'') (rev s) = rev s" using assms(3) by (subst takeWhile_eq_all_conv) auto
  then have "after_last_slash s = s" by (simp only: after_last_slash_def rev_rev_ident)
  then show ?thesis using assms(1) by (simp add: first_argv_token_def u [OF assms(2)] f)
qed

definition with_session :: monitor where
  "with_session = register_session silent_sys ''t'' 1 monitor_new"

lemma with_session:
  "monitor_reach plain_detectors with_session" "mo_pids with_session = [(1, ''t'')]"
  "mo_sessions with_session = [(''t'', \<lparr>ss_tree = tree_new 1 ''bash'' [], ss_last_command = None, ss_last_state = TsUnknown, ss_last_event = None\<rparr>)]"
proof -
  show "monitor_reach plain_detectors with_session"
    unfolding with_session_def by (rule monitor_reach.registered [OF monitor_reach.start])
qed (simp_all add: with_session_def register_session_def read_proc_cmdline_def silent_sys_def monitor_new_def)

definition bare_node :: "pid \<Rightarrow> pid list \<Rightarrow> process_node" where
  "bare_node parent children = \<lparr>pn_parent = Some parent, pn_command = [], pn_argv = [], pn_children = children\<rparr>"

lemma bare_node [simp]: "\<not> is_application (bare_node p cs)" "\<not> is_shell (bare_node p cs)" "pn_children (bare_node p cs) = cs"
  "\<lparr>pn_parent = Some p, pn_command = [], pn_argv = [], pn_children = cs\<rparr> = bare_node p cs"
  "(bare_node p cs)\<lparr>pn_children := ds\<rparr> = bare_node p ds"
  by (simp_all add: bare_node_def is_application_def is_shell_def SHELL_NAMES_def)

theorem process_graph_acyclic_witness:
  "\<exists>m s. handle_process_events plain_detectors silent_sys reused_events with_session = Some m \<and>
     map_of (mo_sessions m) ''t'' = Some s \<and> map fst (pt_processes (ss_tree s)) = [1, 10, 11] \<and>
     acyclic {(p, c). \<exists>node. map_of (pt_processes (ss_tree s)) p = Some node \<and> c \<in> set (pn_children node)}"
proof -
  have bash: "first_argv_token ''bash'' = ''bash''" by (rule first_argv_token_word) (simp_all add: graphic_def)
  define st where "st = (\<lambda>ps ev. \<lparr>ss_tree = \<lparr>pt_shell = 1, pt_processes = ps\<rparr>, ss_last_command = None, ss_last_state = TsInput, ss_last_event = ev\<rparr>)"
  have prim: "recompute plain_detectors silent_sys ''t'' \<lparr>ss_tree = \<lparr>pt_shell = 1, pt_processes = (1, \<lparr>pn_parent = None, pn_command = ''bash'', pn_argv = [], pn_children = [10]\<rparr>) # (10, bare_node p cs) # rest\<rparr>,
      ss_last_command = None, ss_last_state = ls, ss_last_event = ev\<rparr> =
      Some (st ((1, \<lparr>pn_parent = None, pn_command = ''bash'', pn_argv = [], pn_children = [10]\<rparr>) # (10, bare_node p cs) # rest) ev, if ls = TsInput then [] else [TaskStateChanged ''t'' TsInput])" for p cs rest ls ev
    by (simp add: recompute_def derive_session_state_def primary_process_def search_tree_def silent_sys_def st_def
        consider_node_def)
  obtain m s where run: "handle_process_events plain_detectors silent_sys reused_events with_session = Some m"
      "map_of (mo_sessions m) ''t'' = Some s" "map fst (pt_processes (ss_tree s)) = [1, 10, 11]"
    by (simp add: handle_process_events_def reused_events_def with_session change_tree_def tree_new_def bash cmdline_silent
        add_child_def Let_def prim put_session_def st_def)
  have "monitor_reach plain_detectors m" by (rule monitor_reach.events [OF with_session(1) run(1)])
  note ok = process_graph_acyclic [OF this run(2), THEN conjunct2]
  show ?thesis by (intro exI conjI) (rule run, rule run, rule run, rule ok)
qed

text \<open>
  C16: the monitor always comes to an answer, and the answer is the best one. In every state it can reach, handling any
  batch of process events and any refresh from the process table end - the recursive search never runs in a circle - and
  the primary process of a session is the foreground process if that is an application, and otherwise an application with
  the highest score among those below the shell, or none exactly if there is none.
\<close>

theorem primary_process_best:
  assumes reach: "monitor_reach ds m" and session: "map_of (mo_sessions m) target = Some s"
  shows "(\<exists>m'. handle_process_events ds sy evs m = Some m') \<and> (\<exists>m'. fallback_refresh ds sy m = Some m') \<and>
    (\<exists>r. primary_process (ss_tree s) foreground = Some r \<and>
      (case Option.bind foreground (map_of (pt_processes (ss_tree s))) of
         Some node \<Rightarrow> if is_application node then r = Some node else best_descendant (ss_tree s) r
       | None \<Rightarrow> best_descendant (ss_tree s) r))"
proof -
  have ok: "monitor_ok m" by (rule monitor_reach_ok [OF reach])
  then have "tree_ok (ss_tree s)" using session unfolding monitor_ok_def by blast
  then obtain r where r: "primary_process (ss_tree s) foreground = Some r" using primary_process_returns by blast
  have "case Option.bind foreground (map_of (pt_processes (ss_tree s))) of
         Some node \<Rightarrow> if is_application node then r = Some node else best_descendant (ss_tree s) r
       | None \<Rightarrow> best_descendant (ss_tree s) r"
    using r search_tree_best [of "ss_tree s" r] unfolding primary_process_def
    by (auto simp del: bind_eq_Some_conv split: option.splits if_splits)
  then show ?thesis using handle_events_ok [OF ok, of ds sy evs] fallback_refresh_ok [OF ok, of ds sy] r by blast
qed

text \<open>A shell 1 that has started an editor, seen through the fork event.\<close>

definition editor_sys :: sys where
  "editor_sys = silent_sys\<lparr>sy_cmdline := (\<lambda>pid. if pid = 10 then ''vim'' else [])\<rparr>"

definition editor_node :: process_node where
  "editor_node = \<lparr>pn_parent = Some 1, pn_command = ''vim'', pn_argv = [''vim''], pn_children = []\<rparr>"

theorem primary_process_best_witness:
  "\<exists>m s. handle_process_events plain_detectors editor_sys [Fork 1 10] with_session = Some m \<and>
     map_of (mo_sessions m) ''t'' = Some s \<and> primary_process (ss_tree s) None = Some (Some editor_node) \<and>
     best_descendant (ss_tree s) (Some editor_node) \<and>
     (\<exists>m'. handle_process_events plain_detectors silent_sys reused_events m = Some m')"
proof -
  have word: "first_argv_token ''bash'' = ''bash''" "first_argv_token ''vim'' = ''vim''"
    by (rule first_argv_token_word; simp add: graphic_def)+
  have app: "is_application \<lparr>pn_parent = Some 1, pn_command = ''vim'', pn_argv = [''vim''], pn_children = []\<rparr>"
    "\<not> is_shell \<lparr>pn_parent = Some 1, pn_command = ''vim'', pn_argv = [''vim''], pn_children = []\<rparr>"
    by (simp_all add: is_application_def is_shell_def SHELL_NAMES_def)
  have cmd: "cmdline_or_empty editor_sys 10 = (''vim'', [''vim''])"
    by (simp add: cmdline_or_empty_def read_proc_cmdline_def editor_sys_def)
  have sys: "sy_foreground editor_sys ''t'' = None" "sy_pane editor_sys ''t'' = []" by (simp_all add: editor_sys_def silent_sys_def)
  obtain m s where run: "handle_process_events plain_detectors editor_sys [Fork 1 10] with_session = Some m"
      "map_of (mo_sessions m) ''t'' = Some s" "primary_process (ss_tree s) None = Some (Some editor_node)"
    by (simp add: handle_process_events_def with_session change_tree_def tree_new_def word cmd add_child_def Let_def
        recompute_def derive_session_state_def primary_process_def search_tree_def app consider_node_def sys put_session_def
        editor_node_def)
  have "monitor_reach plain_detectors m" by (rule monitor_reach.events [OF with_session(1) run(1)])
  note best = primary_process_best [OF this run(2), of silent_sys reused_events None]
  then have "best_descendant (ss_tree s) (Some editor_node)" using run(3) by simp
  then show ?thesis using run best by blast
qed

end
