(* ===== verification/Spec2Isabelle.thy ===== *)
theory Spec2Isabelle
  imports Mux_Flow Mux_Delivery Scheduler_Props Relay_Link_Props Relay_Gate Process_Monitor
begin

text \<open>
  \<^bold>\<open>The program.\<close> WaitAgent lets terminal nodes on different machines reach each other. Two nodes, or a node and a relay
  server, hold one connection that is multiplexed into streams. The relay keeps a table of the nodes that are connected to
  it, routes streams between them, and schedules what it sends on each link. It also enrols new nodes, tells nodes who is
  online, and answers administration requests. On a node, a process monitor follows the processes of each terminal session
  and decides which of them is the one the user works with. This development models those parts; all file names are below
  \<^verbatim>\<open>src/\<close> of the repository.

  \<^bold>\<open>The theories and the code they model.\<close>
  \<^item> \<open>Prelude\<close>: machine words, big-endian encodings, bounded tokio channels, hash maps as association lists whose order is
    arbitrary. \<open>Text_Ops\<close>: lower case, white space, dotted names and IP address texts of the standard library.
  \<^item> \<open>Frame\<close>: \<^verbatim>\<open>infra/relay_mux/frame.rs\<close> and \<^verbatim>\<open>mod.rs\<close>, the frame type, its codec, reading and writing a frame.
  \<^item> \<open>Mux_Stream\<close>: \<^verbatim>\<open>infra/relay_mux/stream.rs\<close>, a stream (record \<open>cell\<close>) and the poll functions on it. \<open>Mux_Flow\<close>: the two ends
    of one stream with the frames between them.
  \<^item> \<open>Mux_Connection\<close>: \<^verbatim>\<open>infra/relay_mux/connection.rs\<close>, the connection (record \<open>conn\<close>) with its reader task, its writer task and
    the calls of the application; the step relation is \<open>conn_step\<close>, and \<open>fail_step\<close> splits a failing call into its parts.
    \<open>Mux_Delivery\<close>: what a connection delivers and how failures reach its streams.
  \<^item> \<open>Scheduler\<close> and \<open>Scheduler_Props\<close>: \<^verbatim>\<open>infra/relay_scheduler.rs\<close>, the egress of one link (record \<open>link_sched\<close>), its consumer and
    writer tasks, step relation \<open>sched_step\<close>.
  \<^item> \<open>Routing\<close>: \<^verbatim>\<open>infra/relay_routing.rs\<close>. \<open>Conn_Table\<close>: \<^verbatim>\<open>infra/relay_connection_table.rs\<close>. \<open>Capacity\<close>: \<^verbatim>\<open>infra/relay_capacity.rs\<close>.
    \<open>Presence_Hub\<close>: \<^verbatim>\<open>infra/relay_presence.rs\<close>. Each has one definition per method of the table it models.
  \<^item> \<open>Enrollment\<close>: \<^verbatim>\<open>infra/relay_enrollment.rs\<close> and the readers of the whitelist in \<^verbatim>\<open>infra/relay_server.rs\<close>. \<open>Relay_Gate\<close>: which handler
    \<^verbatim>\<open>relay_server.rs\<close> gives a connection, and the binding of the ports.
  \<^item> \<open>Relay_Admin\<close>: \<^verbatim>\<open>infra/relay_admin.rs\<close> and \<^verbatim>\<open>infra/relay_remote_admin.rs\<close>, the handlers over the shared state (record \<open>relay\<close>).
  \<^item> \<open>Relay_Link\<close> and \<open>Relay_Link_Props\<close>: \<^verbatim>\<open>infra/relay_link.rs\<close> and the sweeper, all link tasks of a relay over the tables above and
    one scheduler per link (record \<open>net\<close>, step relation \<open>net_step\<close>).
  \<^item> \<open>Process_Tree\<close> and \<open>Process_Monitor\<close>: \<^verbatim>\<open>process_monitor/tree.rs\<close>, \<^verbatim>\<open>state_machine.rs\<close>, \<^verbatim>\<open>mod.rs\<close> and the command-line helpers of
    \<^verbatim>\<open>domain/agent_detector.rs\<close>.
  \<^item> This theory puts the relay's scheduler and the node's multiplexer together.

  \<^bold>\<open>What the lemmas show.\<close>
  \<^item> Codec (C1 to C4): frames survive the wire, decoding is strict up to the online byte of \<open>Presence\<close>, truncation is noticed, and
    the limit that \<^verbatim>\<open>encode\<close> does not check.
  \<^item> Streams and flow control (C5 to C8): order, the shape of the write leg, conservation of credit, and the credit that is lost.
  \<^item> Connections (C9 to C14): the reason of a failure, fresh ids, exact demultiplexing, what failures, relay errors and late
    grants do to streams.
  \<^item> Process monitor (C15, C16): the tree stays acyclic, and the search in it ends with the best process.
  \<^item> Scheduler (C17 to C22): bounds, order, no lost wake-up, fairness of a pass, the flush at shutdown, and bursts of saved deficit.
  \<^item> Relay tables (C23 to C31): pairing of routes and their teardown, with and without reuse of an endpoint; ownership of table
    entries, eviction, labels; the throughput meter; presence as a refinement of a watch relation.
  \<^item> Enrollment (C32 to C35) and administration (C36): tokens, restarts, the whitelist, the node channel.
  \<^item> Whole relay (C37 to C39) and relay with node (C40): identities, forwarding, revocation, teardown against queued data.

  Two interfaces are locales: \<open>guarded_registry\<close>, the ownership contract of the connection table, interpreted on its operations, and
  \<open>egress\<close>, what a link task may rely on when it sends, interpreted on the scheduler.

  \<^bold>\<open>Steps.\<close> A step is what one task does between two points where the code gives way to others. Where the code does several
  things in a row that others could see half done, the model makes these choices:
  \<^item> \<^verbatim>\<open>fail_connection\<close> is \<open>fail_swap\<close>, \<open>fail_store\<close>, \<open>fail_signal\<close> and \<open>fail_drain\<close>, interleaved with all other steps in C9. The
    other theorems take the completed call.
  \<^item> A poll function is one step, so the gap between its test of \<^verbatim>\<open>dead\<close> and its registration of a waker is not covered; the spurious
    \<open>Pending\<close> of tokio's cooperative budget and mutex poisoning are left out.
  \<^item> \<open>open_insert\<close> takes the next id and inserts the entry in one step; each id is taken once either way.
  \<^item> \<open>writer_priority\<close> and \<open>writer_pass\<close> drain the queues and write the batch in one turn. What arrives while the batch is written
    is seen in the next turn in the code as well. The deficit, an \<^verbatim>\<open>i64\<close>, is an integer, and byte counts are natural numbers.
  \<^item> \<open>persist\<close> writes the file in one update where the code writes a temporary file and renames it.
  \<^item> \<open>handle_remove\<close> and the other administration handlers, and \<open>handle_process_event\<close>, are one step each although the code takes
    their locks one after the other.

  \<^bold>\<open>Bounds and fuel.\<close> The search of the process tree has fuel for one more level than there are nodes; C16 shows that it is enough
  because the tree is acyclic. \<open>chunks64\<close> takes the length of its input, of which each round uses at least one character;
  \<open>read_frames n\<close> is \<open>n\<close> calls of \<^verbatim>\<open>read_frame\<close>. C10 holds for the first \<open>2^31\<close> opens, after which the 32-bit id wraps around. C30 assumes less than \<open>2^64\<close> bytes. The writer's
  flush in C21 ends within five turns per queued frame plus four.

  \<^bold>\<open>Arguments.\<close> Third-party code and the operating system are arguments of the definitions that use them: hash, base64 and JSON
  functions, the fingerprint of a certificate, the Unicode case tables, I/O errors, bind results, the contents of \<^verbatim>\<open>/proc\<close>, the
  detectors of agents, and the clock.

  \<^bold>\<open>Not modelled.\<close> TLS and sockets, the dialling and reconnection of a node, the gRPC protocol (generated code), SSH hosts, the
  terminal user interface and emulator, configuration files, web login and dashboard, command line, and the platform layer. They
  are input and output around the parts above, or calls of libraries.
\<close>

section \<open>The relay's scheduler and the node's multiplexer together\<close>

text \<open>
  C40: tearing down one stream fails the whole link. Suppose a link's egress holds data of a stream that the node has
  open, and the relay sends \<open>CloseStream\<close> for it. The notice is control traffic, so the writer puts it on the wire before the
  queued data of the very same stream. The node removes the stream on the notice, takes the data that follows for a frame
  of an unknown stream, and fails the connection with all its other streams.
\<close>

theorem teardown_overtakes_data:
  assumes sched: "sc_buckets (ls_shared s) = [(sid, b)]" "bucket_ok sid b" "bk_queue b = Data sid payload # q"
      "sc_priority (ls_shared s) = []" "ls_writer s = WPriority" "\<not> ls_consumer_done s" "ls_parked s = None"
      "\<not> ls_control_closed s" "chan_queue (ls_control s) = []" "chan_rx_open (ls_control s)" "0 < chan_cap (ls_control s)"
    and node: "\<not> mc_dead c" "is_relay_link c" "routes sid a c"
    and egress: "s1 = consumer_turn (fst (ingress_try_send (CloseStream sid) s))"
      "s2 = link_writer_turn None (link_writer_turn None s1)"
  shows "\<exists>rest. ls_written s2 = ls_written s @ CloseStream sid # Data sid payload # rest \<and>
     (let c' = reader_frame (Data sid payload) (reader_frame (CloseStream sid) c) in
        mc_dead c' \<and> dead_reason (mc_shared c') = UnknownStreamReason sid \<and> mc_table c' = [])"
proof -
  obtain batch b' where serve: "serve_bucket (ls_round_budget s) b = (batch, b')" by fastforce
  have "bk_queue b \<noteq> []" using sched(3) by simp
  then have "batch \<noteq> []" by (rule serve_bucket_spec(3) [OF serve sched(2)])
  moreover have "bk_queue b = batch @ bk_queue b'" by (rule serve_bucket_spec(1) [OF serve sched(2)])
  ultimately obtain rest where batch: "batch = Data sid payload # rest" using sched(3) by (cases batch) auto
  have s1: "ls_shared s1 = (ls_shared s)\<lparr>sc_priority := [CloseStream sid], sc_classified_frames := sc_classified_frames (ls_shared s) + 1\<rparr>"
    "ls_writer s1 = WPriority" "ls_written s1 = ls_written s" "ls_round_budget s1 = ls_round_budget s"
    using sched by (simp_all add: egress(1) ingress_try_send_def chan_try_send_def consumer_turn_def retry_arm_def control_arm_def
        chan_recv_def classify_priority_def)
  define s1' where "s1' = link_writer_turn None s1"
  have s1': "ls_writer s1' = WPass False" "sc_buckets (ls_shared s1') = [(sid, b)]" "ls_written s1' = ls_written s @ [CloseStream sid]"
    "ls_round_budget s1' = ls_round_budget s"
    using s1 sched(1) by (simp_all add: s1'_def link_writer_turn_def writer_priority_def write_batch_def Let_def record_emission_def)
  have "ls_written s2 = ls_written s1' @ batch"
    unfolding egress(2) s1'_def [symmetric]
    by (simp add: link_writer_turn_def s1' writer_pass_def write_batch_def writer_exit_def Let_def serve)
  then have wire: "ls_written s2 = ls_written s @ CloseStream sid # Data sid payload # rest" by (simp add: s1' batch)
  define c1 where "c1 = reader_frame (CloseStream sid) c"
  have c1: "map_of (mc_table c1) sid = None" "mc_shared c1 = mc_shared c"
    using node by (simp_all add: c1_def relay_link_or_fail_def teardown_stream_def routes_def Let_def)
  then have "reader_frame (Data sid payload) c1 = reader_fail (UnknownStreamReason sid) c1"
    by (simp add: on_data_def mux_lookup_def reader_fail_def)
  then show ?thesis
    unfolding c1_def [symmetric] using wire node(1) c1(2) fail_connection_alive [of c1 "UnknownStreamReason sid"]
    by (auto simp: Let_def dead_reason_def)
qed

definition backlogged :: link_sched where
  "backlogged = consumer_turn (fst (ingress_try_send (Data 1 [9]) (sched_spawn default_config)))"

lemma backlogged:
  "sched_reach default_config backlogged"
  "sc_buckets (ls_shared backlogged) = [(1, \<lparr>bk_queue = [Data 1 [9]], bk_queued_bytes = 1, bk_deficit = 0, bk_idle_passes = 0\<rparr>)]"
  "ls_parked backlogged = None" "sc_priority (ls_shared backlogged) = []" "ls_writer backlogged = WPriority"
  "\<not> ls_consumer_done backlogged" "\<not> ls_control_closed backlogged" "chan_queue (ls_control backlogged) = []"
  "chan_rx_open (ls_control backlogged)" "0 < chan_cap (ls_control backlogged)" "ls_written backlogged = []"
proof -
  have "ls_senders (sched_spawn default_config)" by (simp add: sched_spawn_def Let_def)
  from sched_reach.step [OF sched_reach.step [OF sched_reach.start sched_step.ingress [OF this]] sched_step.consumer]
  show "sched_reach default_config backlogged" unfolding backlogged_def .
qed (simp_all add: backlogged_def sched_spawn_def default_config_def ingress_try_send_def chan_try_send_def
      LINK_OUTBOUND_QUEUE_def consumer_turn_def retry_arm_def control_arm_def bulk_arm_def chan_recv_def classify_bulk_def
      enqueue_bucket_def entry_bucket_def bucket_new_def Let_def MAX_FRAME_PAYLOAD_def)

theorem teardown_overtakes_data_witness:
  "sched_reach default_config backlogged \<and> conn_reach (conn_build Client RelayLink None) 1 one_routed \<and> \<not> mc_dead one_routed \<and>
   mc_dead (reader_frame (Data 1 [9]) (reader_frame (CloseStream 1) one_routed)) \<and>
   take 2 (ls_written (link_writer_turn None (link_writer_turn None (consumer_turn (fst (ingress_try_send (CloseStream 1) backlogged)))))) =
     [CloseStream 1, Data 1 [9]]"
proof -
  have b: "bucket_ok 1 \<lparr>bk_queue = [Data 1 [9]], bk_queued_bytes = 1, bk_deficit = 0, bk_idle_passes = 0\<rparr>"
    by (simp add: bucket_ok_def)
  have relay: "is_relay_link one_routed"
    by (simp add: one_routed_def is_relay_link_def open_insert_def table_insert_new_def Let_def conn_build_def shared_new_def)
  show ?thesis
    using teardown_overtakes_data [OF backlogged(2) b _ backlogged(4,5,6,3,7-10) one_routed(5) relay one_routed(2) refl refl,
        of "[9]" "[]"] backlogged(1,11) one_routed(1,5)
    by (auto simp: Let_def)
qed

end
